(* ===== verification/Prelude.thy ===== *)
theory Prelude
  imports "HOL-Library.Word" "HOL-Library.Multiset" "HOL-Library.Monad_Syntax"
begin

text \<open>
  Conventions shared by all theories of the development.

  A C++ function that may run into undefined behaviour (an array access out of range, a
  division by zero, signed overflow) or block for ever on a lock its own thread holds is a
  function into \<open>'a option\<close>: \<open>None\<close> is that fault, and \<open>do\<close> blocks of \<open>Option.bind\<close>
  propagate it.  Results that the code itself reports (a status, a boolean, -1) are ordinary
  values.  C++ \<open>int\<close>s that are used as sentinels or indices are \<open>int\<close>, with the range check
  written out where the code can overflow; values whose bit pattern matters are words.

  The theory holds arrays with checked accesses (\<open>at\<close>, \<open>upd\<close>, and \<open>get2\<close>, \<open>set2\<close> for arrays
  of arrays), the representable range of \<open>int\<close>, the results of loops that may not end, and
  facts about the multiset of the values stored in an array of arrays.
\<close>

type_synonym u32 = "32 word"
type_synonym u64 = "64 word"

named_theorems exec_simps \<open>unfoldings that run a checked operation whose access is in range\<close>
named_theorems frame_simps \<open>fields and sizes that an operation leaves unchanged\<close>

subsection \<open>Arrays with checked accesses\<close>

definition at :: "'a list \<Rightarrow> int \<Rightarrow> 'a option" where
  "at xs i = (if 0 \<le> i \<and> i < int (length xs) then Some (xs ! nat i) else None)"

definition upd :: "'a list \<Rightarrow> int \<Rightarrow> 'a \<Rightarrow> 'a list option" where
  "upd xs i v = (if 0 \<le> i \<and> i < int (length xs) then Some (xs[nat i := v]) else None)"

definition get2 :: "'a list list \<Rightarrow> int \<Rightarrow> int \<Rightarrow> 'a option" where
  "get2 tbl i j = do { b \<leftarrow> at tbl i; at b j }"

definition set2 :: "'a list list \<Rightarrow> int \<Rightarrow> int \<Rightarrow> 'a \<Rightarrow> 'a list list option" where
  "set2 tbl i j v = do { b \<leftarrow> at tbl i; b' \<leftarrow> upd b j v; upd tbl i b' }"

abbreviation in_range :: "int \<Rightarrow> nat \<Rightarrow> bool" where
  "in_range i n \<equiv> 0 \<le> i \<and> i < int n"

definition rect :: "nat \<Rightarrow> nat \<Rightarrow> 'a list list \<Rightarrow> bool" where
  "rect n w tbl \<longleftrightarrow> length tbl = n \<and> (\<forall>b\<in>set tbl. length b = w)"

lemma at_in [exec_simps]: "in_range i (length xs) \<Longrightarrow> at xs i = Some (xs ! nat i)"
  by (simp add: at_def)

lemma at_Some_iff: "at xs i = Some x \<longleftrightarrow> in_range i (length xs) \<and> xs ! nat i = x"
  by (auto simp: at_def)

lemma upd_in [exec_simps]: "in_range i (length xs) \<Longrightarrow> upd xs i v = Some (xs[nat i := v])"
  by (simp add: upd_def)

lemma upd_Some_iff: "upd xs i v = Some ys \<longleftrightarrow> in_range i (length xs) \<and> ys = xs[nat i := v]"
  by (auto simp: upd_def)

lemma rect_length: "rect n w tbl \<Longrightarrow> length tbl = n"
  by (simp add: rect_def)

lemma rect_row: "rect n w tbl \<Longrightarrow> i < n \<Longrightarrow> length (tbl ! i) = w"
  by (auto simp: rect_def)

lemma rect_replicate [simp]: "rect n w (replicate n (replicate w x))"
  by (simp add: rect_def)

lemma get2_in:
  "rect n w tbl \<Longrightarrow> in_range i n \<Longrightarrow> in_range j w \<Longrightarrow>
   get2 tbl i j = Some (tbl ! nat i ! nat j)"
  by (simp add: get2_def at_def rect_row rect_length nat_less_iff)

definition put2 :: "'a list list \<Rightarrow> nat \<Rightarrow> nat \<Rightarrow> 'a \<Rightarrow> 'a list list" where
  "put2 tbl i j v = tbl[i := (tbl ! i)[j := v]]"

lemma set2_in:
  "rect n w tbl \<Longrightarrow> in_range i n \<Longrightarrow> in_range j w \<Longrightarrow>
   set2 tbl i j v = Some (put2 tbl (nat i) (nat j) v)"
  by (simp add: set2_def at_def upd_def rect_row rect_length nat_less_iff put2_def)

lemma rect_put2 [intro, simp]:
  assumes "rect n w tbl"
  shows "rect n w (put2 tbl i j v)"
proof (cases "i < length tbl")
  case True
  with assms have "length ((tbl ! i)[j := v]) = w" by (simp add: rect_def)
  with assms show ?thesis
    by (auto simp: rect_def put2_def dest!: set_update_subset_insert [THEN subsetD])
next
  case False
  with assms show ?thesis by (simp add: put2_def list_update_beyond)
qed

lemma nth_put2:
  "rect n w tbl \<Longrightarrow> i < n \<Longrightarrow> j < w \<Longrightarrow> i' < n \<Longrightarrow> j' < w \<Longrightarrow>
   put2 tbl i j v ! i' ! j' = (if i' = i \<and> j' = j then v else tbl ! i' ! j')"
  by (auto simp: put2_def nth_list_update rect_row rect_length)

subsection \<open>The values stored in an array of arrays\<close>

definition stored :: "u32 list list \<Rightarrow> u32 multiset" where
  "stored tbl = filter_mset (\<lambda>v. v \<noteq> 0) (mset (concat tbl))"

lemma mset_concat_update:
  "i < length tbl \<Longrightarrow> mset (concat (tbl[i := b])) + mset (tbl ! i) = mset (concat tbl) + mset b"
proof (induction tbl arbitrary: i)
  case Nil
  then show ?case by simp
next
  case (Cons r tbl)
  then show ?case by (cases i) (auto simp: ac_simps)
qed

lemma mset_update_nth:
  "j < length b \<Longrightarrow> mset (b[j := v]) + {#b ! j#} = mset b + {#v#}"
  by (simp add: mset_update)

lemma stored_put2:
  assumes "rect n w tbl" "i < n" "j < w"
  shows "stored (put2 tbl i j v) + (if tbl ! i ! j = 0 then {#} else {#tbl ! i ! j#}) =
         stored tbl + (if v = 0 then {#} else {#v#})"
proof -
  let ?b = "(tbl ! i)[j := v]"
  have "mset (concat (put2 tbl i j v)) + mset (tbl ! i) = mset (concat tbl) + mset ?b"
    using mset_concat_update [of i tbl ?b] assms by (simp add: put2_def rect_length)
  then have "mset (concat (put2 tbl i j v)) + mset (tbl ! i) + {#tbl ! i ! j#} =
             mset (concat tbl) + (mset (tbl ! i) + {#v#})"
    using mset_update_nth [of j "tbl ! i" v] assms by (simp add: rect_row ac_simps)
  then have "mset (concat (put2 tbl i j v)) + {#tbl ! i ! j#} = mset (concat tbl) + {#v#}"
    by (simp add: ac_simps)
  then have "filter_mset (\<lambda>v. v \<noteq> 0) (mset (concat (put2 tbl i j v)) + {#tbl ! i ! j#}) =
             filter_mset (\<lambda>v. v \<noteq> 0) (mset (concat tbl) + {#v#})"
    by simp
  then show ?thesis by (simp add: stored_def split: if_splits)
qed

lemma stored_fill:
  "rect n w tbl \<Longrightarrow> i < n \<Longrightarrow> j < w \<Longrightarrow> tbl ! i ! j = 0 \<Longrightarrow> v \<noteq> 0 \<Longrightarrow>
   stored (put2 tbl i j v) = add_mset v (stored tbl)"
  using stored_put2 [of n w tbl i j v] by simp

lemma stored_clear:
  "rect n w tbl \<Longrightarrow> i < n \<Longrightarrow> j < w \<Longrightarrow> tbl ! i ! j \<noteq> 0 \<Longrightarrow>
   stored tbl = add_mset (tbl ! i ! j) (stored (put2 tbl i j 0))"
  using stored_put2 [of n w tbl i j 0] by simp

lemma in_stored:
  "rect n w tbl \<Longrightarrow> v \<in># stored tbl \<longleftrightarrow> v \<noteq> 0 \<and> (\<exists>i<n. \<exists>j<w. tbl ! i ! j = v)"
  by (auto simp: stored_def rect_def in_set_conv_nth) (metis nth_mem)+

lemma stored_new [simp]: "stored (replicate n (replicate w 0)) = {#}"
  by (simp add: stored_def filter_mset_eq_mempty_iff)

lemma set_mset_remove_one:
  assumes "count M v \<le> 1"
  shows "set_mset (M - {#v#}) = set_mset M - {v}"
proof -
  have "v \<notin># M - {#v#}" using assms by (simp add: not_in_iff)
  moreover have "x \<in># M - {#v#} \<longleftrightarrow> x \<in># M" if "x \<noteq> v" for x
    using that by (simp add: in_diff_count)
  ultimately show ?thesis by (auto dest: in_diffD)
qed

subsection \<open>Machine integers and loops\<close>

definition int_max :: int where "int_max = 2147483647"

definition fits_int :: "int \<Rightarrow> bool" where
  "fits_int i \<longleftrightarrow> - int_max - 1 \<le> i \<and> i \<le> int_max"

definition as_int :: "int \<Rightarrow> int option" where
  "as_int i = (if fits_int i then Some i else None)"

lemma as_int_in [exec_simps]: "0 \<le> i \<Longrightarrow> i \<le> int_max \<Longrightarrow> as_int i = Some i"
  by (simp add: as_int_def fits_int_def int_max_def)

lemma sint_small: "uint (w :: u32) < 2 ^ 31 \<Longrightarrow> sint w = uint w"
  unfolding sint_uint by (rule signed_take_bit_int_eq_self) (simp_all add: order_trans [OF _ uint_ge_0])

text \<open>A loop that may not end runs with fuel; its outcome tells a fault from running out.\<close>

datatype 'a outcome = Done 'a | Fault | No_fuel

lemma Option_bind_eq_Some [simp]:
  "(Option.bind m f = Some y) \<longleftrightarrow> (\<exists>x. m = Some x \<and> f x = Some y)"
  by (simp add: Option.bind_eq_Some_conv)

end
