(* ===== verification/Spinlocks.thy ===== *)
theory Spinlocks
  imports Prelude
begin

text \<open>
  The per-bucket spin locks of the cuckoo tables (\<open>locks\<close>, \<open>WRITE_LOCK\<close>, \<open>UNLOCK\<close>,
  \<open>lock_two\<close>, \<open>lock_three\<close>, \<open>unlock_one\<close>, \<open>unlock_two\<close>, \<open>unlock_three\<close> of CuckooHash/Cuckoo.hpp).
  The lock array is a list of booleans, \<open>True\<close> while the lock is held.  Locking a lock that is
  already held is \<open>None\<close> in this sequential reading (the thread would spin on its own lock),
  and so is unlocking a free lock or an index out of range.

  The first part shows that each of the case distinctions of the code acquires exactly the set
  of its arguments, in ascending order, and that the unlock functions release that set.
\<close>

subsection \<open>One lock\<close>

definition WRITE_LOCK :: "bool list \<Rightarrow> int \<Rightarrow> bool list option" where
  "WRITE_LOCK ls i = do { b \<leftarrow> at ls i; if b then None else upd ls i True }"

definition UNLOCK :: "bool list \<Rightarrow> int \<Rightarrow> bool list option" where
  "UNLOCK ls i = do { b \<leftarrow> at ls i; if b then upd ls i False else None }"

subsection \<open>Two and three locks, as the case distinctions of the code\<close>

definition lock_two :: "bool list \<Rightarrow> int \<Rightarrow> int \<Rightarrow> bool list option" where
  "lock_two ls idx1 idx2 =
     (if idx1 < idx2 then do { ls \<leftarrow> WRITE_LOCK ls idx1; WRITE_LOCK ls idx2 }
      else if idx1 > idx2 then do { ls \<leftarrow> WRITE_LOCK ls idx2; WRITE_LOCK ls idx1 }
      else WRITE_LOCK ls idx1)"

definition unlock_one :: "bool list \<Rightarrow> int \<Rightarrow> bool list option" where
  "unlock_one ls idx = UNLOCK ls idx"

definition unlock_two :: "bool list \<Rightarrow> int \<Rightarrow> int \<Rightarrow> bool list option" where
  "unlock_two ls idx1 idx2 =
     (if idx1 \<noteq> idx2 then do { ls \<leftarrow> UNLOCK ls idx1; UNLOCK ls idx2 }
      else UNLOCK ls idx1)"

definition unlock_three :: "bool list \<Rightarrow> int \<Rightarrow> int \<Rightarrow> int \<Rightarrow> bool list option" where
  "unlock_three ls idx1 idx2 idx3 =
     (if idx1 \<noteq> idx2 \<and> idx2 \<noteq> idx3 \<and> idx1 \<noteq> idx3 then
        do { ls \<leftarrow> UNLOCK ls idx1; ls \<leftarrow> UNLOCK ls idx2; UNLOCK ls idx3 }
      else if idx1 = idx2 \<and> idx2 = idx3 then UNLOCK ls idx1
      else if idx1 = idx2 then do { ls \<leftarrow> UNLOCK ls idx1; UNLOCK ls idx3 }
      else do { ls \<leftarrow> UNLOCK ls idx1; UNLOCK ls idx2 })"

definition lock_three :: "bool list \<Rightarrow> int \<Rightarrow> int \<Rightarrow> int \<Rightarrow> bool list option" where
  "lock_three ls idx1 idx2 idx3 =
     (if idx1 = idx2 \<and> idx2 = idx3 then WRITE_LOCK ls idx1
      else if idx1 = idx2 then lock_two ls idx1 idx3
      else if idx2 = idx3 then lock_two ls idx1 idx2
      else if idx1 = idx3 then lock_two ls idx1 idx2
      else if idx1 < idx2 then
        (if idx1 < idx3 then
           do { ls \<leftarrow> WRITE_LOCK ls idx1;
                if idx2 < idx3 then do { ls \<leftarrow> WRITE_LOCK ls idx2; WRITE_LOCK ls idx3 }
                else do { ls \<leftarrow> WRITE_LOCK ls idx3; WRITE_LOCK ls idx2 } }
         else do { ls \<leftarrow> WRITE_LOCK ls idx3; ls \<leftarrow> WRITE_LOCK ls idx1; WRITE_LOCK ls idx2 })
      else
        (if idx2 < idx3 then
           do { ls \<leftarrow> WRITE_LOCK ls idx2;
                if idx1 < idx3 then do { ls \<leftarrow> WRITE_LOCK ls idx1; WRITE_LOCK ls idx3 }
                else do { ls \<leftarrow> WRITE_LOCK ls idx3; WRITE_LOCK ls idx1 } }
         else do { ls \<leftarrow> WRITE_LOCK ls idx3; ls \<leftarrow> WRITE_LOCK ls idx2; WRITE_LOCK ls idx1 }))"

subsection \<open>Acquiring a set of locks in ascending order\<close>

fun acquire_all :: "bool list \<Rightarrow> int list \<Rightarrow> bool list option" where
  "acquire_all ls [] = Some ls"
| "acquire_all ls (i # is) = do { ls \<leftarrow> WRITE_LOCK ls i; acquire_all ls is }"

fun release_all :: "bool list \<Rightarrow> int list \<Rightarrow> bool list option" where
  "release_all ls [] = Some ls"
| "release_all ls (i # is) = do { ls \<leftarrow> UNLOCK ls i; release_all ls is }"

definition ascending :: "int list \<Rightarrow> bool" where
  "ascending = sorted_wrt (<)"

definition lock_two_order :: "int \<Rightarrow> int \<Rightarrow> int list" where
  "lock_two_order i j = (if i < j then [i, j] else if i > j then [j, i] else [i])"

definition lock_three_order :: "int \<Rightarrow> int \<Rightarrow> int \<Rightarrow> int list" where
  "lock_three_order i j k = sorted_list_of_set {i, j, k}"

lemma lock_two_order_sorted: "lock_two_order i j = sorted_list_of_set {i, j}"
  by (auto simp: lock_two_order_def sorted_list_of_set_insert_remove insert_Diff_if)

lemma lock_two_acquires: "lock_two ls i j = acquire_all ls (lock_two_order i j)"
  by (simp add: lock_two_def lock_two_order_def)

lemma lock_three_acquires: "lock_three ls i j k = acquire_all ls (lock_three_order i j k)"
  by (auto simp: lock_three_def lock_two_def lock_three_order_def
        sorted_list_of_set_insert_remove insert_Diff_if)

lemma ascending_sorted_list_of_set: "finite A \<Longrightarrow> ascending (sorted_list_of_set A)"
  by (simp add: ascending_def)

lemma set_lock_orders [simp]:
  "set (lock_two_order i j) = {i, j}" "set (lock_three_order i j k) = {i, j, k}"
  unfolding lock_two_order_sorted lock_three_order_def by (rule set_sorted_list_of_set; simp)+

lemma ascending_lock_orders [simp]:
  "ascending (lock_two_order i j)" "ascending (lock_three_order i j k)"
  unfolding lock_two_order_sorted lock_three_order_def
  by (rule ascending_sorted_list_of_set; simp)+

lemma ascending_distinct: "ascending is \<Longrightarrow> distinct is"
  unfolding ascending_def strict_sorted_iff by simp

lemma unlock_two_releases: "\<exists>is. distinct is \<and> set is = {i, j} \<and> unlock_two ls i j = release_all ls is"
  by (rule exI [of _ "if i \<noteq> j then [i, j] else [i]"]) (auto simp: unlock_two_def)

lemma unlock_three_releases:
  "\<exists>is. distinct is \<and> set is = {i, j, k} \<and> unlock_three ls i j k = release_all ls is"
  by (rule exI [of _ "if i \<noteq> j \<and> j \<noteq> k \<and> i \<noteq> k then [i, j, k] else if i = j \<and> j = k then [i]
        else if i = j then [i, k] else [i, j]"]) (auto simp: unlock_three_def)

subsection \<open>Held locks as a set\<close>

definition held_set :: "bool list \<Rightarrow> int set" where
  "held_set ls = {i. in_range i (length ls) \<and> ls ! nat i}"

definition lock_image :: "nat \<Rightarrow> int set \<Rightarrow> bool list" where
  "lock_image n A = map (\<lambda>i. int i \<in> A) [0..<n]"

lemma length_lock_image [simp]: "length (lock_image n A) = n"
  by (simp add: lock_image_def)

lemma nth_lock_image: "in_range i n \<Longrightarrow> lock_image n A ! nat i \<longleftrightarrow> i \<in> A"
  by (simp add: lock_image_def nat_less_iff)

lemma lock_image_held: "lock_image (length ls) (held_set ls) = ls"
  by (rule nth_equalityI) (auto simp: lock_image_def held_set_def)

lemma lock_image_empty: "lock_image n {} = replicate n False"
  by (rule nth_equalityI) (auto simp: lock_image_def)

lemma lock_image_update:
  "in_range i n \<Longrightarrow> (lock_image n A)[nat i := b] = lock_image n (if b then insert i A else A - {i})"
  by (rule nth_equalityI) (auto simp: lock_image_def nth_list_update split: if_splits)

lemma WRITE_LOCK_image:
  "in_range i n \<Longrightarrow> i \<notin> A \<Longrightarrow> WRITE_LOCK (lock_image n A) i = Some (lock_image n (insert i A))"
  by (simp add: WRITE_LOCK_def exec_simps nth_lock_image lock_image_update)

lemma UNLOCK_image:
  "in_range i n \<Longrightarrow> i \<in> A \<Longrightarrow> UNLOCK (lock_image n A) i = Some (lock_image n (A - {i}))"
  by (simp add: UNLOCK_def exec_simps nth_lock_image lock_image_update)

lemma acquire_all_image:
  "distinct is \<Longrightarrow> set is \<subseteq> {0..<int n} \<Longrightarrow> set is \<inter> A = {} \<Longrightarrow>
   acquire_all (lock_image n A) is = Some (lock_image n (A \<union> set is))"
proof (induction "is" arbitrary: A)
  case Nil
  then show ?case by simp
next
  case (Cons i "is")
  then have "acquire_all (lock_image n (insert i A)) is = Some (lock_image n (insert i A \<union> set is))"
    by (intro Cons.IH) auto
  with Cons.prems show ?case by (simp add: WRITE_LOCK_image)
qed

lemma release_all_image:
  "distinct is \<Longrightarrow> set is \<subseteq> {0..<int n} \<Longrightarrow> set is \<subseteq> A \<Longrightarrow>
   release_all (lock_image n A) is = Some (lock_image n (A - set is))"
proof (induction "is" arbitrary: A)
  case Nil
  then show ?case by simp
next
  case (Cons i "is")
  then have "release_all (lock_image n (A - {i})) is = Some (lock_image n (A - {i} - set is))"
    by (intro Cons.IH) auto
  with Cons.prems show ?case by (simp add: UNLOCK_image Diff_insert2 set_diff_eq)
qed

lemma lock_two_image [exec_simps]:
  "in_range i n \<Longrightarrow> in_range j n \<Longrightarrow> A \<inter> {i, j} = {} \<Longrightarrow>
   lock_two (lock_image n A) i j = Some (lock_image n (A \<union> {i, j}))"
  unfolding lock_two_acquires
  by (subst acquire_all_image) (auto intro: ascending_distinct)

lemma lock_three_image [exec_simps]:
  "in_range i n \<Longrightarrow> in_range j n \<Longrightarrow> in_range k n \<Longrightarrow> A \<inter> {i, j, k} = {} \<Longrightarrow>
   lock_three (lock_image n A) i j k = Some (lock_image n (A \<union> {i, j, k}))"
  unfolding lock_three_acquires
  by (subst acquire_all_image) (auto intro: ascending_distinct)

lemma unlock_two_image [exec_simps]:
  assumes "in_range i n" "in_range j n" "{i, j} \<subseteq> A"
  shows "unlock_two (lock_image n A) i j = Some (lock_image n (A - {i, j}))"
proof -
  obtain "is" where "distinct is" "set is = {i, j}"
    and "unlock_two (lock_image n A) i j = release_all (lock_image n A) is"
    using unlock_two_releases by blast
  with assms show ?thesis by (simp add: release_all_image)
qed

lemma unlock_three_image [exec_simps]:
  assumes "in_range i n" "in_range j n" "in_range k n" "{i, j, k} \<subseteq> A"
  shows "unlock_three (lock_image n A) i j k = Some (lock_image n (A - {i, j, k}))"
proof -
  obtain "is" where "distinct is" "set is = {i, j, k}"
    and "unlock_three (lock_image n A) i j k = release_all (lock_image n A) is"
    using unlock_three_releases by blast
  with assms show ?thesis by (simp add: release_all_image)
qed

lemma unlock_one_image [exec_simps]:
  "in_range i n \<Longrightarrow> i \<in> A \<Longrightarrow> unlock_one (lock_image n A) i = Some (lock_image n (A - {i}))"
  by (simp add: unlock_one_def UNLOCK_image)

end
