(* ===== verification/CuckooTable.thy ===== *)
theory CuckooTable
  imports Spinlocks
begin

unbundle bit_operations_syntax

text \<open>
  The data of CuckooHash/Cuckoo.hpp: the random number generator \<open>xorshf96\<close>, the class
  \<open>Table\<close> (an array of buckets of \<open>WIDTH\<close> slots, \<open>EMPTY\<close> in a free slot), the class
  \<open>Cuckoo\<close> with its two tables, its spin locks and its reader/writer lock, the hash functions,
  and \<open>contains\<close>, \<open>remove\<close> and \<open>size\<close>.  Elements are the bit patterns of the code's \<open>int\<close>
  elements, as the hash functions read them (\<open>val % buckets\<close> is unsigned arithmetic).

  Lemmas: the loops of the table find the first matching slot; the invariant \<open>table_wf\<close> (every
  element sits in the bucket its hash names) makes \<open>find\<close> a membership test on the multiset
  \<open>contents\<close>; \<open>contains\<close> and \<open>remove\<close> refine the operations of that multiset.
\<close>

subsection \<open>Constants and the random number generator\<close>

definition WIDTH :: nat where "WIDTH = 6"
definition MAX_SEARCH_DEPTH :: int where "MAX_SEARCH_DEPTH = 7"
definition EMPTY :: u32 where "EMPTY = 0"

type_synonym rng = "u64 \<times> u64 \<times> u64"

definition xorshf96_seed :: rng where
  "xorshf96_seed = (123456789, 362436069, 521288629)"

definition xorshf96 :: "rng \<Rightarrow> u64 \<times> rng" where
  "xorshf96 s =
     (case s of (x, y, z) \<Rightarrow>
        let x = x XOR push_bit 16 x;
            x = x XOR drop_bit 5 x;
            x = x XOR push_bit 1 x;
            t = x;
            x = y;
            y = z;
            z = t XOR x XOR y
        in (z, (x, y, z)))"

subsection \<open>Table\<close>

type_synonym elements = "u32 list list"

definition occupied :: "u32 \<Rightarrow> bool" where
  "occupied val \<longleftrightarrow> val \<noteq> EMPTY"

definition Table_new :: "nat \<Rightarrow> elements" where
  "Table_new n = replicate n (replicate WIDTH EMPTY)"

fun find_loop :: "u32 list \<Rightarrow> u32 \<Rightarrow> bool" where
  "find_loop [] val = False"
| "find_loop (x # xs) val = (if x = val then True else find_loop xs val)"

definition Table_find :: "elements \<Rightarrow> u32 \<Rightarrow> int \<Rightarrow> bool option" where
  "Table_find t val idx = do { bucket \<leftarrow> at t idx; Some (find_loop bucket val) }"

fun slot_loop :: "(u32 \<Rightarrow> bool) \<Rightarrow> int \<Rightarrow> u32 list \<Rightarrow> int" where
  "slot_loop p i [] = -1"
| "slot_loop p i (x # xs) = (if p x then i else slot_loop p (i + 1) xs)"

definition Table_findSlot :: "elements \<Rightarrow> u32 \<Rightarrow> int \<Rightarrow> int option" where
  "Table_findSlot t val idx = do { bucket \<leftarrow> at t idx; Some (slot_loop (\<lambda>x. x = val) 0 bucket) }"

definition Table_isAvailable :: "elements \<Rightarrow> int \<Rightarrow> int option" where
  "Table_isAvailable t idx =
     do { bucket \<leftarrow> at t idx; Some (slot_loop (\<lambda>x. \<not> occupied x) 0 bucket) }"

definition Table_getElement :: "elements \<Rightarrow> int \<Rightarrow> int \<Rightarrow> u32 option" where
  "Table_getElement t idx slot = get2 t idx slot"

definition Table_isOccupied :: "elements \<Rightarrow> int \<Rightarrow> int \<Rightarrow> bool option" where
  "Table_isOccupied t idx slot = do { v \<leftarrow> get2 t idx slot; Some (occupied v) }"

definition Table_isAvailable_slot :: "elements \<Rightarrow> int \<Rightarrow> int \<Rightarrow> bool option" where
  "Table_isAvailable_slot t idx slot = do { v \<leftarrow> get2 t idx slot; Some (\<not> occupied v) }"

lemmas Table_defs = Table_find_def Table_findSlot_def Table_isAvailable_def Table_getElement_def
  Table_isOccupied_def Table_isAvailable_slot_def

lemma find_loop_set: "find_loop xs val \<longleftrightarrow> val \<in> set xs"
  by (induction xs) auto

lemma slot_loop_bounds: "slot_loop p i xs = -1 \<or> i \<le> slot_loop p i xs \<and> slot_loop p i xs < i + int (length xs)"
  by (induction p i xs rule: slot_loop.induct) auto

lemma slot_loop_none: "0 \<le> i \<Longrightarrow> slot_loop p i xs = -1 \<longleftrightarrow> (\<forall>x\<in>set xs. \<not> p x)"
  by (induction p i xs rule: slot_loop.induct) auto

lemma slot_loop_found:
  "slot_loop p i xs = j \<Longrightarrow> j \<noteq> -1 \<Longrightarrow> 0 \<le> i \<Longrightarrow> p (xs ! nat (j - i))"
proof (induction p i xs rule: slot_loop.induct)
  case (2 p i x xs)
  show ?case
  proof (cases "p x")
    case False
    with 2 have j: "slot_loop p (i + 1) xs = j" by simp
    with 2 False have "p (xs ! nat (j - (i + 1)))" by simp
    moreover have "i + 1 \<le> j" using slot_loop_bounds [of p "i + 1" xs] j 2(3) by auto
    then have "nat (j - i) = Suc (nat (j - (i + 1)))" by simp
    ultimately show ?thesis by simp
  qed (use 2 in auto)
qed simp

lemma slot_loop_first:
  "slot_loop p 0 xs = j \<Longrightarrow> j \<noteq> -1 \<Longrightarrow> in_range j (length xs) \<and> p (xs ! nat j)"
  using slot_loop_found [of p 0 xs j] slot_loop_bounds [of p 0 xs] by auto

subsection \<open>Cuckoo: the state\<close>

record cuckoo =
  buckets :: u32
  table1 :: elements
  table2 :: elements
  locks :: "bool list"
  readers :: nat
  writer :: bool
  rng_state :: rng

definition Cuckoo_new :: "u32 \<Rightarrow> rng \<Rightarrow> cuckoo" where
  "Cuckoo_new n r =
     \<lparr>buckets = n, table1 = Table_new (unat n), table2 = Table_new (unat n),
      locks = replicate (unat n) False, readers = 0, writer = False, rng_state = r\<rparr>"

definition rdlock :: "cuckoo \<Rightarrow> cuckoo option" where
  "rdlock c = (if writer c then None else Some (c\<lparr>readers := Suc (readers c)\<rparr>))"

definition wrlock :: "cuckoo \<Rightarrow> cuckoo option" where
  "wrlock c = (if writer c \<or> readers c \<noteq> 0 then None else Some (c\<lparr>writer := True\<rparr>))"

definition rwunlock :: "cuckoo \<Rightarrow> cuckoo option" where
  "rwunlock c =
     (if writer c then Some (c\<lparr>writer := False\<rparr>)
      else if readers c \<noteq> 0 then Some (c\<lparr>readers := readers c - 1\<rparr>) else None)"

text \<open>The switch of \<open>hash\<close> has no default case: any other function number is undefined, as is
  the modulus by zero buckets.\<close>

definition hash :: "cuckoo \<Rightarrow> u32 \<Rightarrow> int \<Rightarrow> int option" where
  "hash c val function =
     (if buckets c = 0 then None
      else if function = 1 then Some (sint (val mod buckets c))
      else if function = 2 then Some (sint ((val div buckets c) mod buckets c))
      else None)"

definition table_of :: "cuckoo \<Rightarrow> int \<Rightarrow> elements" where
  "table_of c t = (if t = 1 then table1 c else table2 c)"

definition with_table :: "cuckoo \<Rightarrow> int \<Rightarrow> elements \<Rightarrow> cuckoo" where
  "with_table c t e = (if t = 1 then c\<lparr>table1 := e\<rparr> else c\<lparr>table2 := e\<rparr>)"

definition put_element :: "cuckoo \<Rightarrow> int \<Rightarrow> int \<Rightarrow> int \<Rightarrow> u32 \<Rightarrow> cuckoo option" where
  "put_element c t idx slot val =
     do { e \<leftarrow> set2 (table_of c t) idx slot val; Some (with_table c t e) }"

definition with_locks :: "cuckoo \<Rightarrow> (bool list \<Rightarrow> bool list option) \<Rightarrow> cuckoo option" where
  "with_locks c f = do { ls \<leftarrow> f (locks c); Some (c\<lparr>locks := ls\<rparr>) }"

subsection \<open>Cuckoo: contains, remove, size\<close>

definition Cuckoo_contains :: "cuckoo \<Rightarrow> u32 \<Rightarrow> (bool \<times> cuckoo) option" where
  "Cuckoo_contains c val =
     do { c \<leftarrow> rdlock c;
          idx1 \<leftarrow> hash c val 1;
          idx2 \<leftarrow> hash c val 2;
          c \<leftarrow> with_locks c (\<lambda>ls. lock_two ls idx1 idx2);
          r1 \<leftarrow> Table_find (table1 c) val idx1;
          retval \<leftarrow> (if r1 then Some True else Table_find (table2 c) val idx2);
          c \<leftarrow> with_locks c (\<lambda>ls. unlock_two ls idx1 idx2);
          c \<leftarrow> rwunlock c;
          Some (retval, c) }"

definition Cuckoo_remove :: "cuckoo \<Rightarrow> u32 \<Rightarrow> (bool \<times> cuckoo) option" where
  "Cuckoo_remove c val =
     do { c \<leftarrow> rdlock c;
          idx1 \<leftarrow> hash c val 1;
          idx2 \<leftarrow> hash c val 2;
          c \<leftarrow> with_locks c (\<lambda>ls. lock_two ls idx1 idx2);
          slot1 \<leftarrow> Table_findSlot (table1 c) val idx1;
          (slot, c) \<leftarrow>
            (if slot1 \<noteq> -1 then do { c \<leftarrow> put_element c 1 idx1 slot1 EMPTY; Some (slot1, c) }
             else do { slot2 \<leftarrow> Table_findSlot (table2 c) val idx2;
                       if slot2 \<noteq> -1 then do { c \<leftarrow> put_element c 2 idx2 slot2 EMPTY; Some (slot2, c) }
                       else Some (slot2, c) });
          c \<leftarrow> with_locks c (\<lambda>ls. unlock_two ls idx1 idx2);
          c \<leftarrow> rwunlock c;
          Some (slot \<noteq> -1, c) }"

fun size_row :: "u32 list \<Rightarrow> u32 list \<Rightarrow> int \<Rightarrow> int" where
  "size_row (a # as) (b # bs) n =
     size_row as bs (n + (if occupied a then 1 else 0) + (if occupied b then 1 else 0))"
| "size_row _ _ n = n"

fun size_rows :: "elements \<Rightarrow> elements \<Rightarrow> int \<Rightarrow> int" where
  "size_rows (a # as) (b # bs) n = size_rows as bs (size_row a b n)"
| "size_rows _ _ n = n"

definition Cuckoo_size :: "cuckoo \<Rightarrow> int" where
  "Cuckoo_size c = size_rows (table1 c) (table2 c) 0"

subsection \<open>The invariant\<close>

definition capacity :: "cuckoo \<Rightarrow> nat" where
  "capacity c = unat (buckets c)"

definition home :: "cuckoo \<Rightarrow> int \<Rightarrow> u32 \<Rightarrow> int" where
  "home c t v = (if t = 1 then uint (v mod buckets c) else uint (v div buckets c mod buckets c))"

definition cell :: "cuckoo \<Rightarrow> int \<Rightarrow> int \<Rightarrow> int \<Rightarrow> u32" where
  "cell c t i j = table_of c t ! nat i ! nat j"

definition placed_w :: "nat \<Rightarrow> cuckoo \<Rightarrow> bool" where
  "placed_w w c \<longleftrightarrow> (\<forall>t\<in>{1, 2}. \<forall>i j. in_range i (capacity c) \<longrightarrow> in_range j w \<longrightarrow>
     cell c t i j \<noteq> EMPTY \<longrightarrow> home c t (cell c t i j) = i)"

definition shaped_w :: "nat \<Rightarrow> cuckoo \<Rightarrow> bool" where
  "shaped_w w c \<longleftrightarrow> 0 < capacity c \<and> capacity c < 2 ^ 31
     \<and> rect (capacity c) w (table1 c) \<and> rect (capacity c) w (table2 c)"

definition table_wf_w :: "nat \<Rightarrow> cuckoo \<Rightarrow> bool" where
  "table_wf_w w c \<longleftrightarrow> shaped_w w c \<and> placed_w w c"

abbreviation placed :: "cuckoo \<Rightarrow> bool" where "placed \<equiv> placed_w WIDTH"
abbreviation shaped :: "cuckoo \<Rightarrow> bool" where "shaped \<equiv> shaped_w WIDTH"
abbreviation table_wf :: "cuckoo \<Rightarrow> bool" where "table_wf \<equiv> table_wf_w WIDTH"

text \<open>The facts that do not depend on the number of slots are proved once, for buckets of \<open>w\<close> slots;
  the locking table has 6, the transactional one 50.\<close>

locale two_tables =
  fixes w :: nat
  assumes width_pos: "0 < w"

lemma WIDTH_pos [simp]: "0 < WIDTH"
  by (simp add: WIDTH_def)

interpretation cuckoo_tables: two_tables WIDTH
  by unfold_locales (rule WIDTH_pos)

definition holds_locks :: "cuckoo \<Rightarrow> int set \<Rightarrow> bool" where
  "holds_locks c A \<longleftrightarrow> locks c = lock_image (capacity c) A"

definition unlocked :: "cuckoo \<Rightarrow> bool" where
  "unlocked c \<longleftrightarrow> holds_locks c {} \<and> \<not> writer c"

definition contents :: "cuckoo \<Rightarrow> u32 multiset" where
  "contents c = stored (table1 c) + stored (table2 c)"

lemma with_table_frame [simp, frame_simps]:
  "buckets (with_table c t e) = buckets c" "locks (with_table c t e) = locks c"
  "readers (with_table c t e) = readers c" "writer (with_table c t e) = writer c"
  "rng_state (with_table c t e) = rng_state c" "capacity (with_table c t e) = capacity c"
  by (simp_all add: with_table_def capacity_def)

lemma table_of_with_table [simp]:
  "t \<in> {1, 2} \<Longrightarrow> t' \<in> {1, 2} \<Longrightarrow> table_of (with_table c t e) t' = (if t' = t then e else table_of c t')"
  by (auto simp: table_of_def with_table_def)

lemma home_cong: "buckets c' = buckets c \<Longrightarrow> home c' = home c"
  by (simp add: home_def fun_eq_iff)

context two_tables
begin

lemma shaped_table: "shaped_w w c \<Longrightarrow> rect (capacity c) w (table_of c t)"
  by (simp add: shaped_w_def table_of_def)

lemma shaped_buckets: "shaped_w w c \<Longrightarrow> buckets c \<noteq> 0"
  by (auto simp: shaped_w_def capacity_def)

lemma uint_mod_lt: "shaped_w w c \<Longrightarrow> uint (v mod buckets c) < int (capacity c)"
  unfolding shaped_w_def capacity_def by (simp only: uint_nat unat_mod_distrib of_nat_less_iff mod_less_divisor)

lemma home_range [simp]:
  assumes "shaped_w w c"
  shows "0 \<le> home c t v" "home c t v < int (capacity c)"
  using uint_mod_lt [OF assms] by (auto simp only: home_def uint_ge_0 split: if_split)

lemma sint_mod: "shaped_w w c \<Longrightarrow> sint (x mod buckets c) = uint (x mod buckets c)"
  using uint_mod_lt [of c x] by (intro sint_small) (simp add: shaped_w_def)

lemma hash_home [exec_simps]: "shaped_w w c \<Longrightarrow> t \<in> {1, 2} \<Longrightarrow> hash c v t = Some (home c t v)"
  unfolding hash_def home_def by (auto simp only: shaped_buckets sint_mod if_True if_False simp_thms) simp_all

end

lemma WIDTH_val: "WIDTH = 6" "int WIDTH = 6"
  by (simp_all add: WIDTH_def)

subsection \<open>Reading and writing cells\<close>

context two_tables
begin

lemma at_table [exec_simps]:
  "shaped_w w c \<Longrightarrow> in_range i (capacity c) \<Longrightarrow> at (table_of c t) i = Some (table_of c t ! nat i)"
  by (simp add: at_def rect_length [OF shaped_table])

lemma get2_cell [exec_simps]:
  "shaped_w w c \<Longrightarrow> in_range i (capacity c) \<Longrightarrow> in_range j w \<Longrightarrow>
   get2 (table_of c t) i j = Some (cell c t i j)"
  unfolding cell_def by (rule get2_in [OF shaped_table]) auto

lemma row_length: "shaped_w w c \<Longrightarrow> in_range i (capacity c) \<Longrightarrow> length (table_of c t ! nat i) = w"
  by (rule rect_row [OF shaped_table]) (simp_all add: nat_less_iff)

end

definition put :: "cuckoo \<Rightarrow> int \<Rightarrow> int \<Rightarrow> int \<Rightarrow> u32 \<Rightarrow> cuckoo" where
  "put c t i j v = with_table c t (put2 (table_of c t) (nat i) (nat j) v)"

context two_tables
begin

lemma put_element_put [exec_simps]:
  "shaped_w w c \<Longrightarrow> in_range i (capacity c) \<Longrightarrow> in_range j w \<Longrightarrow>
   put_element c t i j v = Some (put c t i j v)"
  by (simp add: put_element_def put_def set2_in [OF shaped_table])

end

lemma put_frame [simp, frame_simps]:
  "buckets (put c t i j v) = buckets c" "locks (put c t i j v) = locks c"
  "readers (put c t i j v) = readers c" "writer (put c t i j v) = writer c"
  "rng_state (put c t i j v) = rng_state c" "capacity (put c t i j v) = capacity c"
  "home (put c t i j v) = home c"
  by (simp_all add: put_def home_cong [of "with_table c t e" c for e])

lemma shaped_put [simp, intro]: "shaped_w w c \<Longrightarrow> shaped_w w (put c t i j v)"
  by (auto simp: shaped_w_def put_def with_table_def table_of_def capacity_def)

context two_tables
begin

lemma cell_put:
  assumes "shaped_w w c" "t \<in> {1, 2}" "t' \<in> {1, 2}" "in_range i (capacity c)" "in_range j w"
    "in_range i' (capacity c)" "in_range j' w"
  shows "cell (put c t i j v) t' i' j' =
         (if t' = t \<and> i' = i \<and> j' = j then v else cell c t' i' j')"
  using assms nth_put2 [OF shaped_table [OF assms(1)], of "nat i" "nat j" "nat i'" "nat j'" t v]
  by (auto simp: cell_def put_def nat_less_iff)

lemma placed_put:
  assumes "shaped_w w c" "placed_w w c" "t \<in> {1, 2}" "in_range i (capacity c)" "in_range j w"
    and "v \<noteq> EMPTY \<Longrightarrow> home c t v = i"
  shows "placed_w w (put c t i j v)"
  unfolding placed_w_def
proof (intro ballI allI impI)
  fix t' i' j'
  assume "t' \<in> {1, 2 :: int}" "in_range i' (capacity (put c t i j v))" "in_range j' w"
    and "cell (put c t i j v) t' i' j' \<noteq> EMPTY"
  with assms show "home (put c t i j v) t' (cell (put c t i j v) t' i' j') = i'"
    by (auto simp: cell_put placed_w_def split: if_splits)
qed

lemma table_wf_put:
  "table_wf_w w c \<Longrightarrow> t \<in> {1, 2} \<Longrightarrow> in_range i (capacity c) \<Longrightarrow> in_range j w \<Longrightarrow>
   (v \<noteq> EMPTY \<Longrightarrow> home c t v = i) \<Longrightarrow> table_wf_w w (put c t i j v)"
  by (simp add: table_wf_w_def placed_put)

lemma contents_fill:
  assumes "shaped_w w c" "t \<in> {1, 2}" "in_range i (capacity c)" "in_range j w"
    and "cell c t i j = EMPTY" "v \<noteq> EMPTY"
  shows "contents (put c t i j v) = add_mset v (contents c)"
  using assms stored_fill [OF shaped_table [OF assms(1)], of "nat i" "nat j" t v]
  by (auto simp: contents_def put_def with_table_def table_of_def cell_def EMPTY_def nat_less_iff)

lemma contents_clear:
  assumes "shaped_w w c" "t \<in> {1, 2}" "in_range i (capacity c)" "in_range j w"
    and "cell c t i j \<noteq> EMPTY"
  shows "contents c = add_mset (cell c t i j) (contents (put c t i j EMPTY))"
  using assms stored_clear [OF shaped_table [OF assms(1)], of "nat i" "nat j" t]
  by (auto simp: contents_def put_def with_table_def table_of_def cell_def EMPTY_def nat_less_iff)

end

subsection \<open>Membership\<close>

context two_tables
begin

lemma in_contents:
  assumes "shaped_w w c"
  shows "v \<in># contents c \<longleftrightarrow> v \<noteq> EMPTY \<and>
     (\<exists>t\<in>{1, 2}. \<exists>i j. in_range i (capacity c) \<and> in_range j w \<and> cell c t i j = v)"
proof -
  have "v \<in># stored (table_of c t) \<longleftrightarrow> v \<noteq> EMPTY \<and>
      (\<exists>i j. in_range i (capacity c) \<and> in_range j w \<and> cell c t i j = v)" for t
    unfolding in_stored [OF shaped_table [OF assms, of t]] cell_def EMPTY_def
    by (auto simp: nat_less_iff)
       (metis nat_int of_nat_0_le_iff of_nat_less_iff, metis nat_less_iff)
  from this [of 1] this [of 2] show ?thesis
    by (auto simp: contents_def table_of_def)
qed

lemma in_row: "shaped_w w c \<Longrightarrow> in_range i (capacity c) \<Longrightarrow>
   v \<in> set (table_of c t ! nat i) \<longleftrightarrow> (\<exists>j. in_range j w \<and> cell c t i j = v)"
  unfolding cell_def in_set_conv_nth row_length
  by (metis nat_int nat_less_iff of_nat_0_le_iff of_nat_less_iff)

lemma in_contents_home:
  assumes "table_wf_w w c" "v \<noteq> EMPTY"
  shows "v \<in># contents c \<longleftrightarrow>
     v \<in> set (table1 c ! nat (home c 1 v)) \<or> v \<in> set (table2 c ! nat (home c 2 v))"
proof -
  from assms have sh: "shaped_w w c" and pl: "placed_w w c" by (auto simp: table_wf_w_def)
  have "v \<in># contents c \<longleftrightarrow> (\<exists>t\<in>{1, 2}. \<exists>j. in_range j w \<and> cell c t (home c t v) j = v)"
    unfolding in_contents [OF sh] using assms(2) pl sh
    by (auto simp: placed_w_def)
  then show ?thesis
    using in_row [OF sh, of "home c 1 v" v 1] in_row [OF sh, of "home c 2 v" v 2] sh
    by (simp add: table_of_def)
qed

end

subsection \<open>contains\<close>

lemma capacity_frame [simp]:
  "capacity (c\<lparr>locks := ls\<rparr>) = capacity c" "capacity (c\<lparr>readers := n\<rparr>) = capacity c"
  "capacity (c\<lparr>writer := b\<rparr>) = capacity c" "capacity (c\<lparr>rng_state := r\<rparr>) = capacity c"
  by (simp_all add: capacity_def)

lemma table_of_frame [simp]:
  "table_of (c\<lparr>locks := ls\<rparr>) t = table_of c t" "table_of (c\<lparr>readers := n\<rparr>) t = table_of c t"
  "table_of (c\<lparr>writer := b\<rparr>) t = table_of c t" "table_of (c\<lparr>rng_state := r\<rparr>) t = table_of c t"
  by (simp_all add: table_of_def)

lemma shaped_frame [simp]:
  "shaped_w w (c\<lparr>locks := ls\<rparr>) = shaped_w w c" "shaped_w w (c\<lparr>readers := n\<rparr>) = shaped_w w c"
  "shaped_w w (c\<lparr>writer := b\<rparr>) = shaped_w w c" "shaped_w w (c\<lparr>rng_state := r\<rparr>) = shaped_w w c"
  by (simp_all add: shaped_w_def)

lemma cell_frame [simp]:
  "cell (c\<lparr>locks := ls\<rparr>) = cell c" "cell (c\<lparr>readers := n\<rparr>) = cell c"
  "cell (c\<lparr>writer := b\<rparr>) = cell c" "cell (c\<lparr>rng_state := r\<rparr>) = cell c"
  by (simp_all add: cell_def fun_eq_iff)

lemma home_frame [simp]:
  "home (c\<lparr>locks := ls\<rparr>) = home c" "home (c\<lparr>readers := n\<rparr>) = home c"
  "home (c\<lparr>writer := b\<rparr>) = home c" "home (c\<lparr>rng_state := r\<rparr>) = home c"
  by (simp_all add: home_def fun_eq_iff)

lemma placed_frame [simp]:
  "placed_w w (c\<lparr>locks := ls\<rparr>) = placed_w w c" "placed_w w (c\<lparr>readers := n\<rparr>) = placed_w w c"
  "placed_w w (c\<lparr>writer := b\<rparr>) = placed_w w c" "placed_w w (c\<lparr>rng_state := r\<rparr>) = placed_w w c"
  by (simp_all add: placed_w_def)

lemma table_wf_frame [simp]:
  "table_wf_w w (c\<lparr>locks := ls\<rparr>) = table_wf_w w c" "table_wf_w w (c\<lparr>readers := n\<rparr>) = table_wf_w w c"
  "table_wf_w w (c\<lparr>writer := b\<rparr>) = table_wf_w w c" "table_wf_w w (c\<lparr>rng_state := r\<rparr>) = table_wf_w w c"
  by (simp_all add: table_wf_w_def)

lemma contents_frame [simp]:
  "contents (c\<lparr>locks := ls\<rparr>) = contents c" "contents (c\<lparr>readers := n\<rparr>) = contents c"
  "contents (c\<lparr>writer := b\<rparr>) = contents c" "contents (c\<lparr>rng_state := r\<rparr>) = contents c"
  by (simp_all add: contents_def)

lemma unlocked_D: "unlocked c \<Longrightarrow> locks c = lock_image (capacity c) {}" "unlocked c \<Longrightarrow> \<not> writer c"
  by (simp_all add: unlocked_def holds_locks_def)

lemma with_locks_two [exec_simps]:
  "shaped c \<Longrightarrow> locks c = lock_image (capacity c) A \<Longrightarrow> in_range i (capacity c) \<Longrightarrow>
   in_range j (capacity c) \<Longrightarrow> A \<inter> {i, j} = {} \<Longrightarrow>
   with_locks c (\<lambda>ls. lock_two ls i j) = Some (c\<lparr>locks := lock_image (capacity c) (A \<union> {i, j})\<rparr>)"
  by (simp add: with_locks_def exec_simps)

lemma with_locks_untwo [exec_simps]:
  "locks c = lock_image (capacity c) A \<Longrightarrow> in_range i (capacity c) \<Longrightarrow>
   in_range j (capacity c) \<Longrightarrow> {i, j} \<subseteq> A \<Longrightarrow>
   with_locks c (\<lambda>ls. unlock_two ls i j) = Some (c\<lparr>locks := lock_image (capacity c) (A - {i, j})\<rparr>)"
  by (simp add: with_locks_def exec_simps)

context two_tables
begin

lemma Table_find_row [exec_simps]:
  "shaped_w w c \<Longrightarrow> in_range i (capacity c) \<Longrightarrow>
   Table_find (table_of c t) v i = Some (v \<in> set (table_of c t ! nat i))"
  by (simp add: Table_find_def exec_simps find_loop_set)

end

lemma table_of_12: "table1 c = table_of c 1" "table2 c = table_of c 2"
  by (simp_all add: table_of_def)

lemma contains_correct:
  assumes "shaped c" "unlocked c"
  shows "Cuckoo_contains c v =
    Some (v \<in> set (table_of c 1 ! nat (home c 1 v)) \<or> v \<in> set (table_of c 2 ! nat (home c 2 v)), c)"
  using assms
  by (simp add: Cuckoo_contains_def rdlock_def unlocked_D exec_simps rwunlock_def table_of_12)

subsection \<open>remove\<close>

lemma put_frame_update [simp]:
  "put (c\<lparr>locks := ls\<rparr>) t i j v = (put c t i j v)\<lparr>locks := ls\<rparr>"
  "put (c\<lparr>readers := n\<rparr>) t i j v = (put c t i j v)\<lparr>readers := n\<rparr>"
  by (simp_all add: put_def with_table_def)

definition slot_of :: "cuckoo \<Rightarrow> int \<Rightarrow> (u32 \<Rightarrow> bool) \<Rightarrow> int \<Rightarrow> int" where
  "slot_of c t p i = slot_loop p 0 (table_of c t ! nat i)"

lemma slot_of_frame [simp]:
  "slot_of (c\<lparr>locks := ls\<rparr>) = slot_of c" "slot_of (c\<lparr>readers := n\<rparr>) = slot_of c"
  by (simp_all add: slot_of_def fun_eq_iff)

context two_tables
begin

lemma Table_findSlot_row [exec_simps]:
  "shaped_w w c \<Longrightarrow> in_range i (capacity c) \<Longrightarrow>
   Table_findSlot (table_of c t) v i = Some (slot_of c t (\<lambda>x. x = v) i)"
  by (simp add: Table_findSlot_def exec_simps slot_of_def)

lemma Table_isAvailable_row [exec_simps]:
  "shaped_w w c \<Longrightarrow> in_range i (capacity c) \<Longrightarrow>
   Table_isAvailable (table_of c t) i = Some (slot_of c t (\<lambda>x. \<not> occupied x) i)"
  by (simp add: Table_isAvailable_def exec_simps slot_of_def)

lemma slot_of_found:
  assumes "shaped_w w c" "in_range i (capacity c)" "slot_of c t p i \<noteq> -1"
  shows "0 \<le> slot_of c t p i" "slot_of c t p i < int w" "p (cell c t i (slot_of c t p i))"
  using slot_loop_first [of p "table_of c t ! nat i"] assms
  by (auto simp: slot_of_def cell_def row_length)

end

lemma slot_of_missing:
  "slot_of c t p i = -1 \<longleftrightarrow> (\<forall>x\<in>set (table_of c t ! nat i). \<not> p x)"
  by (simp add: slot_of_def slot_loop_none)

lemma unlocked_put [simp]: "unlocked (put c t i j v) = unlocked c"
  by (simp add: unlocked_def holds_locks_def)

lemma table_wf_D: "table_wf_w w c \<Longrightarrow> shaped_w w c" "table_wf_w w c \<Longrightarrow> placed_w w c"
  by (simp_all add: table_wf_w_def)

lemma remove_absent:
  assumes "shaped c" "unlocked c"
    and "v \<notin> set (table_of c 1 ! nat (home c 1 v))" "v \<notin> set (table_of c 2 ! nat (home c 2 v))"
  shows "Cuckoo_remove c v = Some (False, c)"
proof -
  from assms have "slot_of c 1 (\<lambda>x. x = v) (home c 1 v) = -1" "slot_of c 2 (\<lambda>x. x = v) (home c 2 v) = -1"
    by (auto simp: slot_of_missing)
  with assms show ?thesis
    by (simp add: Cuckoo_remove_def rdlock_def unlocked_D exec_simps rwunlock_def table_of_12)
qed

text \<open>The cell that \<open>remove\<close> clears: the first match, in the first table if there is one.\<close>

definition match_table :: "cuckoo \<Rightarrow> u32 \<Rightarrow> int" where
  "match_table c v = (if v \<in> set (table_of c 1 ! nat (home c 1 v)) then 1 else 2)"

definition match_slot :: "cuckoo \<Rightarrow> u32 \<Rightarrow> int" where
  "match_slot c v = slot_of c (match_table c v) (\<lambda>x. x = v) (home c (match_table c v) v)"

lemma remove_present:
  assumes "shaped c" "unlocked c"
    and "v \<in> set (table_of c 1 ! nat (home c 1 v)) \<or> v \<in> set (table_of c 2 ! nat (home c 2 v))"
  defines "t \<equiv> match_table c v" and "j \<equiv> match_slot c v"
  shows "Cuckoo_remove c v = Some (True, put c t (home c t v) j EMPTY)"
    and "in_range j WIDTH" and "cell c t (home c t v) j = v"
proof -
  let ?s = "\<lambda>t. slot_of c t (\<lambda>x. x = v) (home c t v)"
  have miss: "?s t = -1 \<longleftrightarrow> v \<notin> set (table_of c t ! nat (home c t v))" for t
    by (auto simp: slot_of_missing)
  have found: "?s t \<noteq> -1 \<Longrightarrow> in_range (?s t) WIDTH \<and> cell c t (home c t v) (?s t) = v" for t
    using cuckoo_tables.slot_of_found [of c "home c t v" t "\<lambda>x. x = v"] assms(1) by auto
  have j: "?s t = j" "?s t \<noteq> -1"
    using assms(3) miss by (auto simp: j_def t_def match_slot_def match_table_def)
  with found [of t] show "in_range j WIDTH" and "cell c t (home c t v) j = v" by auto
  show "Cuckoo_remove c v = Some (True, put c t (home c t v) j EMPTY)"
  proof (cases "?s 1 = -1")
    case True
    with j miss [of 1] have t2: "t = 2" by (simp add: t_def match_table_def)
    with True j assms(1,2) found [of 2] show ?thesis
      by (simp add: Cuckoo_remove_def rdlock_def unlocked_D exec_simps rwunlock_def table_of_12)
  next
    case False
    with miss [of 1] have t1: "t = 1" by (simp add: t_def match_table_def)
    with False j assms(1,2) found [of 1] show ?thesis
      by (simp add: Cuckoo_remove_def rdlock_def unlocked_D exec_simps rwunlock_def table_of_12)
  qed
qed

lemma remove_correct:
  assumes "table_wf c" "unlocked c" "v \<noteq> EMPTY"
  obtains c' where "Cuckoo_remove c v = Some (v \<in># contents c, c')"
    and "table_wf c'" "unlocked c'" "buckets c' = buckets c" "contents c' = contents c - {#v#}"
proof (cases "v \<in># contents c")
  case True
  define t j where "t = match_table c v" and "j = match_slot c v"
  note wf = table_wf_D [OF assms(1)]
  have "v \<in> set (table_of c 1 ! nat (home c 1 v)) \<or> v \<in> set (table_of c 2 ! nat (home c 2 v))"
    using True cuckoo_tables.in_contents_home [OF assms(1,3)] by (simp add: table_of_12)
  note rem = remove_present [OF wf(1) assms(2) this, folded t_def j_def]
  have t: "t \<in> {1, 2}" by (simp add: t_def match_table_def)
  show ?thesis
  proof (rule that [of "put c t (home c t v) j EMPTY"])
    show "table_wf (put c t (home c t v) j EMPTY)"
      using assms(1) wf t rem by (intro cuckoo_tables.table_wf_put) auto
    show "contents (put c t (home c t v) j EMPTY) = contents c - {#v#}"
      using cuckoo_tables.contents_clear [of c t "home c t v" j] wf t rem assms(3) by simp
  qed (use rem True assms in auto)
next
  case False
  then have "v \<notin> set (table_of c 1 ! nat (home c 1 v))" "v \<notin> set (table_of c 2 ! nat (home c 2 v))"
    using cuckoo_tables.in_contents_home [OF assms(1,3)] by (simp_all add: table_of_12)
  then have "Cuckoo_remove c v = Some (False, c)"
    by (intro remove_absent) (use assms in \<open>auto dest: table_wf_D\<close>)
  with False assms show ?thesis by (intro that [of c]) (auto simp: diff_single_trivial)
qed

subsection \<open>size\<close>

definition occupied_in :: "u32 list \<Rightarrow> nat" where
  "occupied_in b = length (filter occupied b)"

lemma size_row_eq:
  "length a = length b \<Longrightarrow> size_row a b n = n + int (occupied_in a) + int (occupied_in b)"
  by (induction a b n rule: size_row.induct) (auto simp: occupied_in_def)

lemma size_rows_eq:
  "length as = length bs \<Longrightarrow> \<forall>a\<in>set as. length a = w \<Longrightarrow> \<forall>b\<in>set bs. length b = w \<Longrightarrow>
   size_rows as bs n = n + int (occupied_in (concat as)) + int (occupied_in (concat bs))"
proof (induction as bs n rule: size_rows.induct)
  case (1 a as b bs n)
  then show ?case by (auto simp: size_row_eq occupied_in_def)
qed (auto simp: occupied_in_def)

lemma size_stored: "size (stored tbl) = occupied_in (concat tbl)"
proof -
  have "occupied = (\<lambda>v. v \<noteq> 0)" by (simp add: occupied_def EMPTY_def fun_eq_iff)
  then show ?thesis by (simp add: stored_def occupied_in_def flip: mset_filter)
qed

lemma size_correct: "shaped_w w c \<Longrightarrow> Cuckoo_size c = int (size (contents c))"
  unfolding Cuckoo_size_def contents_def shaped_w_def rect_def
  by (subst size_rows_eq [where w = w]) (auto simp: size_stored)

end
