(* ===== verification/CuckooSearch.thy ===== *)
theory CuckooSearch
  imports CuckooTable
begin

text \<open>
  The breadth-first search of CuckooHash/Cuckoo.hpp for a chain of displacements that ends in a
  free slot: \<open>Point\<close>, \<open>nextPoint\<close>, \<open>getBucket\<close>, \<open>search\<close>.  A point is a bucket of one of the
  tables with the code of the path that leads to it: the root's number (0 for the first table,
  1 for the second) followed by one base-\<open>WIDTH\<close> digit per displaced slot.  The search reads the
  tables without locks; here it reads one state.

  Lemmas: the queue loop ends (a weight that falls with the depth of a point), no path code
  leaves the range of \<open>int\<close>, and a point that is found decodes to a chain of cells, each in the
  bucket that the element of the cell before hashes to, whose last cell is free.
\<close>

record point =
  pt_table :: int
  pt_index :: int
  pt_pathcode :: int
  pt_depth :: int

definition Point :: "int \<Rightarrow> int \<Rightarrow> int \<Rightarrow> int \<Rightarrow> point" where
  "Point t i pc d = \<lparr>pt_table = t, pt_index = i, pt_pathcode = pc, pt_depth = d\<rparr>"

lemma Point_sel [simp]:
  "pt_table (Point t i pc d) = t" "pt_index (Point t i pc d) = i"
  "pt_pathcode (Point t i pc d) = pc" "pt_depth (Point t i pc d) = d"
  by (simp_all add: Point_def)

definition nextPoint :: "cuckoo \<Rightarrow> point \<Rightarrow> int \<Rightarrow> point option" where
  "nextPoint c point slot =
     (if pt_table point = 1 then
        do { v \<leftarrow> Table_getElement (table1 c) (pt_index point) slot;
             idx \<leftarrow> hash c v 2;
             m \<leftarrow> as_int (pt_pathcode point * int WIDTH);
             pc \<leftarrow> as_int (m + slot);
             Some (Point 2 idx pc (pt_depth point + 1)) }
      else
        do { v \<leftarrow> Table_getElement (table2 c) (pt_index point) slot;
             idx \<leftarrow> hash c v 1;
             m \<leftarrow> as_int (pt_pathcode point * int WIDTH);
             pc \<leftarrow> as_int (m + slot);
             Some (Point 1 idx pc (pt_depth point + 1)) })"

definition getBucket :: "cuckoo \<Rightarrow> point \<Rightarrow> u32 list option" where
  "getBucket c point =
     (if pt_table point = 1 then at (table1 c) (pt_index point) else at (table2 c) (pt_index point))"

text \<open>The slots of one bucket, from a random start: the first free slot ends the search, every
  occupied one before it is queued (unless the point is at the last depth).\<close>

datatype scan_result = Found point | Queue "point list"

fun scan_slots :: "cuckoo \<Rightarrow> point \<Rightarrow> u32 list \<Rightarrow> int list \<Rightarrow> point list \<Rightarrow> scan_result option" where
  "scan_slots c p bucket [] acc = Some (Queue (rev acc))"
| "scan_slots c p bucket (slot # slots) acc =
     do { v \<leftarrow> at bucket slot;
          if \<not> occupied v then
            do { m \<leftarrow> as_int (pt_pathcode p * int WIDTH);
                 pc \<leftarrow> as_int (m + slot);
                 Some (Found (p\<lparr>pt_pathcode := pc\<rparr>)) }
          else if pt_depth p < MAX_SEARCH_DEPTH - 1 then
            do { q \<leftarrow> nextPoint c p slot; scan_slots c p bucket slots (q # acc) }
          else scan_slots c p bucket slots acc }"

definition slot_sequence :: "int \<Rightarrow> int list" where
  "slot_sequence start_slot = map (\<lambda>i. (start_slot + int i) mod int WIDTH) [0..<WIDTH]"

definition no_point :: point where
  "no_point = Point (-1) (-1) (-1) (-1)"

definition point_weight :: "point \<Rightarrow> nat" where
  "point_weight p = 7 ^ nat (MAX_SEARCH_DEPTH - pt_depth p)"

lemma nextPoint_depth: "nextPoint c p slot = Some q \<Longrightarrow> pt_depth q = pt_depth p + 1"
  by (auto simp: nextPoint_def split: if_splits)

lemma scan_slots_weight:
  "scan_slots c p bucket slots acc = Some (Queue qs) \<Longrightarrow>
   \<forall>q\<in>set acc. pt_depth q = pt_depth p + 1 \<and> pt_depth p < MAX_SEARCH_DEPTH - 1 \<Longrightarrow>
   length qs \<le> length acc + length slots
   \<and> (\<forall>q\<in>set qs. pt_depth q = pt_depth p + 1 \<and> pt_depth p < MAX_SEARCH_DEPTH - 1)"
proof (induction c p bucket slots acc rule: scan_slots.induct)
  case (2 c p bucket slot slots acc)
  from 2(3) obtain v where v: "at bucket slot = Some v" by auto
  with 2(3) have occ: "occupied v" by (auto split: if_splits)
  show ?case
  proof (cases "pt_depth p < MAX_SEARCH_DEPTH - 1")
    case True
    with 2(3) v occ obtain q where q: "nextPoint c p slot = Some q"
      and rest: "scan_slots c p bucket slots (q # acc) = Some (Queue qs)" by auto
    have "\<forall>q\<in>set (q # acc). pt_depth q = pt_depth p + 1 \<and> pt_depth p < MAX_SEARCH_DEPTH - 1"
      using nextPoint_depth [OF q] True 2(4) by auto
    from 2(1) [OF v _ True q rest this] occ show ?thesis by auto
  next
    case False
    with 2(3) v occ have "scan_slots c p bucket slots acc = Some (Queue qs)" by auto
    from 2(2) [OF v _ False this 2(4)] occ show ?thesis by auto
  qed
qed auto

lemma sum_weight_bound:
  "\<forall>q\<in>set qs. pt_depth q = d \<Longrightarrow> (\<Sum>q\<leftarrow>qs. point_weight q) = length qs * 7 ^ nat (MAX_SEARCH_DEPTH - d)"
  by (induction qs) (auto simp: point_weight_def)

lemma scan_slots_decreases:
  assumes "scan_slots c p bucket (slot_sequence s) [] = Some (Queue qs)"
  shows "(\<Sum>q\<leftarrow>qs. point_weight q) < point_weight p"
proof (cases "qs = []")
  case True
  then show ?thesis by (simp add: point_weight_def)
next
  case False
  from scan_slots_weight [OF assms] have len: "length qs \<le> 6"
    and d: "\<forall>q\<in>set qs. pt_depth q = pt_depth p + 1" and lt: "pt_depth p < MAX_SEARCH_DEPTH - 1"
    using False by (auto simp: slot_sequence_def WIDTH_def neq_Nil_conv)
  have "nat (MAX_SEARCH_DEPTH - pt_depth p) = Suc (nat (MAX_SEARCH_DEPTH - (pt_depth p + 1)))"
    using lt by simp
  then have "point_weight p = 7 * 7 ^ nat (MAX_SEARCH_DEPTH - (pt_depth p + 1))"
    by (simp add: point_weight_def)
  then show ?thesis using len by (simp add: sum_weight_bound [OF d])
qed

text \<open>The queue loop of \<open>search\<close>: \<open>paths\<close> are the elements seen, the generator is advanced once
  per bucket.\<close>

function search_loop :: "cuckoo \<Rightarrow> point list \<Rightarrow> u32 list \<Rightarrow> rng \<Rightarrow> (point \<times> rng) option" where
  "search_loop c [] paths r = Some (no_point, r)"
| "search_loop c (point # q) paths r =
     (case getBucket c point of None \<Rightarrow> None | Some bucket \<Rightarrow>
      (case at bucket (pt_pathcode point mod int WIDTH) of None \<Rightarrow> None | Some val \<Rightarrow>
       (if val \<in> set paths then Some (no_point, r)
        else case xorshf96 r of (z, r') \<Rightarrow>
          (case scan_slots c point bucket (slot_sequence (uint (z mod of_nat WIDTH))) [] of
             None \<Rightarrow> None
           | Some (Found p) \<Rightarrow> Some (p, r')
           | Some (Queue ps) \<Rightarrow> search_loop c (q @ ps) (val # paths) r'))))"
  by pat_completeness auto
termination
proof (relation "measure (\<lambda>(c, q, paths, r). \<Sum>p\<leftarrow>q. point_weight p)", goal_cases)
  case 1
  then show ?case by simp
next
  case (2 c point q paths r bucket val z r' res ps)
  then show ?case using scan_slots_decreases by fastforce
qed

definition search :: "cuckoo \<Rightarrow> int \<Rightarrow> int \<Rightarrow> (point \<times> cuckoo) option" where
  "search c idx1 idx2 =
     do { (p, r) \<leftarrow> search_loop c [Point 1 idx1 0 0, Point 2 idx2 1 0] [] (rng_state c);
          Some (p, c\<lparr>rng_state := r\<rparr>) }"

subsection \<open>Path codes\<close>

definition other :: "int \<Rightarrow> int" where
  "other t = (if t = 1 then 2 else 1)"

lemma other_in: "other t \<in> {1, 2}"
  by (simp add: other_def)

lemma other_simps [simp]: "other 1 = 2" "other 2 = 1" "other t = 1 \<or> other t = 2" "other t \<noteq> 2 \<Longrightarrow> other t = 1"
  by (simp_all add: other_def split: if_splits)

definition path_code :: "int \<Rightarrow> int list \<Rightarrow> int" where
  "path_code r ss = foldl (\<lambda>a s. a * int WIDTH + s) r ss"

lemma path_code_snoc: "path_code r (ss @ [s]) = path_code r ss * int WIDTH + s"
  by (simp add: path_code_def)

lemma path_code_nonneg: "0 \<le> r \<Longrightarrow> \<forall>s\<in>set ss. in_range s WIDTH \<Longrightarrow> 0 \<le> path_code r ss"
  by (induction ss rule: rev_induct) (auto simp: path_code_snoc, simp add: path_code_def)

lemma path_code_lt:
  "r \<in> {0, 1} \<Longrightarrow> \<forall>s\<in>set ss. in_range s WIDTH \<Longrightarrow> path_code r ss < 2 * 6 ^ length ss"
proof (induction ss rule: rev_induct)
  case Nil
  then show ?case by (auto simp: path_code_def)
next
  case (snoc s ss)
  then have "path_code r ss + 1 \<le> 2 * 6 ^ length ss" by auto
  with snoc.prems show ?case by (auto simp: path_code_snoc WIDTH_def)
qed

text \<open>Eight digits at most (seven displaced slots and the free one) keep the code small.\<close>

lemma path_code_small:
  assumes "r \<in> {0, 1}" "\<forall>s\<in>set ss. in_range s WIDTH" "length ss \<le> 7"
  shows "0 \<le> path_code r ss" "path_code r ss \<le> 559871"
proof -
  show "0 \<le> path_code r ss" using assms by (intro path_code_nonneg) auto
  have "(6::int) ^ length ss \<le> 6 ^ 7" using assms(3) by (intro power_increasing) auto
  then show "path_code r ss \<le> 559871" using path_code_lt [OF assms(1,2)] by simp
qed

subsection \<open>The chain that a path names\<close>

fun chain_end :: "cuckoo \<Rightarrow> int \<times> int \<Rightarrow> int list \<Rightarrow> int \<times> int" where
  "chain_end c (t, i) [] = (t, i)"
| "chain_end c (t, i) (s # ss) = chain_end c (other t, home c (other t) (cell c t i s)) ss"

definition root :: "int \<Rightarrow> int \<Rightarrow> int \<Rightarrow> int \<times> int" where
  "root idx1 idx2 r = (if r = 0 then (1, idx1) else (2, idx2))"

definition queue_point :: "cuckoo \<Rightarrow> int \<Rightarrow> int \<Rightarrow> point \<Rightarrow> bool" where
  "queue_point c idx1 idx2 p \<longleftrightarrow> (\<exists>r ss. r \<in> {0, 1} \<and> (\<forall>s\<in>set ss. in_range s WIDTH) \<and> length ss \<le> 6
     \<and> pt_depth p = int (length ss) \<and> pt_pathcode p = path_code r ss
     \<and> (pt_table p, pt_index p) = chain_end c (root idx1 idx2 r) ss)"

definition found_point :: "cuckoo \<Rightarrow> int \<Rightarrow> int \<Rightarrow> point \<Rightarrow> bool" where
  "found_point c idx1 idx2 p \<longleftrightarrow> (\<exists>r ss s. r \<in> {0, 1} \<and> (\<forall>s\<in>set (ss @ [s]). in_range s WIDTH)
     \<and> length ss \<le> 6 \<and> pt_depth p = int (length ss) \<and> pt_pathcode p = path_code r (ss @ [s])
     \<and> (pt_table p, pt_index p) = chain_end c (root idx1 idx2 r) ss
     \<and> cell c (pt_table p) (pt_index p) s = EMPTY)"

lemma chain_end_snoc:
  "chain_end c ti (ss @ [s]) =
   (case chain_end c ti ss of (t, i) \<Rightarrow> (other t, home c (other t) (cell c t i s)))"
  by (induction c ti ss rule: chain_end.induct) auto

lemma chain_end_range:
  assumes "shaped c" "fst ti \<in> {1, 2}" "in_range (snd ti) (capacity c)"
  shows "fst (chain_end c ti ss) \<in> {1, 2} \<and> in_range (snd (chain_end c ti ss)) (capacity c)"
  using assms(2,3)
proof (induction ss rule: rev_induct)
  case Nil
  then show ?case by (cases ti) auto
next
  case (snoc s ss)
  then show ?case using assms(1) other_in by (auto simp: chain_end_snoc split: prod.split)
qed

lemma queue_point_range:
  assumes "shaped c" "in_range idx1 (capacity c)" "in_range idx2 (capacity c)"
    and "queue_point c idx1 idx2 p"
  shows "pt_table p \<in> {1, 2}" "in_range (pt_index p) (capacity c)" "0 \<le> pt_pathcode p"
proof -
  obtain r ss where r: "r \<in> {0, 1}" "\<forall>s\<in>set ss. in_range s WIDTH"
    and p: "pt_pathcode p = path_code r ss" "(pt_table p, pt_index p) = chain_end c (root idx1 idx2 r) ss"
    using assms(4) by (auto simp: queue_point_def)
  have "fst (root idx1 idx2 r) \<in> {1, 2}" "in_range (snd (root idx1 idx2 r)) (capacity c)"
    using assms by (auto simp: root_def)
  from chain_end_range [OF assms(1) this, of ss] p(2)
  show "pt_table p \<in> {1, 2}" "in_range (pt_index p) (capacity c)"
    by (metis fst_conv, metis snd_conv)
  show "0 \<le> pt_pathcode p" using r p(1) by (auto intro: path_code_nonneg)
qed

lemma scan_step_code:
  assumes "queue_point c idx1 idx2 p" "in_range slot WIDTH"
  shows "as_int (pt_pathcode p * int WIDTH) = Some (pt_pathcode p * int WIDTH)"
    and "as_int (pt_pathcode p * int WIDTH + slot) = Some (pt_pathcode p * int WIDTH + slot)"
proof -
  from assms(1) obtain r ss where "r \<in> {0, 1}" "\<forall>s\<in>set ss. in_range s WIDTH" "length ss \<le> 6"
    and p: "pt_pathcode p = path_code r ss" by (auto simp: queue_point_def)
  with path_code_small [of r ss] have "0 \<le> pt_pathcode p" "pt_pathcode p \<le> 559871" by auto
  with assms(2) show "as_int (pt_pathcode p * int WIDTH) = Some (pt_pathcode p * int WIDTH)"
    and "as_int (pt_pathcode p * int WIDTH + slot) = Some (pt_pathcode p * int WIDTH + slot)"
    by (auto simp: as_int_def fits_int_def int_max_def WIDTH_def)
qed

lemma nextPoint_queue:
  assumes "shaped c" "in_range idx1 (capacity c)" "in_range idx2 (capacity c)"
    and p: "queue_point c idx1 idx2 p" and "in_range slot WIDTH" "pt_depth p < MAX_SEARCH_DEPTH - 1"
  shows "\<exists>q. nextPoint c p slot = Some q \<and> queue_point c idx1 idx2 q"
proof -
  note rng = queue_point_range [OF assms(1-3) p]
  note code = scan_step_code [OF p assms(5)]
  let ?t = "pt_table p" and ?i = "pt_index p"
  let ?q = "Point (other ?t) (home c (other ?t) (cell c ?t ?i slot))
              (pt_pathcode p * int WIDTH + slot) (pt_depth p + 1)"
  have "nextPoint c p slot = Some ?q"
    using assms(1,5) rng code
    by (auto simp: nextPoint_def Table_getElement_def table_of_12 exec_simps other_def)
  moreover from p obtain r ss where r: "r \<in> {0, 1}" "\<forall>s\<in>set ss. in_range s WIDTH"
    and ss: "pt_depth p = int (length ss)" "pt_pathcode p = path_code r ss"
      "(?t, ?i) = chain_end c (root idx1 idx2 r) ss"
    unfolding queue_point_def by blast
  have "queue_point c idx1 idx2 ?q"
    unfolding queue_point_def
    by (rule exI [of _ r], rule exI [of _ "ss @ [slot]"])
       (use r ss assms(5,6) in \<open>auto simp: chain_end_snoc path_code_snoc MAX_SEARCH_DEPTH_def
          simp flip: ss(3)\<close>)
  ultimately show ?thesis by blast
qed

definition scan_ok :: "cuckoo \<Rightarrow> int \<Rightarrow> int \<Rightarrow> scan_result \<Rightarrow> bool" where
  "scan_ok c idx1 idx2 res = (case res of Found p \<Rightarrow> found_point c idx1 idx2 p
     | Queue qs \<Rightarrow> \<forall>q\<in>set qs. queue_point c idx1 idx2 q)"

lemma found_here:
  assumes "queue_point c idx1 idx2 p" "in_range slot WIDTH" "cell c (pt_table p) (pt_index p) slot = EMPTY"
  shows "found_point c idx1 idx2 (p\<lparr>pt_pathcode := pt_pathcode p * int WIDTH + slot\<rparr>)"
proof -
  from assms(1) obtain r ss where "r \<in> {0, 1}" "\<forall>s\<in>set ss. in_range s WIDTH" "length ss \<le> 6"
    "pt_depth p = int (length ss)" "pt_pathcode p = path_code r ss"
    "(pt_table p, pt_index p) = chain_end c (root idx1 idx2 r) ss"
    by (auto simp: queue_point_def)
  with assms(2,3) show ?thesis
    unfolding found_point_def
    by (intro exI [of _ r] exI [of _ ss] exI [of _ slot]) (auto simp: path_code_snoc)
qed

lemma scan_slots_ok:
  assumes "shaped c" "in_range idx1 (capacity c)" "in_range idx2 (capacity c)"
    and p: "queue_point c idx1 idx2 p" and "\<forall>s\<in>set slots. in_range s WIDTH"
    and "\<forall>q\<in>set acc. queue_point c idx1 idx2 q"
  shows "\<exists>res. scan_slots c p (table_of c (pt_table p) ! nat (pt_index p)) slots acc = Some res
               \<and> scan_ok c idx1 idx2 res"
  using assms(5,6)
proof (induction slots arbitrary: acc)
  case Nil
  then show ?case by (simp add: scan_ok_def)
next
  case (Cons slot slots)
  let ?b = "table_of c (pt_table p) ! nat (pt_index p)"
  note rng = queue_point_range [OF assms(1-3) p]
  have slot: "in_range slot WIDTH" using Cons.prems by simp
  have v: "at ?b slot = Some (cell c (pt_table p) (pt_index p) slot)"
    using slot rng assms(1) by (simp add: at_def cuckoo_tables.row_length cell_def)
  show ?case
  proof (cases "occupied (cell c (pt_table p) (pt_index p) slot)")
    case False
    then have "cell c (pt_table p) (pt_index p) slot = EMPTY" by (simp add: occupied_def)
    from found_here [OF p slot this] scan_step_code [OF p slot] v False
    show ?thesis by (simp add: scan_ok_def)
  next
    case occ: True
    show ?thesis
    proof (cases "pt_depth p < MAX_SEARCH_DEPTH - 1")
      case True
      with nextPoint_queue [OF assms(1-3) p slot] obtain q
        where q: "nextPoint c p slot = Some q" "queue_point c idx1 idx2 q" by blast
      with Cons.prems have "\<forall>q\<in>set (q # acc). queue_point c idx1 idx2 q" by simp
      from Cons.IH [OF _ this] Cons.prems v occ True q show ?thesis by simp
    next
      case False
      from Cons.IH [OF _ Cons.prems(2)] Cons.prems(1) v occ False show ?thesis by simp
    qed
  qed
qed

lemma slot_sequence_range: "\<forall>s\<in>set (slot_sequence start). in_range s WIDTH"
  by (simp add: slot_sequence_def WIDTH_def)

lemma search_loop_ok:
  assumes "shaped c" "in_range idx1 (capacity c)" "in_range idx2 (capacity c)"
    and "\<forall>p\<in>set q. queue_point c idx1 idx2 p"
  shows "\<exists>p r'. search_loop c q paths r = Some (p, r') \<and> (p = no_point \<or> found_point c idx1 idx2 p)"
  using assms
proof (induction c q paths r rule: search_loop.induct)
  case (1 c paths r)
  then show ?case by (cases r) auto
next
  case (2 c p q paths r)
  have p: "queue_point c idx1 idx2 p" using 2 by simp
  note rng = queue_point_range [OF 2(2-4) p]
  let ?b = "table_of c (pt_table p) ! nat (pt_index p)"
  have b: "getBucket c p = Some ?b"
    using rng 2(2) by (auto simp: getBucket_def table_of_12 exec_simps)
  have "in_range (pt_pathcode p mod int WIDTH) (length ?b)"
    using rng 2(2) by (simp add: cuckoo_tables.row_length WIDTH_def)
  then obtain val where val: "at ?b (pt_pathcode p mod int WIDTH) = Some val" by (simp add: at_def)
  obtain z r' where z: "xorshf96 r = (z, r')" by (cases "xorshf96 r")
  obtain res where res: "scan_slots c p ?b (slot_sequence (uint (z mod of_nat WIDTH))) [] = Some res"
    and ok: "scan_ok c idx1 idx2 res"
    using scan_slots_ok [OF 2(2-4) p slot_sequence_range] by (metis empty_iff list.set(1))
  show ?case
  proof (cases "val \<in> set paths")
    case True
    with b val show ?thesis by (cases r) auto
  next
    case False
    show ?thesis
    proof (cases res)
      case (Found p')
      with b val z res ok False show ?thesis by (cases r') (auto simp: scan_ok_def)
    next
      case (Queue qs)
      with ok 2(5) have "\<forall>p\<in>set (q @ qs). queue_point c idx1 idx2 p" by (auto simp: scan_ok_def)
      from 2(1) [OF b val False z [symmetric] res [unfolded Queue] refl 2(2-4) this]
      show ?thesis using b val z res False Queue by simp
    qed
  qed
qed

lemma search_ok:
  assumes "shaped c" "in_range idx1 (capacity c)" "in_range idx2 (capacity c)"
  shows "\<exists>p r'. search c idx1 idx2 = Some (p, c\<lparr>rng_state := r'\<rparr>)
               \<and> (p = no_point \<or> found_point c idx1 idx2 p)"
proof -
  have "queue_point c idx1 idx2 (Point 1 idx1 0 0)" "queue_point c idx1 idx2 (Point 2 idx2 1 0)"
    unfolding queue_point_def
    by (rule exI [of _ 0], rule exI [of _ "[]"], simp add: path_code_def root_def)
       (rule exI [of _ 1], rule exI [of _ "[]"], simp add: path_code_def root_def)
  then have "\<forall>p\<in>set [Point 1 idx1 0 0, Point 2 idx2 1 0]. queue_point c idx1 idx2 p" by simp
  from search_loop_ok [OF assms this] obtain p r'
    where "search_loop c [Point 1 idx1 0 0, Point 2 idx2 1 0] [] (rng_state c) = Some (p, r')"
      "p = no_point \<or> found_point c idx1 idx2 p" by metis
  then show ?thesis by (intro exI [of _ p] exI [of _ r']) (simp add: search_def)
qed

end
