(* ===== verification/CuckooInsert.thy ===== *)
theory CuckooInsert
  imports CuckooSearch
begin

text \<open>
  \<open>insert\<close> and \<open>resize\<close> of CuckooHash/Cuckoo.hpp.  \<open>insert_once\<close> is the private \<open>insert\<close> (one
  attempt: test, search, decode and check the path, displace along it from its free end), and
  \<open>insert_loop\<close> is the public \<open>insert\<close>, whose \<open>while (true)\<close> runs with fuel.  The arrays of
  \<open>Path\<close> are a list of cells (table, index, slot), the displacement loop runs over the reversed
  list, and the two branches that differ only in the direction between the tables are one
  definition with the table number as a parameter.

  Lemmas: an attempt neither faults nor changes the multiset of the elements nor misplaces one,
  and it holds exactly the two bucket locks when it reports SUCCESS and none otherwise.
\<close>

datatype STATUS = RESIZE | RETRY | DUPLICATE | SUCCESS

record result =
  res_status :: STATUS
  res_table :: int
  res_index :: int
  res_slot :: int

definition Result :: "STATUS \<Rightarrow> int \<Rightarrow> int \<Rightarrow> int \<Rightarrow> result" where
  "Result st t i s = \<lparr>res_status = st, res_table = t, res_index = i, res_slot = s\<rparr>"

lemma Result_sel [simp]:
  "res_status (Result st t i s) = st" "res_table (Result st t i s) = t"
  "res_index (Result st t i s) = i" "res_slot (Result st t i s) = s"
  by (simp_all add: Result_def)

type_synonym path_cell = "int \<times> int \<times> int"

subsection \<open>Decoding the path\<close>

fun decode_slots :: "nat \<Rightarrow> int \<Rightarrow> int list \<Rightarrow> int list \<times> int" where
  "decode_slots 0 pathcode slots = (slots, pathcode)"
| "decode_slots (Suc n) pathcode slots =
     decode_slots n (pathcode div int WIDTH) (pathcode mod int WIDTH # slots)"

definition decode_path :: "point \<Rightarrow> (int list \<times> int) option" where
  "decode_path p =
     (if 0 \<le> pt_depth p \<and> pt_depth p < MAX_SEARCH_DEPTH
      then Some (decode_slots (nat (pt_depth p + 1)) (pt_pathcode p) []) else None)"

fun follow_path :: "cuckoo \<Rightarrow> int \<Rightarrow> int \<Rightarrow> int list \<Rightarrow> path_cell list option" where
  "follow_path c t i [] = None"
| "follow_path c t i (s # ss) =
     do { free \<leftarrow> Table_isAvailable_slot (table_of c t) i s;
          if free \<or> ss = [] then Some [(t, i, s)]
          else do { v \<leftarrow> Table_getElement (table_of c t) i s;
                    i' \<leftarrow> hash c v (other t);
                    cs \<leftarrow> follow_path c (other t) i' ss;
                    Some ((t, i, s) # cs) } }"

subsection \<open>Displacements\<close>

definition displace :: "cuckoo \<Rightarrow> int \<Rightarrow> int \<Rightarrow> bool \<Rightarrow> path_cell \<Rightarrow> path_cell \<Rightarrow> (bool \<times> cuckoo) option" where
  "displace c idx1 idx2 final to from =
     (case to of (_, ti, ts) \<Rightarrow> case from of (ft, fi, fs) \<Rightarrow>
      do { c \<leftarrow> (if final then with_locks c (\<lambda>ls. lock_three ls idx1 idx2 ti)
                else with_locks c (\<lambda>ls. lock_two ls ti fi));
           to_occupied \<leftarrow> Table_isOccupied (table_of c (other ft)) ti ts;
           stale \<leftarrow>
             (if to_occupied then Some True
              else do { from_occupied \<leftarrow> Table_isOccupied (table_of c ft) fi fs;
                        if \<not> from_occupied then Some True
                        else do { v \<leftarrow> Table_getElement (table_of c ft) fi fs;
                                  h \<leftarrow> hash c v (other ft);
                                  Some (h \<noteq> ti) } });
           if stale then
             do { c \<leftarrow> (if final then with_locks c (\<lambda>ls. unlock_three ls idx1 idx2 ti)
                       else with_locks c (\<lambda>ls. unlock_two ls ti fi));
                  Some (False, c) }
           else
             do { v \<leftarrow> Table_getElement (table_of c ft) fi fs;
                  c \<leftarrow> put_element c (other ft) ti ts v;
                  c \<leftarrow> put_element c ft fi fs EMPTY;
                  c \<leftarrow> (if final then
                          (if ti \<noteq> idx1 \<and> ti \<noteq> idx2 then with_locks c (\<lambda>ls. unlock_one ls ti) else Some c)
                        else with_locks c (\<lambda>ls. unlock_two ls ti fi));
                  Some (True, c) } })"

fun move_path :: "cuckoo \<Rightarrow> int \<Rightarrow> int \<Rightarrow> path_cell list \<Rightarrow> (bool \<times> cuckoo) option" where
  "move_path c idx1 idx2 (to # from # rest) =
     do { (ok, c) \<leftarrow> displace c idx1 idx2 (rest = []) to from;
          if ok then move_path c idx1 idx2 (from # rest) else Some (False, c) }"
| "move_path c idx1 idx2 _ = Some (True, c)"

subsection \<open>One attempt\<close>

definition claim_path :: "cuckoo \<Rightarrow> int \<Rightarrow> int \<Rightarrow> path_cell list \<Rightarrow> (result \<times> cuckoo) option" where
  "claim_path c idx1 idx2 path =
     (case path of
        [] \<Rightarrow> None
      | [(t, i, s)] \<Rightarrow>
          do { c \<leftarrow> with_locks c (\<lambda>ls. lock_two ls idx1 idx2);
               free \<leftarrow> Table_isAvailable_slot (table_of c t) i s;
               if free then Some (Result SUCCESS t i s, c)
               else do { c \<leftarrow> with_locks c (\<lambda>ls. unlock_two ls idx1 idx2);
                         Some (Result RETRY 0 0 0, c) } }
      | (t, i, s) # _ # _ \<Rightarrow>
          do { (ok, c) \<leftarrow> move_path c idx1 idx2 (rev path);
               Some (if ok then Result SUCCESS t i s else Result RETRY 0 0 0, c) })"

definition insert_once :: "cuckoo \<Rightarrow> u32 \<Rightarrow> int \<Rightarrow> int \<Rightarrow> (result \<times> cuckoo) option" where
  "insert_once c val idx1 idx2 =
     do { c \<leftarrow> with_locks c (\<lambda>ls. lock_two ls idx1 idx2);
          in1 \<leftarrow> Table_find (table1 c) val idx1;
          dup \<leftarrow> (if in1 then Some True else Table_find (table2 c) val idx2);
          if dup then
            do { c \<leftarrow> with_locks c (\<lambda>ls. unlock_two ls idx1 idx2); Some (Result DUPLICATE 0 0 0, c) }
          else do {
          slot1 \<leftarrow> Table_isAvailable (table1 c) idx1;
          if slot1 \<noteq> -1 then Some (Result SUCCESS 1 idx1 slot1, c)
          else do {
          slot2 \<leftarrow> Table_isAvailable (table2 c) idx2;
          if slot2 \<noteq> -1 then Some (Result SUCCESS 2 idx2 slot2, c)
          else do {
          c \<leftarrow> with_locks c (\<lambda>ls. unlock_two ls idx1 idx2);
          (point, c) \<leftarrow> search c idx1 idx2;
          if pt_pathcode point = -1 then Some (Result RESIZE 0 0 0, c)
          else do {
          (slots, rest) \<leftarrow> decode_path point;
          path \<leftarrow> (if rest = 0 then follow_path c 1 idx1 slots else follow_path c 2 idx2 slots);
          claim_path c idx1 idx2 path } } } } }"

subsection \<open>Resize\<close>

definition copy_element :: "cuckoo \<Rightarrow> int \<Rightarrow> elements \<Rightarrow> u32 \<Rightarrow> elements option" where
  "copy_element c function t val =
     (if occupied val then
        do { idx \<leftarrow> hash c val function;
             slot \<leftarrow> Table_isAvailable t idx;
             set2 t idx slot val }
      else Some t)"

fun copy_slots :: "cuckoo \<Rightarrow> u32 list \<Rightarrow> u32 list \<Rightarrow> elements \<Rightarrow> elements \<Rightarrow> (elements \<times> elements) option" where
  "copy_slots c (v1 # row1) (v2 # row2) t1 t2 =
     do { t1 \<leftarrow> copy_element c 1 t1 v1;
          t2 \<leftarrow> copy_element c 2 t2 v2;
          copy_slots c row1 row2 t1 t2 }"
| "copy_slots c _ _ t1 t2 = Some (t1, t2)"

fun copy_rows :: "cuckoo \<Rightarrow> int list \<Rightarrow> elements \<Rightarrow> elements \<Rightarrow> (elements \<times> elements) option" where
  "copy_rows c [] t1 t2 = Some (t1, t2)"
| "copy_rows c (i # is) t1 t2 =
     do { row1 \<leftarrow> at (table1 c) i;
          row2 \<leftarrow> at (table2 c) i;
          (t1, t2) \<leftarrow> copy_slots c row1 row2 t1 t2;
          copy_rows c is t1 t2 }"

definition resize :: "u32 \<Rightarrow> cuckoo \<Rightarrow> cuckoo option" where
  "resize old_capacity c =
     do { c \<leftarrow> wrlock c;
          if old_capacity \<noteq> buckets c then rwunlock c
          else do {
            let c = c\<lparr>buckets := buckets c * 2\<rparr>;
            let n = unat (buckets c);
            (t1, t2) \<leftarrow> copy_rows c (map int [0..<unat (buckets c div 4)]) (Table_new n) (Table_new n);
            rwunlock (c\<lparr>locks := replicate n False, table1 := t1, table2 := t2\<rparr>) } }"

subsection \<open>The public insert\<close>

definition insert_attempt :: "cuckoo \<Rightarrow> u32 \<Rightarrow> int \<Rightarrow> int \<Rightarrow> (bool option \<times> cuckoo) option" where
  "insert_attempt c val idx1 idx2 =
     do { c \<leftarrow> rdlock c;
          (r, c) \<leftarrow> insert_once c val idx1 idx2;
          (case res_status r of
             DUPLICATE \<Rightarrow> do { c \<leftarrow> rwunlock c; Some (Some False, c) }
           | RESIZE \<Rightarrow> do { c \<leftarrow> rwunlock c; c \<leftarrow> resize (buckets c) c; Some (None, c) }
           | RETRY \<Rightarrow> do { c \<leftarrow> rwunlock c; Some (None, c) }
           | SUCCESS \<Rightarrow>
               do { c \<leftarrow> put_element c (res_table r) (res_index r) (res_slot r) val;
                    c \<leftarrow> with_locks c (\<lambda>ls. unlock_two ls idx1 idx2);
                    c \<leftarrow> rwunlock c;
                    Some (Some True, c) }) }"

fun insert_loop :: "nat \<Rightarrow> cuckoo \<Rightarrow> u32 \<Rightarrow> int \<Rightarrow> int \<Rightarrow> (bool \<times> cuckoo) outcome" where
  "insert_loop 0 c val idx1 idx2 = No_fuel"
| "insert_loop (Suc fuel) c val idx1 idx2 =
     (case insert_attempt c val idx1 idx2 of
        None \<Rightarrow> Fault
      | Some (Some b, c') \<Rightarrow> Done (b, c')
      | Some (None, c') \<Rightarrow> insert_loop fuel c' val idx1 idx2)"

definition Cuckoo_insert :: "nat \<Rightarrow> cuckoo \<Rightarrow> u32 \<Rightarrow> (bool \<times> cuckoo) outcome" where
  "Cuckoo_insert fuel c val =
     (case (hash c val 1, hash c val 2) of
        (Some idx1, Some idx2) \<Rightarrow> insert_loop fuel c val idx1 idx2
      | _ \<Rightarrow> Fault)"

subsection \<open>Decoding inverts the path code\<close>

lemma decode_slots_snoc:
  "\<forall>s\<in>set ss. in_range s WIDTH \<Longrightarrow>
   decode_slots (length ss) (path_code r ss) acc = (ss @ acc, r)"
proof (induction ss arbitrary: acc rule: rev_induct)
  case Nil
  then show ?case by (simp add: path_code_def)
next
  case (snoc s ss)
  then have "(path_code r ss * int WIDTH + s) div int WIDTH = path_code r ss"
    "(path_code r ss * int WIDTH + s) mod int WIDTH = s"
    by (auto simp: div_add1_eq WIDTH_def)
  with snoc show ?case by (simp add: path_code_snoc)
qed

lemma decode_found:
  assumes "found_point c idx1 idx2 p"
  shows "\<exists>r ss s. decode_path p = Some (ss @ [s], r) \<and> r \<in> {0, 1}
      \<and> (\<forall>s\<in>set (ss @ [s]). in_range s WIDTH) \<and> pt_pathcode p \<noteq> -1
      \<and> (pt_table p, pt_index p) = chain_end c (root idx1 idx2 r) ss
      \<and> cell c (pt_table p) (pt_index p) s = EMPTY"
proof -
  obtain r ss s where r: "r \<in> {0, 1}" and ss: "\<forall>s\<in>set (ss @ [s]). in_range s WIDTH" "length ss \<le> 6"
    and p: "pt_depth p = int (length ss)" "pt_pathcode p = path_code r (ss @ [s])"
      "(pt_table p, pt_index p) = chain_end c (root idx1 idx2 r) ss"
      "cell c (pt_table p) (pt_index p) s = EMPTY"
    using assms unfolding found_point_def by blast
  have "nat (pt_depth p + 1) = length (ss @ [s])" using p(1) by simp
  then have "decode_path p = Some (ss @ [s], r)"
    using ss p(1,2) decode_slots_snoc [OF ss(1), of r "[]"]
    by (simp add: decode_path_def MAX_SEARCH_DEPTH_def)
  moreover have "0 \<le> path_code r (ss @ [s])" using r ss by (intro path_code_nonneg) auto
  ultimately show ?thesis using r ss p by (intro exI [of _ r] exI [of _ ss] exI [of _ s]) auto
qed

subsection \<open>What the steps of an attempt keep\<close>

text \<open>Everything but the locks, the generator and the arrangement of the elements.\<close>

definition same_elements_w :: "nat \<Rightarrow> cuckoo \<Rightarrow> cuckoo \<Rightarrow> bool" where
  "same_elements_w w c c' \<longleftrightarrow> buckets c' = buckets c \<and> readers c' = readers c \<and> writer c' = writer c
     \<and> shaped_w w c' \<and> (placed_w w c \<longrightarrow> placed_w w c') \<and> contents c' = contents c"

abbreviation same_elements :: "cuckoo \<Rightarrow> cuckoo \<Rightarrow> bool" where
  "same_elements \<equiv> same_elements_w WIDTH"

lemma same_elements_refl [simp]: "shaped_w w c \<Longrightarrow> same_elements_w w c c"
  by (simp add: same_elements_w_def)

lemma same_elements_trans [trans]:
  "same_elements_w w c c' \<Longrightarrow> same_elements_w w c' c'' \<Longrightarrow> same_elements_w w c c''"
  by (auto simp: same_elements_w_def)

lemma same_elements_frame [simp]:
  "same_elements_w w c (c'\<lparr>locks := ls\<rparr>) = same_elements_w w c c'"
  "same_elements_w w c (c'\<lparr>rng_state := r\<rparr>) = same_elements_w w c c'"
  "same_elements_w w (c\<lparr>locks := ls\<rparr>) c' = same_elements_w w c c'"
  "same_elements_w w (c\<lparr>rng_state := r\<rparr>) c' = same_elements_w w c c'"
  by (simp_all add: same_elements_w_def)

lemma same_elements_D:
  "same_elements_w w c c' \<Longrightarrow> shaped_w w c'" "same_elements_w w c c' \<Longrightarrow> capacity c' = capacity c"
  "same_elements_w w c c' \<Longrightarrow> buckets c' = buckets c" "same_elements_w w c c' \<Longrightarrow> contents c' = contents c"
  "same_elements_w w c c' \<Longrightarrow> home c' = home c"
  by (auto simp: same_elements_w_def capacity_def intro: home_cong)

definition cell_ok_w :: "nat \<Rightarrow> cuckoo \<Rightarrow> path_cell \<Rightarrow> bool" where
  "cell_ok_w w c = (\<lambda>(t, i, s). t \<in> {1, 2} \<and> in_range i (capacity c) \<and> in_range s w)"

abbreviation cell_ok :: "cuckoo \<Rightarrow> path_cell \<Rightarrow> bool" where
  "cell_ok \<equiv> cell_ok_w WIDTH"

definition free_cell :: "cuckoo \<Rightarrow> path_cell \<Rightarrow> bool" where
  "free_cell c = (\<lambda>(t, i, s). cell c t i s = EMPTY)"

lemma cell_ok_same: "same_elements_w w c c' \<Longrightarrow> cell_ok_w w c' = cell_ok_w w c"
  using same_elements_D(2) [of w c c'] by (simp add: cell_ok_w_def)

context two_tables
begin

lemma Table_cell [exec_simps]:
  assumes "shaped_w w c" "in_range i (capacity c)" "in_range j w"
  shows "Table_getElement (table_of c t) i j = Some (cell c t i j)"
    and "Table_isOccupied (table_of c t) i j = Some (cell c t i j \<noteq> EMPTY)"
    and "Table_isAvailable_slot (table_of c t) i j = Some (cell c t i j = EMPTY)"
  using assms
  by (simp_all add: Table_getElement_def Table_isOccupied_def Table_isAvailable_slot_def exec_simps
      occupied_def)

end

text \<open>Moving an element into a free slot of the bucket it hashes to in the other table.\<close>

context two_tables
begin

lemma move_keeps:
  assumes "shaped_w w c" "t \<in> {1, 2}" "in_range i (capacity c)" "in_range j w"
    and "in_range i' (capacity c)" "in_range j' w"
    and "cell c t i j \<noteq> EMPTY" "cell c (other t) i' j' = EMPTY"
    and "home c (other t) (cell c t i j) = i'"
  defines "c' \<equiv> put (put c (other t) i' j' (cell c t i j)) t i j EMPTY"
  shows "same_elements_w w c c'" and "cell c' t i j = EMPTY"
proof -
  let ?d = "put c (other t) i' j' (cell c t i j)"
  have ne: "t \<noteq> other t" using assms(2) by (auto simp: other_def)
  then have d: "cell ?d t i j = cell c t i j"
    using assms other_in [of t] by (simp add: cell_put)
  have "contents ?d = add_mset (cell c t i j) (contents c)"
    using assms other_in [of t] by (intro contents_fill) auto
  moreover have "contents ?d = add_mset (cell ?d t i j) (contents c')"
    unfolding c'_def using assms d by (intro contents_clear) auto
  ultimately have "contents c' = contents c" using d by simp
  moreover have "placed_w w c'" if "placed_w w c"
    unfolding c'_def using assms that other_in [of t] by (intro placed_put) auto
  ultimately show "same_elements_w w c c'"
    using assms(1) by (simp add: same_elements_w_def c'_def)
  show "cell c' t i j = EMPTY"
    unfolding c'_def using assms by (simp add: cell_put)
qed

end

definition locked :: "cuckoo \<Rightarrow> int set \<Rightarrow> cuckoo" where
  "locked c A = c\<lparr>locks := lock_image (capacity c) A\<rparr>"

lemma locked_frame [simp]:
  "shaped (locked c A) = shaped c" "table_of (locked c A) t = table_of c t"
  "capacity (locked c A) = capacity c" "buckets (locked c A) = buckets c"
  "cell (locked c A) = cell c" "home (locked c A) = home c" "contents (locked c A) = contents c"
  "same_elements d (locked c A) = same_elements d c" "same_elements (locked c A) d = same_elements c d"
  "put (locked c A) t i j v = locked (put c t i j v) A" "locked (locked c A) B = locked c B"
  "placed (locked c A) = placed c" "table_wf (locked c A) = table_wf c"
  "readers (locked c A) = readers c" "writer (locked c A) = writer c"
  "rng_state (locked c A) = rng_state c"
  by (simp_all add: locked_def)

lemma unlocked_locked: "unlocked c \<Longrightarrow> locked c {} = c"
  by (simp add: locked_def unlocked_D)

lemma unlocked_locked_iff [simp]: "unlocked (locked c {}) \<longleftrightarrow> \<not> writer c"
  by (simp add: unlocked_def holds_locks_def locked_def)

lemma locks_steps [exec_simps]:
  assumes "in_range i (capacity c)" "in_range j (capacity c)"
  shows "A \<inter> {i, j} = {} \<Longrightarrow>
      with_locks (locked c A) (\<lambda>ls. lock_two ls i j) = Some (locked c (A \<union> {i, j}))"
    and "{i, j} \<subseteq> A \<Longrightarrow>
      with_locks (locked c A) (\<lambda>ls. unlock_two ls i j) = Some (locked c (A - {i, j}))"
    and "in_range k (capacity c) \<Longrightarrow> A \<inter> {i, j, k} = {} \<Longrightarrow>
      with_locks (locked c A) (\<lambda>ls. lock_three ls i j k) = Some (locked c (A \<union> {i, j, k}))"
    and "in_range k (capacity c) \<Longrightarrow> {i, j, k} \<subseteq> A \<Longrightarrow>
      with_locks (locked c A) (\<lambda>ls. unlock_three ls i j k) = Some (locked c (A - {i, j, k}))"
    and "i \<in> A \<Longrightarrow> with_locks (locked c A) (\<lambda>ls. unlock_one ls i) = Some (locked c (A - {i}))"
  using assms by (simp_all add: with_locks_def locked_def exec_simps)

subsection \<open>One displacement\<close>

text \<open>The test that the code makes under the locks before it moves the element.\<close>

definition movable :: "cuckoo \<Rightarrow> path_cell \<Rightarrow> path_cell \<Rightarrow> bool" where
  "movable c to from = (case to of (_, ti, ts) \<Rightarrow> case from of (ft, fi, fs) \<Rightarrow>
     cell c (other ft) ti ts = EMPTY \<and> cell c ft fi fs \<noteq> EMPTY
     \<and> home c (other ft) (cell c ft fi fs) = ti)"

definition move_cell :: "cuckoo \<Rightarrow> path_cell \<Rightarrow> path_cell \<Rightarrow> cuckoo" where
  "move_cell c to from = (case to of (_, ti, ts) \<Rightarrow> case from of (ft, fi, fs) \<Rightarrow>
     put (put c (other ft) ti ts (cell c ft fi fs)) ft fi fs EMPTY)"

lemma move_cell_locked [simp]: "move_cell (locked c A) to from = locked (move_cell c to from) A"
  by (simp add: move_cell_def split: prod.splits)

context two_tables
begin

lemma move_cell_keeps:
  assumes "shaped_w w c" "cell_ok_w w c to" "cell_ok_w w c from" "movable c to from"
  shows "same_elements_w w c (move_cell c to from)" "free_cell (move_cell c to from) from"
  using assms move_keeps [of c] 
  by (auto simp: movable_def move_cell_def cell_ok_w_def free_cell_def split: prod.splits)

end

lemma displace_eq:
  assumes sh: "shaped c" and idx: "in_range idx1 (capacity c)" "in_range idx2 (capacity c)"
    and to: "cell_ok c to" and "from": "cell_ok c from"
  shows "displace (locked c {}) idx1 idx2 final to from =
    Some (if movable c to from
          then (True, locked (move_cell c to from) (if final then {idx1, idx2} else {}))
          else (False, locked c {}))"
proof -
  obtain tt ti ts where t: "to = (tt, ti, ts)" by (cases to)
  obtain ft fi fs where f: "from = (ft, fi, fs)" by (cases "from")
  have r: "in_range ti (capacity c)" "in_range ts WIDTH" "ft \<in> {1, 2}"
    "in_range fi (capacity c)" "in_range fs WIDTH"
    using to "from" by (auto simp: t f cell_ok_w_def)
  have set_eqs: "insert idx1 (insert idx2 {ti}) - {ti} = {idx1, idx2}" if "ti \<noteq> idx1" "ti \<noteq> idx2"
    using that by auto
  have set_eq2: "insert idx1 (insert idx2 {ti}) = {idx1, idx2}" if "ti = idx1 \<or> ti = idx2"
    using that by auto
  have h: "hash (locked c A) v (other ft) = Some (home c (other ft) v)" for v A
    using sh other_in [of ft] by (subst cuckoo_tables.hash_home) simp_all
  have p: "put_element (locked d A) t i j v = Some (locked (put d t i j v) A)"
    if "shaped d" "in_range i (capacity d)" "in_range j WIDTH" for d A t i j v
    using that by (subst cuckoo_tables.put_element_put) auto
  show ?thesis
  proof (cases final)
    case True
    with sh idx r show ?thesis
      by (auto simp: displace_def movable_def move_cell_def t f exec_simps h p set_eqs set_eq2
          insert_commute)
  next
    case False
    with sh idx r show ?thesis
      by (auto simp: displace_def movable_def move_cell_def t f exec_simps h p)
  qed
qed

subsection \<open>The displacement loop\<close>

lemma move_path_keeps:
  assumes "shaped c" "in_range idx1 (capacity c)" "in_range idx2 (capacity c)"
    and "\<forall>x\<in>set cs. cell_ok c x" "2 \<le> length cs"
  shows "\<exists>ok d. move_path (locked c {}) idx1 idx2 cs =
           Some (ok, locked d (if ok then {idx1, idx2} else {}))
         \<and> same_elements c d \<and> rng_state d = rng_state c \<and> (ok \<longrightarrow> free_cell d (List.last cs))"
  using assms
proof (induction cs arbitrary: c rule: induct_list012)
  case (3 to "from" rest)
  have ok: "cell_ok c to" "cell_ok c from" using "3.prems" by auto
  note d = displace_eq [OF "3.prems"(1-3) ok]
  show ?case
  proof (cases "movable c to from")
    case False
    with d "3.prems" show ?thesis by (intro exI [of _ False] exI [of _ c]) simp
  next
    case True
    let ?d = "move_cell c to from"
    note keep = cuckoo_tables.move_cell_keeps [OF "3.prems"(1) ok True]
    have rng: "rng_state ?d = rng_state c" by (simp add: move_cell_def split: prod.splits)
    show ?thesis
    proof (cases "rest = []")
      case True
      with d \<open>movable c to from\<close> keep rng show ?thesis
        by (intro exI [of _ True] exI [of _ ?d]) simp
    next
      case False
      then have len: "2 \<le> length (from # rest)" by (cases rest) auto
      have cap: "capacity ?d = capacity c" using same_elements_D(2) [OF keep(1)] .
      have oks: "\<forall>x\<in>set (from # rest). cell_ok ?d x"
        using "3.prems"(4) cell_ok_same [OF keep(1)] by simp
      have "in_range idx1 (capacity ?d)" "in_range idx2 (capacity ?d)"
        using "3.prems"(2,3) cap by simp_all
      from "3.IH"(2) [OF same_elements_D(1) [OF keep(1)] this oks len]
      obtain k e where "move_path (locked ?d {}) idx1 idx2 (from # rest) =
          Some (k, locked e (if k then {idx1, idx2} else {}))"
        "same_elements ?d e" "rng_state e = rng_state ?d" "k \<longrightarrow> free_cell e (List.last (from # rest))"
        by blast
      with d \<open>movable c to from\<close> False rng same_elements_trans [OF keep(1)] show ?thesis
        by (intro exI [of _ k] exI [of _ e]) simp
    qed
  qed
qed auto

subsection \<open>Following the path\<close>

context two_tables
begin

lemma follow_path_ok:
  assumes "shaped_w w c" "t \<in> {1, 2}" "in_range i (capacity c)" "ss \<noteq> []" "\<forall>s\<in>set ss. in_range s w"
  shows "\<exists>cs. follow_path c t i ss = Some cs \<and> cs \<noteq> [] \<and> fst (hd cs) = t \<and> fst (snd (hd cs)) = i
           \<and> (\<forall>x\<in>set cs. cell_ok_w w c x)"
  using assms(2-5)
proof (induction ss arbitrary: t i)
  case (Cons s ss)
  have here: "cell_ok_w w c (t, i, s)" using Cons.prems by (simp add: cell_ok_w_def)
  show ?case
  proof (cases "cell c t i s = EMPTY \<or> ss = []")
    case True
    with here assms(1) Cons.prems show ?thesis by (auto simp: exec_simps)
  next
    case False
    let ?i = "home c (other t) (cell c t i s)"
    have "in_range ?i (capacity c)" using assms(1) by simp
    with Cons.IH [of "other t" ?i] False Cons.prems obtain cs
      where "follow_path c (other t) ?i ss = Some cs" "\<forall>x\<in>set cs. cell_ok_w w c x" by auto
    moreover have "hash c (cell c t i s) (other t) = Some ?i"
      using assms(1) other_in [of t] by (subst hash_home) simp_all
    ultimately show ?thesis
      using here assms(1) Cons.prems False by (simp add: exec_simps)
  qed
qed simp

end

lemma follow_path_rng [simp]: "follow_path (c\<lparr>rng_state := r\<rparr>) = follow_path c"
proof -
  have "hash (c\<lparr>rng_state := r\<rparr>) = hash c" by (simp add: hash_def fun_eq_iff)
  then have "follow_path (c\<lparr>rng_state := r\<rparr>) t i ss = follow_path c t i ss" for t i ss
    by (induction ss arbitrary: t i) (simp_all cong: if_cong)
  then show ?thesis by (simp add: fun_eq_iff)
qed

subsection \<open>One attempt\<close>

text \<open>What the caller of the private \<open>insert\<close> may rely on, for any two bucket indices in range.\<close>

definition attempt_result :: "cuckoo \<Rightarrow> u32 \<Rightarrow> int \<Rightarrow> int \<Rightarrow> result \<Rightarrow> cuckoo \<Rightarrow> bool" where
  "attempt_result c val idx1 idx2 r c' \<longleftrightarrow> same_elements c c' \<and>
     (case res_status r of
        DUPLICATE \<Rightarrow> locks c' = lock_image (capacity c) {}
          \<and> (val \<in> set (table_of c 1 ! nat idx1) \<or> val \<in> set (table_of c 2 ! nat idx2))
      | SUCCESS \<Rightarrow> locks c' = lock_image (capacity c) {idx1, idx2}
          \<and> val \<notin> set (table_of c 1 ! nat idx1) \<and> val \<notin> set (table_of c 2 ! nat idx2)
          \<and> (res_table r, res_index r) \<in> {(1, idx1), (2, idx2)} \<and> in_range (res_slot r) WIDTH
          \<and> cell c' (res_table r) (res_index r) (res_slot r) = EMPTY
      | _ \<Rightarrow> locks c' = lock_image (capacity c) {}
          \<and> val \<notin> set (table_of c 1 ! nat idx1) \<and> val \<notin> set (table_of c 2 ! nat idx2))"

definition claimed :: "cuckoo \<Rightarrow> int \<Rightarrow> int \<Rightarrow> path_cell \<Rightarrow> result \<Rightarrow> cuckoo \<Rightarrow> bool" where
  "claimed c idx1 idx2 x r d \<longleftrightarrow> same_elements c d \<and>
     ((r = Result RETRY 0 0 0 \<and> locks d = lock_image (capacity c) {})
      \<or> (r = (case x of (t, i, s) \<Rightarrow> Result SUCCESS t i s) \<and> free_cell d x
         \<and> locks d = lock_image (capacity c) {idx1, idx2}))"

lemma claim_path_ok:
  assumes "shaped c" "in_range idx1 (capacity c)" "in_range idx2 (capacity c)"
    and "\<forall>x\<in>set (x # cs). cell_ok c x"
  shows "\<exists>r d. claim_path (locked c {}) idx1 idx2 (x # cs) = Some (r, d) \<and> claimed c idx1 idx2 x r d"
proof -
  obtain t i s where x: "x = (t, i, s)" by (cases x)
  have here: "t \<in> {1, 2}" "in_range i (capacity c)" "in_range s WIDTH"
    using assms(4) by (auto simp: x cell_ok_w_def)
  show ?thesis
  proof (cases cs)
    case Nil
    with assms here show ?thesis
      by (simp add: claim_path_def x exec_simps claimed_def free_cell_def)
         (simp add: locked_def)
  next
    case (Cons y ys)
    have "2 \<le> length (rev (x # cs))" "\<forall>z\<in>set (rev (x # cs)). cell_ok c z"
      using assms(4) Cons by auto
    from move_path_keeps [OF assms(1-3) this(2,1)]
    obtain ok d where d: "move_path (locked c {}) idx1 idx2 (rev (x # cs)) =
        Some (ok, locked d (if ok then {idx1, idx2} else {}))"
      "same_elements c d" "ok \<longrightarrow> free_cell d x" by auto
    have "locks (locked d A) = lock_image (capacity c) A" for A
      using same_elements_D(2) [OF d(2)] by (simp add: locked_def)
    with d show ?thesis
      by (simp add: claim_path_def x Cons claimed_def free_cell_def)
  qed
qed

lemma claimed_result:
  assumes "claimed c idx1 idx2 (t, i, s) r d" "(t, i) \<in> {(1, idx1), (2, idx2)}" "in_range s WIDTH"
    and "val \<notin> set (table_of c 1 ! nat idx1)" "val \<notin> set (table_of c 2 ! nat idx2)"
  shows "attempt_result c val idx1 idx2 r d"
  using assms by (auto simp: claimed_def attempt_result_def free_cell_def)

lemma attempt_result_locked [simp]:
  "attempt_result (locked c A) val idx1 idx2 = attempt_result c val idx1 idx2"
  by (simp add: attempt_result_def fun_eq_iff split: STATUS.split)

lemma attempt_result_rng [simp]:
  "attempt_result (c\<lparr>rng_state := r\<rparr>) val idx1 idx2 = attempt_result c val idx1 idx2"
  by (simp add: attempt_result_def fun_eq_iff split: STATUS.split)

text \<open>The part of an attempt after both buckets were found full.\<close>

lemma displaced_ok:
  assumes sh: "shaped c" and idx: "in_range idx1 (capacity c)" "in_range idx2 (capacity c)"
    and found: "found_point c idx1 idx2 p"
    and absent: "val \<notin> set (table_of c 1 ! nat idx1)" "val \<notin> set (table_of c 2 ! nat idx2)"
  shows "\<exists>slots rest path r d. decode_path p = Some (slots, rest)
      \<and> (if rest = 0 then follow_path c 1 idx1 slots else follow_path c 2 idx2 slots) = Some path
      \<and> claim_path (locked c {}) idx1 idx2 path = Some (r, d) \<and> attempt_result c val idx1 idx2 r d"
proof -
  obtain rt ss s where dec: "decode_path p = Some (ss @ [s], rt)" "rt \<in> {0, 1}"
    "\<forall>s\<in>set (ss @ [s]). in_range s WIDTH"
    using decode_found [OF found] by blast
  define t i where "t = fst (root idx1 idx2 rt)" and "i = snd (root idx1 idx2 rt)"
  have ti: "(t, i) \<in> {(1, idx1), (2, idx2)}" by (auto simp: t_def i_def root_def)
  have r: "t \<in> {1, 2}" "in_range i (capacity c)" using idx ti by auto
  obtain x cs where path: "follow_path c t i (ss @ [s]) = Some (x # cs)"
    and x: "fst x = t" "fst (snd x) = i" and ok: "\<forall>z\<in>set (x # cs). cell_ok c z"
    using cuckoo_tables.follow_path_ok [OF sh r _ dec(3)] by (auto simp: neq_Nil_conv)
  obtain u where u: "x = (t, i, u)" using x by (cases x) auto
  obtain rs d where "claim_path (locked c {}) idx1 idx2 (x # cs) = Some (rs, d)"
    and cl: "claimed c idx1 idx2 x rs d"
    using claim_path_ok [OF sh idx ok] by blast
  moreover have "in_range u WIDTH" using ok u by (simp add: cell_ok_w_def)
  then have "attempt_result c val idx1 idx2 rs d"
    using cl ti absent unfolding u by (intro claimed_result) auto
  ultimately show ?thesis
    using dec path by (auto simp: t_def i_def root_def)
qed

lemma search_locked:
  assumes "shaped c" "in_range idx1 (capacity c)" "in_range idx2 (capacity c)"
  shows "\<exists>p r'. search (locked c A) idx1 idx2 = Some (p, locked (c\<lparr>rng_state := r'\<rparr>) A)
               \<and> (p = no_point \<or> found_point (c\<lparr>rng_state := r'\<rparr>) idx1 idx2 p)"
proof -
  from assms obtain p r' where "search (locked c A) idx1 idx2 = Some (p, (locked c A)\<lparr>rng_state := r'\<rparr>)"
    and p: "p = no_point \<or> found_point (locked c A) idx1 idx2 p"
    using search_ok [of "locked c A" idx1 idx2] by auto
  moreover have "chain_end (locked c A) ti ss = chain_end (c\<lparr>rng_state := r'\<rparr>) ti ss" for ti ss
    by (induction "c\<lparr>rng_state := r'\<rparr>" ti ss rule: chain_end.induct) auto
  then have "found_point (locked c A) idx1 idx2 p = found_point (c\<lparr>rng_state := r'\<rparr>) idx1 idx2 p"
    by (simp only: found_point_def locked_frame cell_frame)
  ultimately show ?thesis using p
    by (intro exI [of _ p] exI [of _ r']) (simp add: locked_def)
qed

lemma slot_of_locked [simp]: "slot_of (locked c A) = slot_of c"
  by (simp add: slot_of_def fun_eq_iff)

lemma follow_path_locked [simp]: "follow_path (locked c A) = follow_path c"
proof -
  have "hash (locked c A) = hash c" by (simp add: hash_def fun_eq_iff)
  then have "follow_path (locked c A) t i ss = follow_path c t i ss" for t i ss
    by (induction ss arbitrary: t i) (simp_all cong: if_cong)
  then show ?thesis by (simp add: fun_eq_iff)
qed

abbreviation free_slot :: "cuckoo \<Rightarrow> int \<Rightarrow> int \<Rightarrow> int" where
  "free_slot c t i \<equiv> slot_of c t (\<lambda>x. \<not> occupied x) i"

text \<open>The branches of an attempt under the bucket locks, and the rest of it.\<close>

lemma insert_once_eq:
  assumes "shaped c" "in_range idx1 (capacity c)" "in_range idx2 (capacity c)"
  shows "insert_once (locked c {}) val idx1 idx2 =
    (if val \<in> set (table_of c 1 ! nat idx1) \<or> val \<in> set (table_of c 2 ! nat idx2)
     then Some (Result DUPLICATE 0 0 0, locked c {})
     else if free_slot c 1 idx1 \<noteq> -1
     then Some (Result SUCCESS 1 idx1 (free_slot c 1 idx1), locked c {idx1, idx2})
     else if free_slot c 2 idx2 \<noteq> -1
     then Some (Result SUCCESS 2 idx2 (free_slot c 2 idx2), locked c {idx1, idx2})
     else do { (point, c) \<leftarrow> search (locked c {}) idx1 idx2;
               if pt_pathcode point = -1 then Some (Result RESIZE 0 0 0, c)
               else do { (slots, rest) \<leftarrow> decode_path point;
                         path \<leftarrow> (if rest = 0 then follow_path c 1 idx1 slots
                                  else follow_path c 2 idx2 slots);
                         claim_path c idx1 idx2 path } })"
  using assms
  by (cases "val \<in> set (table_of c 1 ! nat idx1)"; cases "val \<in> set (table_of c 2 ! nat idx2)";
      cases "free_slot c 1 idx1 = -1"; cases "free_slot c 2 idx2 = -1")
     (simp_all add: insert_once_def table_of_12 exec_simps)

lemma locks_locked [simp]: "locks (locked c A) = lock_image (capacity c) A"
  by (simp add: locked_def)

lemma insert_once_ok:
  assumes sh: "shaped c" and idx: "in_range idx1 (capacity c)" "in_range idx2 (capacity c)"
  shows "\<exists>r d. insert_once (locked c {}) val idx1 idx2 = Some (r, d)
             \<and> attempt_result c val idx1 idx2 r d"
proof (cases "val \<in> set (table_of c 1 ! nat idx1) \<or> val \<in> set (table_of c 2 ! nat idx2)
    \<or> free_slot c 1 idx1 \<noteq> -1 \<or> free_slot c 2 idx2 \<noteq> -1")
  case True
  with cuckoo_tables.slot_of_found [OF sh idx(1), of 1 "\<lambda>x. \<not> occupied x"]
    cuckoo_tables.slot_of_found [OF sh idx(2), of 2 "\<lambda>x. \<not> occupied x"]
  show ?thesis using sh by (auto simp: insert_once_eq [OF assms] attempt_result_def occupied_def)
next
  case False
  obtain p r' where p: "search (locked c {}) idx1 idx2 = Some (p, locked (c\<lparr>rng_state := r'\<rparr>) {})"
    and found: "p = no_point \<or> found_point (c\<lparr>rng_state := r'\<rparr>) idx1 idx2 p"
    using search_locked [OF assms] by blast
  show ?thesis
  proof (cases "p = no_point")
    case True
    with False sh p show ?thesis
      by (simp add: insert_once_eq [OF assms] attempt_result_def no_point_def)
  next
    case np: False
    with found have fp: "found_point (c\<lparr>rng_state := r'\<rparr>) idx1 idx2 p" by simp
    from decode_found [OF this] have "pt_pathcode p \<noteq> -1" by blast
    moreover have "shaped (c\<lparr>rng_state := r'\<rparr>)" "in_range idx1 (capacity (c\<lparr>rng_state := r'\<rparr>))"
      "in_range idx2 (capacity (c\<lparr>rng_state := r'\<rparr>))" using sh idx by simp_all
    from displaced_ok [OF this fp, of val, unfolded follow_path_rng] False obtain slots rest path r d
      where "decode_path p = Some (slots, rest)"
        "(if rest = 0 then follow_path c 1 idx1 slots else follow_path c 2 idx2 slots) = Some path"
        "claim_path (locked (c\<lparr>rng_state := r'\<rparr>) {}) idx1 idx2 path = Some (r, d)"
        "attempt_result c val idx1 idx2 r d"
      by auto
    ultimately show ?thesis
      using False p by (cases "rest = 0") (simp_all add: insert_once_eq [OF assms])
  qed
qed

end
