(* ===== verification/CuckooLoop.thy ===== *)
theory CuckooLoop
  imports CuckooInsert
begin

text \<open>
  The retry loop of the public \<open>insert\<close> of CuckooHash/Cuckoo.hpp, and what \<open>resize\<close> copies.

  Lemmas: an attempt returns, and changes the elements only by the new one; the loop refines
  insertion into the multiset of elements as long as no attempt resized the table, which shows
  in \<open>buckets\<close> (every resize doubles it, and no number of doublings of a 32-bit word other than 0
  gives it back); a resize keeps exactly the elements of the first half of the old buckets.
\<close>

subsection \<open>One attempt of the loop\<close>

lemma unlocked_readers [simp]: "unlocked (c\<lparr>readers := n\<rparr>) = unlocked c"
  by (simp add: unlocked_def holds_locks_def)

text \<open>The state between the reader lock's acquisition and its release.\<close>

definition with_reader :: "cuckoo \<Rightarrow> cuckoo" where
  "with_reader c = c\<lparr>readers := Suc (readers c)\<rparr>"

lemma with_reader_frame [simp]:
  "shaped (with_reader c) = shaped c" "placed (with_reader c) = placed c"
  "table_of (with_reader c) t = table_of c t" "capacity (with_reader c) = capacity c"
  "buckets (with_reader c) = buckets c" "cell (with_reader c) = cell c" "home (with_reader c) = home c"
  "contents (with_reader c) = contents c" "unlocked (with_reader c) = unlocked c"
  "writer (with_reader c) = writer c" "readers (with_reader c) = Suc (readers c)"
  by (simp_all add: with_reader_def unlocked_readers)

lemma rdlock_reader: "unlocked c \<Longrightarrow> rdlock c = Some (locked (with_reader c) {})"
  by (simp add: rdlock_def with_reader_def unlocked_D locked_def)

definition released :: "cuckoo \<Rightarrow> cuckoo" where
  "released d = d\<lparr>readers := readers d - 1\<rparr>"

lemma released_frame [simp]:
  "shaped (released c) = shaped c" "placed (released c) = placed c" "table_wf (released c) = table_wf c"
  "capacity (released c) = capacity c" "buckets (released c) = buckets c"
  "contents (released c) = contents c" "unlocked (released c) = unlocked c"
  "locks (released c) = locks c" "readers (released c) = readers c - 1" "writer (released c) = writer c"
  by (simp_all add: released_def)

lemma rwunlock_released: "\<not> writer d \<Longrightarrow> readers d \<noteq> 0 \<Longrightarrow> rwunlock d = Some (released d)"
  by (simp add: rwunlock_def released_def)

definition quiet :: "cuckoo \<Rightarrow> cuckoo \<Rightarrow> bool" where
  "quiet c d \<longleftrightarrow> table_wf d \<and> unlocked d \<and> buckets d = buckets c \<and> readers d = readers c"

text \<open>The four ways an attempt can end.\<close>

datatype attempt_end = Was_there | Inserted cuckoo | Again cuckoo | Resizes cuckoo

definition ends_as :: "cuckoo \<Rightarrow> u32 \<Rightarrow> attempt_end \<Rightarrow> (bool option \<times> cuckoo) option \<Rightarrow> bool" where
  "ends_as c v e res = (case e of
       Was_there \<Rightarrow> v \<in># contents c \<and> (\<exists>d. res = Some (Some False, d) \<and> quiet c d \<and> contents d = contents c)
     | Inserted d \<Rightarrow> v \<notin># contents c \<and> res = Some (Some True, d) \<and> quiet c d
         \<and> contents d = add_mset v (contents c)
     | Again d \<Rightarrow> v \<notin># contents c \<and> res = Some (None, d) \<and> quiet c d \<and> contents d = contents c
     | Resizes d \<Rightarrow> v \<notin># contents c \<and> quiet c d \<and> contents d = contents c
         \<and> res = map_option (Pair None) (resize (buckets d) d))"

fun end_status :: "attempt_end \<Rightarrow> STATUS" where
  "end_status Was_there = DUPLICATE"
| "end_status (Inserted d) = SUCCESS"
| "end_status (Again d) = RETRY"
| "end_status (Resizes d) = RESIZE"

lemma attempt_ends_as:
  assumes wf: "table_wf c" and un: "unlocked c" and v: "v \<noteq> EMPTY"
    and r: "insert_once (locked (with_reader c) {}) v (home c 1 v) (home c 2 v) = Some (r, d)"
  shows "\<exists>e. end_status e = res_status r \<and> ends_as c v e (insert_attempt c v (home c 1 v) (home c 2 v))"
proof -
  note sh = table_wf_D [OF wf]
  let ?i = "home c 1 v" and ?j = "home c 2 v" and ?c = "with_reader c"
  have idx: "in_range ?i (capacity ?c)" "in_range ?j (capacity ?c)" using sh by simp_all
  have "shaped ?c" using sh by simp
  from insert_once_ok [OF this idx, of v] r have at: "attempt_result ?c v ?i ?j r d" by simp
  have mem: "v \<in># contents c \<longleftrightarrow>
      v \<in> set (table_of c 1 ! nat ?i) \<or> v \<in> set (table_of c 2 ! nat ?j)"
    using cuckoo_tables.in_contents_home [OF wf v] by (simp add: table_of_12)
  from at have same: "same_elements ?c d" by (simp add: attempt_result_def)
  note sameD = same_elements_D [OF same]
  have wd: "\<not> writer d" "readers d = Suc (readers c)" "placed d"
    using same sh un by (simp_all add: same_elements_w_def unlocked_def)
  have cap: "capacity d = capacity c" "contents d = contents c" "buckets d = buckets c" "home d = home c"
    using sameD by simp_all
  have q: "quiet c (released d)" if "locks d = lock_image (capacity c) {}"
    using that wd sameD(1) cap
    by (simp add: quiet_def table_wf_w_def unlocked_def holds_locks_def)
  show ?thesis
  proof (cases "res_status r")
    case DUPLICATE
    with at have "locks d = lock_image (capacity c) {}" "v \<in># contents c"
      using mem by (auto simp: attempt_result_def)
    with q DUPLICATE r wd un cap show ?thesis
      by (intro exI [of _ Was_there])
         (simp add: ends_as_def insert_attempt_def rdlock_reader rwunlock_released)
  next
    case RETRY
    with at have "locks d = lock_image (capacity c) {}" "v \<notin># contents c"
      using mem by (auto simp: attempt_result_def)
    with q RETRY r wd un cap show ?thesis
      by (intro exI [of _ "Again (released d)"])
         (simp add: ends_as_def insert_attempt_def rdlock_reader rwunlock_released)
  next
    case RESIZE
    with at have "locks d = lock_image (capacity c) {}" "v \<notin># contents c"
      using mem by (auto simp: attempt_result_def)
    with q RESIZE r wd un cap show ?thesis
      by (intro exI [of _ "Resizes (released d)"])
         (auto simp: ends_as_def insert_attempt_def rdlock_reader rwunlock_released
           map_conv_bind_option comp_def)
  next
    case SUCCESS
    let ?t = "res_table r" and ?k = "res_index r" and ?s = "res_slot r"
    from SUCCESS at have lk: "locks d = lock_image (capacity c) {?i, ?j}" and new: "v \<notin># contents c"
      and tk: "(?t, ?k) \<in> {(1, ?i), (2, ?j)}" and s: "in_range ?s WIDTH" and free: "cell d ?t ?k ?s = EMPTY"
      using mem by (auto simp: attempt_result_def)
    have t: "?t \<in> {1, 2}" "?k = home d ?t v" "in_range ?k (capacity d)"
      using tk cap sh by auto
    let ?e = "put d ?t ?k ?s v"
    have d: "d = locked d {?i, ?j}" using lk cap by (simp add: locked_def)
    have "put_element d ?t ?k ?s v = Some (locked ?e {?i, ?j})"
      using sameD(1) t s by (subst d) (simp only: cuckoo_tables.put_element_put locked_frame shaped_put)
    moreover have "with_locks (locked ?e {?i, ?j}) (\<lambda>ls. unlock_two ls ?i ?j) = Some (locked ?e {})"
      using idx cap by (subst locks_steps(2)) auto
    ultimately have "insert_attempt c v ?i ?j = Some (Some True, released (locked ?e {}))"
      using SUCCESS r wd un by (simp add: insert_attempt_def rdlock_reader rwunlock_released)
    moreover have "table_wf ?e"
      using sameD(1) wd t s by (intro cuckoo_tables.table_wf_put) (auto simp: table_wf_w_def)
    moreover have "contents ?e = add_mset v (contents c)"
      using sameD(1) t s free v cap by (subst cuckoo_tables.contents_fill) auto
    ultimately show ?thesis
      using new wd cap SUCCESS
      by (intro exI [of _ "Inserted (released (locked ?e {}))"]) (simp add: ends_as_def quiet_def)
  qed
qed

lemma attempt_ends:
  assumes "table_wf c" "unlocked c" "v \<noteq> EMPTY"
  shows "\<exists>e. ends_as c v e (insert_attempt c v (home c 1 v) (home c 2 v))"
proof -
  have "shaped (with_reader c)" "in_range (home c t v) (capacity (with_reader c))" for t
    using table_wf_D [OF assms(1)] by simp_all
  then obtain r d where "insert_once (locked (with_reader c) {}) v (home c 1 v) (home c 2 v) = Some (r, d)"
    using insert_once_ok [of "with_reader c" "home c 1 v" "home c 2 v" v] by blast
  from attempt_ends_as [OF assms this] show ?thesis by blast
qed

subsection \<open>The number of buckets in any run of an attempt\<close>

lemma buckets_frames:
  "rdlock c = Some d \<Longrightarrow> buckets d = buckets c"
  "wrlock c = Some d \<Longrightarrow> buckets d = buckets c"
  "rwunlock c = Some d \<Longrightarrow> buckets d = buckets c"
  "with_locks c f = Some d \<Longrightarrow> buckets d = buckets c"
  "put_element c t i j v = Some d \<Longrightarrow> buckets d = buckets c"
  "search c i j = Some (p, d) \<Longrightarrow> buckets d = buckets c"
  by (auto simp: rdlock_def wrlock_def rwunlock_def with_locks_def put_element_def search_def
      split: if_splits)

lemma buckets_displace: "displace c i j b to from = Some (ok, d) \<Longrightarrow> buckets d = buckets c"
  by (auto simp: displace_def dest!: buckets_frames split: prod.splits if_splits)

lemma buckets_move_path: "move_path c i j cs = Some (ok, d) \<Longrightarrow> buckets d = buckets c"
proof (induction c i j cs rule: move_path.induct)
  case (1 c i j to "from" rest)
  from "1.prems" obtain k e where e: "displace c i j (rest = []) to from = Some (k, e)"
    and "(if k then move_path e i j (from # rest) else Some (False, e)) = Some (ok, d)"
    by auto
  with "1.IH" [OF e refl] buckets_displace [OF e] show ?case by (cases k) simp_all
qed auto

lemma buckets_claim_path: "claim_path c i j cs = Some (r, d) \<Longrightarrow> buckets d = buckets c"
  by (auto simp: claim_path_def dest!: buckets_frames buckets_move_path
      split: list.splits if_splits prod.splits)

lemma buckets_insert_once: "insert_once c v i j = Some (r, d) \<Longrightarrow> buckets d = buckets c"
  by (auto simp: insert_once_def dest!: buckets_frames buckets_claim_path split: if_splits)

lemma buckets_resize: "resize n c = Some d \<Longrightarrow> buckets d = buckets c \<or> buckets d = buckets c * 2"
  by (auto simp: resize_def Let_def dest!: buckets_frames split: if_splits)

lemma buckets_attempt:
  assumes "insert_attempt c v i j = Some (r, d)"
  shows "buckets d = buckets c \<or> buckets d = buckets c * 2"
proof -
  from assms obtain x q e where "rdlock c = Some x" "insert_once x v i j = Some (q, e)"
    by (auto simp: insert_attempt_def)
  with assms show ?thesis
    by (cases "res_status q")
       (auto simp: insert_attempt_def dest!: buckets_frames buckets_insert_once buckets_resize)
qed

lemma buckets_loop:
  "insert_loop fuel c v i j = Done (b, d) \<Longrightarrow> \<exists>k. buckets d = buckets c * 2 ^ k"
proof (induction fuel arbitrary: c)
  case (Suc fuel)
  from Suc.prems obtain r e where a: "insert_attempt c v i j = Some (r, e)"
    by (auto split: option.splits)
  have "\<exists>k. buckets e = buckets c * 2 ^ k"
    using buckets_attempt [OF a] by (auto intro: exI [of _ 0] exI [of _ "1 :: nat"])
  then obtain k where k: "buckets e = buckets c * 2 ^ k" ..
  show ?case
  proof (cases r)
    case None
    with a Suc obtain m where "buckets d = buckets e * 2 ^ m" by auto
    with k have "buckets d = buckets c * 2 ^ (k + m)" by (simp add: power_add)
    then show ?thesis ..
  next
    case (Some b')
    with a Suc.prems k show ?thesis by auto
  qed
qed simp

text \<open>Doubling cannot come round to a non-zero value.\<close>

lemma doublings_differ:
  assumes "(b :: u32) * 2 * 2 ^ k = b"
  shows "b = 0"
proof -
  have step: "b * 2 ^ Suc k = b" using assms by (simp add: mult.assoc)
  have "b * (2 ^ Suc k) ^ n = b" for n
  proof (induction n)
    case (Suc n)
    have "b * (2 ^ Suc k) ^ Suc n = (b * 2 ^ Suc k) * (2 ^ Suc k) ^ n" by (simp only: power_Suc mult.assoc)
    then show ?case by (simp only: step Suc)
  qed simp
  then have "b = b * (2 ^ 32) ^ Suc k"
    by (metis power_mult mult.commute)
  also have "(2 ^ 32 :: u32) = 0" by simp
  finally show ?thesis by simp
qed

subsection \<open>The loop refines insertion into the multiset\<close>

lemma resize_doubles:
  "resize (buckets c) c = Some d \<Longrightarrow> buckets d = buckets c * 2"
  by (auto simp: resize_def Let_def dest!: buckets_frames)

lemma quiet_trans: "quiet c d \<Longrightarrow> quiet d e \<Longrightarrow> quiet c e"
  by (simp add: quiet_def)

lemma insert_loop_correct:
  assumes "table_wf c" "unlocked c" "v \<noteq> EMPTY"
    and "insert_loop fuel c v (home c 1 v) (home c 2 v) = Done (b, d)" "buckets d = buckets c"
  shows "b = (v \<notin># contents c) \<and> quiet c d
       \<and> contents d = (if b then add_mset v (contents c) else contents c)"
  using assms
proof (induction fuel arbitrary: c)
  case (Suc fuel)
  obtain e where e: "ends_as c v e (insert_attempt c v (home c 1 v) (home c 2 v))"
    using attempt_ends [OF Suc.prems(1-3)] ..
  show ?case
  proof (cases e)
    case (Again x)
    with e have x: "v \<notin># contents c" "quiet c x" "contents x = contents c"
      and a: "insert_attempt c v (home c 1 v) (home c 2 v) = Some (None, x)"
      by (auto simp: ends_as_def)
    then have "home x = home c" "buckets x = buckets c" "table_wf x" "unlocked x"
      by (auto simp: quiet_def intro: home_cong)
    with Suc.IH [of x] Suc.prems a x show ?thesis by (auto intro: quiet_trans)
  next
    case (Resizes x)
    with e have x: "quiet c x"
      and a: "insert_attempt c v (home c 1 v) (home c 2 v) = map_option (Pair None) (resize (buckets x) x)"
      by (auto simp: ends_as_def)
    with Suc.prems obtain y where y: "resize (buckets x) x = Some y"
      and l: "insert_loop fuel y v (home c 1 v) (home c 2 v) = Done (b, d)"
      by (auto split: option.splits)
    have "buckets y = buckets c * 2" using resize_doubles [OF y] x by (simp add: quiet_def)
    with buckets_loop [OF l] obtain k where "buckets d = buckets c * 2 * 2 ^ k" by auto
    with Suc.prems have "buckets c = 0" by (intro doublings_differ [of _ k]) simp
    with Suc.prems show ?thesis by (auto dest: table_wf_D cuckoo_tables.shaped_buckets)
  qed (use e Suc.prems in \<open>auto simp: ends_as_def\<close>)
qed simp

subsection \<open>What resize copies\<close>

lemma stored_Cons: "stored (b # tbl) = filter_mset (\<lambda>v. v \<noteq> 0) (mset b) + stored tbl"
  by (simp add: stored_def)

lemma stored_append: "stored (xs @ ys) = stored xs + stored ys"
  by (simp add: stored_def)

lemma copy_element_stores:
  assumes "rect n WIDTH t" "copy_element c f t v = Some t'"
  shows "rect n WIDTH t' \<and> stored t' = stored t + (if v \<noteq> 0 then {#v#} else {#})"
proof (cases "occupied v")
  case True
  with assms(2) obtain idx slot where s: "Table_isAvailable t idx = Some slot" "set2 t idx slot v = Some t'"
    by (auto simp: copy_element_def)
  then have idx: "in_range idx n" using assms(1) by (auto simp: Table_isAvailable_def at_Some_iff rect_length)
  then have row: "length (t ! nat idx) = WIDTH" using assms(1) by (intro rect_row) auto
  from s idx assms(1) have sl: "slot = slot_loop (\<lambda>x. \<not> occupied x) 0 (t ! nat idx)"
    by (auto simp: Table_isAvailable_def at_Some_iff)
  have slot: "in_range slot WIDTH"
    using s(2) idx row by (auto simp: set2_def at_Some_iff upd_Some_iff)
  then have free: "t ! nat idx ! nat slot = 0"
    using slot_loop_first [OF sl [symmetric]] by (auto simp: occupied_def EMPTY_def)
  from s(2) slot idx assms(1) have "t' = put2 t (nat idx) (nat slot) v" by (simp add: set2_in)
  moreover have "nat idx < n" "nat slot < WIDTH" using idx slot by auto
  ultimately show ?thesis
    using stored_fill [OF assms(1) _ _ free, of v] True assms(1)
    by (auto simp: occupied_def EMPTY_def)
qed (use assms in \<open>auto simp: copy_element_def occupied_def EMPTY_def\<close>)

lemma copy_slots_stores:
  assumes "rect n WIDTH t1" "rect n WIDTH t2" "length r1 = length r2"
    and "copy_slots c r1 r2 t1 t2 = Some (t1', t2')"
  shows "rect n WIDTH t1' \<and> rect n WIDTH t2'
       \<and> stored t1' = stored t1 + filter_mset (\<lambda>v. v \<noteq> 0) (mset r1)
       \<and> stored t2' = stored t2 + filter_mset (\<lambda>v. v \<noteq> 0) (mset r2)"
  using assms
proof (induction c r1 r2 t1 t2 rule: copy_slots.induct)
  case (1 c v1 r1 v2 r2 t1 t2)
  then obtain u1 u2 where u: "copy_element c 1 t1 v1 = Some u1" "copy_element c 2 t2 v2 = Some u2"
    and rest: "copy_slots c r1 r2 u1 u2 = Some (t1', t2')" by auto
  note s1 = copy_element_stores [OF 1(2) u(1)] and s2 = copy_element_stores [OF 1(3) u(2)]
  from 1(1) [OF u conjunct1 [OF s1] conjunct1 [OF s2] _ rest] 1(4) s1 s2 show ?case
    by (auto simp: ac_simps)
qed auto

lemma copy_rows_stores:
  assumes "rect n WIDTH t1" "rect n WIDTH t2" "shaped c" "\<forall>i\<in>set is. in_range i (capacity c)"
    and "table1 c' = table1 c" "table2 c' = table2 c"
    and "copy_rows c' is t1 t2 = Some (t1', t2')"
  shows "rect n WIDTH t1' \<and> rect n WIDTH t2'
       \<and> stored t1' = stored t1 + stored (map (\<lambda>i. table1 c ! nat i) is)
       \<and> stored t2' = stored t2 + stored (map (\<lambda>i. table2 c ! nat i) is)"
  using assms(1,2,4,7)
proof (induction "is" arbitrary: t1 t2)
  case Nil
  then show ?case by (simp add: stored_def)
next
  case (Cons i "is")
  from Cons.prems have i: "in_range i (capacity c)" by simp
  have rows: "length (table1 c ! nat i) = length (table2 c ! nat i)"
    using cuckoo_tables.row_length [OF assms(3) i, of 1] cuckoo_tables.row_length [OF assms(3) i, of 2] by (simp add: table_of_def)
  from Cons.prems obtain u1 u2
    where s: "copy_slots c' (table1 c ! nat i) (table2 c ! nat i) t1 t2 = Some (u1, u2)"
    and rest: "copy_rows c' is u1 u2 = Some (t1', t2')"
    using assms(5,6) by (auto simp: at_Some_iff)
  note s1 = copy_slots_stores [OF Cons.prems(1,2) rows s]
  from s1 Cons.IH [OF _ _ _ rest] Cons.prems(3) show ?case by (simp add: stored_Cons ac_simps)
qed

lemma half_buckets:
  assumes "shaped c"
  shows "unat (buckets c * 2) = 2 * capacity c" "unat (buckets c * 2 div 4) = capacity c div 2"
proof -
  have "unat (buckets c) * 2 < 2 ^ 32" using assms by (simp add: shaped_w_def capacity_def)
  then show "unat (buckets c * 2) = 2 * capacity c"
    by (subst unat_mult_lem [THEN iffD1]) (simp_all add: capacity_def)
  then show "unat (buckets c * 2 div 4) = capacity c div 2"
    by (simp add: unat_div_distrib)
qed

lemma map_nth_take: "n \<le> length xs \<Longrightarrow> map (\<lambda>i. xs ! nat i) (map int [0..<n]) = take n xs"
  by (auto intro: nth_equalityI)

text \<open>The elements of the second half of the buckets are gone after a resize.\<close>

lemma resize_keeps_half:
  assumes sh: "shaped c" and un: "unlocked c" and r: "resize (buckets c) c = Some d"
  defines "h \<equiv> capacity c div 2"
  shows "contents d = stored (take h (table1 c)) + stored (take h (table2 c))"
    and "capacity d = 2 * capacity c" and "unlocked d"
    and "rect (capacity d) WIDTH (table1 d)" "rect (capacity d) WIDTH (table2 d)"
proof -
  define n where "n = 2 * capacity c"
  note hb = half_buckets [OF sh, folded h_def n_def]
  obtain w where w: "wrlock c = Some w" using r by (auto simp: resize_def)
  then have w: "wrlock c = Some (c\<lparr>writer := True\<rparr>)" by (auto simp: wrlock_def split: if_splits)
  let ?c = "c\<lparr>writer := True, buckets := buckets c * 2\<rparr>"
  obtain t1 t2 where cp: "copy_rows ?c (map int [0..<h]) (Table_new n) (Table_new n) = Some (t1, t2)"
    and d: "d = ?c\<lparr>locks := replicate n False, table1 := t1, table2 := t2, writer := False\<rparr>"
    using r w hb by (auto simp: resize_def Let_def rwunlock_def)
  have len: "h \<le> length (table1 c)" "h \<le> length (table2 c)"
    using sh by (auto simp: shaped_w_def rect_def h_def)
  have "rect n WIDTH (Table_new n)" "stored (Table_new n) = {#}"
    by (simp_all add: Table_new_def EMPTY_def)
  moreover have "\<forall>i\<in>set (map int [0..<h]). in_range i (capacity c)" using sh by (auto simp: h_def)
  ultimately have "rect n WIDTH t1 \<and> rect n WIDTH t2 \<and> stored t1 = stored (take h (table1 c))
      \<and> stored t2 = stored (take h (table2 c))"
    using copy_rows_stores [OF _ _ sh _ _ _ cp, of n] map_nth_take [OF len(1)] map_nth_take [OF len(2)]
    by simp
  moreover have "capacity d = n" using hb by (simp add: d capacity_def)
  ultimately show "contents d = stored (take h (table1 c)) + stored (take h (table2 c))"
    and "capacity d = 2 * capacity c" and "unlocked d"
    and "rect (capacity d) WIDTH (table1 d)" "rect (capacity d) WIDTH (table2 d)"
    by (simp_all add: d contents_def n_def unlocked_def holds_locks_def lock_image_empty)
qed

end
