(* ===== verification/CuckooProgress.thy ===== *)
theory CuckooProgress
  imports CuckooLoop
begin

text \<open>
  When one attempt of the private \<open>insert\<close> of CuckooHash/Cuckoo.hpp succeeds without a retry.
  An attempt that runs alone fails its checks only if the path that the search found visits a
  cell twice: every other path is displaced from its free end to the root.
\<close>

definition content :: "cuckoo \<Rightarrow> path_cell \<Rightarrow> u32" where
  "content c = (\<lambda>(t, i, s). cell c t i s)"

text \<open>The element of the second cell belongs, in the other table, to the bucket of the first.\<close>

definition link :: "cuckoo \<Rightarrow> path_cell \<Rightarrow> path_cell \<Rightarrow> bool" where
  "link c to from \<longleftrightarrow> content c from \<noteq> EMPTY \<and> fst to = other (fst from)
     \<and> home c (other (fst from)) (content c from) = fst (snd to)"

fun feeds :: "cuckoo \<Rightarrow> path_cell list \<Rightarrow> bool" where
  "feeds c (to # from # rest) \<longleftrightarrow> link c to from \<and> feeds c (from # rest)"
| "feeds c _ \<longleftrightarrow> True"

lemma feeds_snoc: "feeds c (xs @ [y, x]) \<longleftrightarrow> feeds c (xs @ [y]) \<and> link c y x"
  by (induction c xs rule: feeds.induct) auto

lemma feeds_cong:
  "\<forall>x\<in>set (tl cs). content d x = content c x \<Longrightarrow> home d = home c \<Longrightarrow> feeds d cs = feeds c cs"
  by (induction c cs rule: feeds.induct) (auto simp: link_def)

lemma link_movable: "link c to from \<Longrightarrow> free_cell c to \<Longrightarrow> movable c to from"
  by (auto simp: link_def movable_def free_cell_def content_def split: prod.splits)

lemma content_move_cell:
  assumes "shaped c" "cell_ok c to" "cell_ok c from" "cell_ok c x" "fst to = other (fst from)"
    and "x \<noteq> to" "x \<noteq> from"
  shows "content (move_cell c to from) x = content c x"
  using assms other_in [of "fst from"]
  by (auto simp: content_def move_cell_def cell_ok_w_def cuckoo_tables.cell_put split: prod.splits)

lemma move_path_succeeds:
  assumes "shaped c" "in_range idx1 (capacity c)" "in_range idx2 (capacity c)"
    and "\<forall>x\<in>set cs. cell_ok c x" "2 \<le> length cs" "distinct cs" "free_cell c (hd cs)" "feeds c cs"
  shows "\<exists>d. move_path (locked c {}) idx1 idx2 cs = Some (True, locked d {idx1, idx2})"
  using assms
proof (induction cs arbitrary: c rule: induct_list012)
  case (3 to "from" rest)
  let ?d = "move_cell c to from"
  have ok: "cell_ok c to" "cell_ok c from" using "3.prems" by auto
  have ln: "link c to from" and "movable c to from" using "3.prems" by (auto intro: link_movable)
  note d = displace_eq [OF "3.prems"(1-3) ok] and keep = cuckoo_tables.move_cell_keeps [OF "3.prems"(1) ok this(2)]
  note same = same_elements_D [OF keep(1)]
  show ?case
  proof (cases "rest = []")
    case True
    with d \<open>movable c to from\<close> show ?thesis by (intro exI [of _ ?d]) simp
  next
    case False
    have "\<forall>x\<in>set rest. content ?d x = content c x"
    proof
      fix x assume "x \<in> set rest"
      with "3.prems"(1,4,6) ok ln show "content ?d x = content c x"
        by (intro content_move_cell) (auto simp: link_def)
    qed
    then have "feeds ?d (from # rest)"
      using "3.prems"(8) same(5) feeds_cong [of "from # rest" ?d c] by simp
    moreover have "2 \<le> length (from # rest)" using False by (cases rest) auto
    moreover have "\<forall>x\<in>set (from # rest). cell_ok ?d x"
      using "3.prems"(4) cell_ok_same [OF keep(1)] by simp
    ultimately have "\<exists>e. move_path (locked ?d {}) idx1 idx2 (from # rest) = Some (True, locked e {idx1, idx2})"
      using "3.prems"(2,3,6) same(1,2) keep(2) by (intro "3.IH"(2)) simp_all
    with d \<open>movable c to from\<close> False show ?thesis by simp
  qed
qed auto

lemma follow_path_feeds:
  assumes "shaped c" "t \<in> {1, 2}" "in_range i (capacity c)" "\<forall>s\<in>set (ss @ [s]). in_range s WIDTH"
    and "follow_path c t i (ss @ [s]) = Some cs"
    and "case chain_end c (t, i) ss of (t', i') \<Rightarrow> cell c t' i' s = EMPTY"
  shows "feeds c (rev cs) \<and> free_cell c (List.last cs)"
  using assms(2-6)
proof (induction ss arbitrary: t i cs)
  case Nil
  then show ?case using assms(1) by (auto simp: free_cell_def exec_simps)
next
  case (Cons u ss)
  let ?v = "cell c t i u" let ?i = "home c (other t) ?v"
  have u: "in_range u WIDTH" using Cons.prems by simp
  show ?case
  proof (cases "?v = EMPTY")
    case True
    then show ?thesis using Cons.prems u assms(1) by (auto simp: free_cell_def exec_simps)
  next
    case False
    have h: "hash c ?v (other t) = Some ?i"
      using assms(1) other_in [of t] by (subst cuckoo_tables.hash_home) simp_all
    obtain cs' where cs': "follow_path c (other t) ?i (ss @ [s]) = Some cs'" and cs: "cs = (t, i, u) # cs'"
      using Cons.prems u False h assms(1) by (auto simp: exec_simps)
    have i: "other t \<in> {1, 2}" "in_range ?i (capacity c)" using assms(1) other_in by auto
    have IH: "feeds c (rev cs') \<and> free_cell c (List.last cs')"
      using Cons.prems by (intro Cons.IH [OF i _ cs']) auto
    obtain y ys where y: "cs' = y # ys" "fst y = other t" "fst (snd y) = ?i"
      using cuckoo_tables.follow_path_ok [OF assms(1) i, of "ss @ [s]"] Cons.prems(3) cs' by (auto simp: neq_Nil_conv)
    then have "link c y (t, i, u)" using False by (simp add: link_def content_def)
    with IH show ?thesis by (simp add: cs y feeds_snoc)
  qed
qed

text \<open>The attempt up to the path: what the unlocked part of \<open>insert\<close> computes.\<close>

definition searched_path :: "cuckoo \<Rightarrow> int \<Rightarrow> int \<Rightarrow> (path_cell list \<times> cuckoo) option" where
  "searched_path c idx1 idx2 =
     do { (point, c) \<leftarrow> search c idx1 idx2;
          if pt_pathcode point = -1 then None
          else do { (slots, rest) \<leftarrow> decode_path point;
                    path \<leftarrow> (if rest = 0 then follow_path c 1 idx1 slots else follow_path c 2 idx2 slots);
                    Some (path, c) } }"

lemma claim_path_succeeds:
  assumes "shaped c" "in_range idx1 (capacity c)" "in_range idx2 (capacity c)"
    and "\<forall>x\<in>set path. cell_ok c x" "path \<noteq> []" "distinct path" "free_cell c (List.last path)"
    and "feeds c (rev path)"
  shows "\<exists>r d. claim_path (locked c {}) idx1 idx2 path = Some (r, d) \<and> res_status r = SUCCESS"
proof -
  obtain t i s cs where p: "path = (t, i, s) # cs" using assms(5) by (cases path) auto
  show ?thesis
  proof (cases cs)
    case Nil
    with assms show ?thesis
      by (simp add: claim_path_def p exec_simps free_cell_def cell_ok_w_def)
  next
    case (Cons y ys)
    have "hd (rev path) = List.last path" using assms(5) by (simp only: hd_rev)
    then have "2 \<le> length (rev path)" "\<forall>x\<in>set (rev path). cell_ok c x" "free_cell c (hd (rev path))"
      using assms(4,7) by (simp_all add: p Cons)
    from move_path_succeeds [OF assms(1-3) this(2,1) _ this(3) assms(8)] assms(6)
    obtain d where "move_path (locked c {}) idx1 idx2 (rev path) = Some (True, locked d {idx1, idx2})"
      by auto
    then have "claim_path (locked c {}) idx1 idx2 path = Some (Result SUCCESS t i s, locked d {idx1, idx2})"
      by (simp add: claim_path_def p Cons)
    then show ?thesis using Result_sel(1) by blast
  qed
qed

lemma insert_once_succeeds:
  assumes sh: "shaped c" and idx: "in_range idx1 (capacity c)" "in_range idx2 (capacity c)"
    and new: "val \<notin> set (table_of c 1 ! nat idx1)" "val \<notin> set (table_of c 2 ! nat idx2)"
    and path: "searched_path (locked c {}) idx1 idx2 = Some (path, c')" "distinct path"
  shows "\<exists>r d. insert_once (locked c {}) val idx1 idx2 = Some (r, d) \<and> res_status r = SUCCESS"
proof (cases "free_slot c 1 idx1 \<noteq> -1 \<or> free_slot c 2 idx2 \<noteq> -1")
  case True
  with new show ?thesis by (auto simp: insert_once_eq [OF sh idx])
next
  case False
  obtain p r' where p: "search (locked c {}) idx1 idx2 = Some (p, locked (c\<lparr>rng_state := r'\<rparr>) {})"
    and found: "p = no_point \<or> found_point (c\<lparr>rng_state := r'\<rparr>) idx1 idx2 p"
    using search_locked [OF sh idx] by blast
  let ?c = "c\<lparr>rng_state := r'\<rparr>"
  have np: "pt_pathcode p \<noteq> -1" using path(1) p by (auto simp: searched_path_def split: if_splits)
  then have fp: "found_point ?c idx1 idx2 p" using found by (auto simp: no_point_def)
  obtain rt ss s where dec: "decode_path p = Some (ss @ [s], rt)" "rt \<in> {0, 1}"
    "\<forall>s\<in>set (ss @ [s]). in_range s WIDTH"
    and ce: "(pt_table p, pt_index p) = chain_end ?c (root idx1 idx2 rt) ss"
      "cell ?c (pt_table p) (pt_index p) s = EMPTY"
    using decode_found [OF fp] by blast
  define t i where "t = fst (root idx1 idx2 rt)" and "i = snd (root idx1 idx2 rt)"
  have ti: "t \<in> {1, 2}" "in_range i (capacity ?c)" "shaped ?c"
    "in_range idx1 (capacity ?c)" "in_range idx2 (capacity ?c)"
    using idx sh by (auto simp: t_def i_def root_def)
  have fpath: "follow_path ?c t i (ss @ [s]) = Some path"
    using path(1) p np dec by (auto simp: searched_path_def t_def i_def root_def split: if_splits)
  have rt: "(t, i) = root idx1 idx2 rt" by (simp add: t_def i_def)
  have "\<forall>x\<in>set path. cell_ok ?c x" "path \<noteq> []"
    using cuckoo_tables.follow_path_ok [OF ti(3,1,2), of "ss @ [s]"] fpath dec(3) by auto
  moreover have "feeds ?c (rev path) \<and> free_cell ?c (List.last path)"
    using ce by (intro follow_path_feeds [OF ti(3,1,2) dec(3) fpath]) (auto simp: rt split: prod.split)
  ultimately obtain rs d where "claim_path (locked ?c {}) idx1 idx2 path = Some (rs, d)" "res_status rs = SUCCESS"
    using claim_path_succeeds [OF ti(3-5) _ _ path(2)] by blast
  then show ?thesis
    using new False p np dec fpath by (auto simp: insert_once_eq [OF sh idx] t_def i_def root_def)
qed

end
