(* ===== verification/LockOrder.thy ===== *)
theory LockOrder
  imports Spinlocks
begin

text \<open>
  Threads that take several locks before a critical section, as an interleaving machine.  A
  thread issues a request, is granted the locks of the request one at a time in the order that
  the code takes them (an exclusive lock when no other thread holds it, a shared one when no
  other thread holds it exclusively), and releases them in any order afterwards; it never asks
  for more while it holds locks.  The order in which a request takes its locks is the interface
  of the locale: any ascending order excludes deadlock.

  The interpretation at the end is the cuckoo table's: requests are the calls of \<open>lock_two\<close>
  and \<open>lock_three\<close> of CuckooHash/Cuckoo.hpp, whose orders are those of theory Spinlocks.
\<close>

datatype mode = Shared | Exclusive

type_synonym claim = "int \<times> mode"

record lock_sys =
  holding :: "nat \<Rightarrow> claim list"
  wanting :: "nat \<Rightarrow> claim list"

definition idle_sys :: lock_sys where
  "idle_sys = \<lparr>holding = (\<lambda>_. []), wanting = (\<lambda>_. [])\<rparr>"

fun conflict :: "claim \<Rightarrow> claim \<Rightarrow> bool" where
  "conflict (l, m) (l', m') \<longleftrightarrow> l = l' \<and> \<not> (m = Shared \<and> m' = Shared)"

definition grantable :: "lock_sys \<Rightarrow> nat \<Rightarrow> claim \<Rightarrow> bool" where
  "grantable s t c \<longleftrightarrow> (\<forall>t'. t' \<noteq> t \<longrightarrow> (\<forall>c'\<in>set (holding s t'). \<not> conflict c c'))"

definition busy :: "lock_sys \<Rightarrow> nat \<Rightarrow> bool" where
  "busy s t \<longleftrightarrow> holding s t \<noteq> [] \<or> wanting s t \<noteq> []"

inductive advance :: "lock_sys \<Rightarrow> lock_sys \<Rightarrow> bool" where
  grant: "wanting s t = c # cs \<Longrightarrow> grantable s t c \<Longrightarrow>
    advance s (s\<lparr>wanting := (wanting s)(t := cs), holding := (holding s)(t := c # holding s t)\<rparr>)"
| release: "wanting s t = [] \<Longrightarrow> c \<in> set (holding s t) \<Longrightarrow>
    advance s (s\<lparr>holding := (holding s)(t := remove1 c (holding s t))\<rparr>)"

inductive lock_step :: "('r \<Rightarrow> claim list) \<Rightarrow> lock_sys \<Rightarrow> lock_sys \<Rightarrow> bool" for plan where
  request: "\<not> busy s t \<Longrightarrow> lock_step plan s (s\<lparr>wanting := (wanting s)(t := plan r)\<rparr>)"
| proceed: "advance s s' \<Longrightarrow> lock_step plan s s'"

inductive lock_reachable :: "('r \<Rightarrow> claim list) \<Rightarrow> lock_sys \<Rightarrow> bool" for plan where
  start: "lock_reachable plan idle_sys"
| step: "lock_reachable plan s \<Longrightarrow> lock_step plan s s' \<Longrightarrow> lock_reachable plan s'"

subsection \<open>The invariant\<close>

definition ordered_thread :: "claim list \<Rightarrow> claim list \<Rightarrow> bool" where
  "ordered_thread hs ws \<longleftrightarrow>
     ascending (map fst ws) \<and> (\<forall>h\<in>set hs. \<forall>w\<in>set ws. fst h < fst w)"

definition exclusive_holders :: "lock_sys \<Rightarrow> bool" where
  "exclusive_holders s \<longleftrightarrow>
     (\<forall>t u. t \<noteq> u \<longrightarrow> (\<forall>c\<in>set (holding s t). \<forall>c'\<in>set (holding s u). \<not> conflict c c'))"

definition lock_inv :: "lock_sys \<Rightarrow> bool" where
  "lock_inv s \<longleftrightarrow> finite {t. busy s t}
     \<and> (\<forall>t. ordered_thread (holding s t) (wanting s t)) \<and> exclusive_holders s"

lemma conflict_sym: "conflict c c' = conflict c' c"
  by (cases c; cases c') auto

lemma lock_inv_idle: "lock_inv idle_sys"
  by (simp add: lock_inv_def exclusive_holders_def idle_sys_def busy_def ordered_thread_def
      ascending_def)

lemma lock_inv_ordered: "lock_inv s \<Longrightarrow> ordered_thread (holding s t) (wanting s t)"
  by (simp add: lock_inv_def)

lemma lock_inv_excl:
  "lock_inv s \<Longrightarrow> u \<noteq> t \<Longrightarrow> c \<in> set (holding s t) \<Longrightarrow> c' \<in> set (holding s u) \<Longrightarrow> \<not> conflict c c'"
  unfolding lock_inv_def exclusive_holders_def
  by (elim conjE, drule spec [of _ t], drule spec [of _ t], drule spec [of _ u]) simp

text \<open>A step of thread \<open>t\<close> keeps the invariant if it keeps its parts for \<open>t\<close>.\<close>

lemma lock_inv_update:
  assumes inv: "lock_inv s"
    and frame: "\<And>u. u \<noteq> t \<Longrightarrow> holding s' u = holding s u \<and> wanting s' u = wanting s u"
    and ord: "ordered_thread (holding s' t) (wanting s' t)"
    and excl: "\<And>u c c'. u \<noteq> t \<Longrightarrow> c \<in> set (holding s' t) \<Longrightarrow> c' \<in> set (holding s u) \<Longrightarrow>
                 \<not> conflict c c'"
  shows "lock_inv s'"
  unfolding lock_inv_def exclusive_holders_def
proof (intro conjI allI impI ballI)
  have "finite {u. busy s u}" using inv by (simp add: lock_inv_def)
  moreover have "{u. busy s' u} \<subseteq> insert t {u. busy s u}" using frame by (auto simp: busy_def)
  ultimately show "finite {u. busy s' u}" by (meson finite.insertI finite_subset)
next
  show "ordered_thread (holding s' u) (wanting s' u)" for u
    using inv ord frame [of u] by (cases "u = t") (auto simp: lock_inv_def)
next
  fix u u' c c'
  assume "u \<noteq> u'" "c \<in> set (holding s' u)" "c' \<in> set (holding s' u')"
  then consider "u = t" "c' \<in> set (holding s u')" | "u' = t" "c \<in> set (holding s u)"
    | "c \<in> set (holding s u)" "c' \<in> set (holding s u')"
    using frame by metis
  then show "\<not> conflict c c'"
  proof cases
    case 1
    with \<open>u \<noteq> u'\<close> \<open>c \<in> set (holding s' u)\<close> show ?thesis by (intro excl [of u']) auto
  next
    case 2
    with \<open>u \<noteq> u'\<close> \<open>c' \<in> set (holding s' u')\<close> show ?thesis
      by (subst conflict_sym, intro excl [of u]) auto
  next
    case 3
    with inv \<open>u \<noteq> u'\<close> show ?thesis by (metis lock_inv_excl)
  qed
qed

lemma lock_inv_advance:
  assumes "advance s s'" "lock_inv s"
  shows "lock_inv s'"
  using assms
proof (induction rule: advance.induct)
  case (grant s t c cs)
  then have "ordered_thread (holding s t) (c # cs)" by (metis lock_inv_ordered)
  then have "ordered_thread (c # holding s t) cs" by (auto simp: ordered_thread_def ascending_def)
  moreover have "\<not> conflict d d'"
    if "u \<noteq> t" "d \<in> set (c # holding s t)" "d' \<in> set (holding s u)" for u d d'
    using that grant lock_inv_excl [of s u t d d'] by (auto simp: grantable_def)
  ultimately show ?case
    by (intro lock_inv_update [OF grant.prems, of t]) simp_all
next
  case (release s t c)
  have sub: "set (remove1 c (holding s t)) \<subseteq> set (holding s t)" by (rule set_remove1_subset)
  have "\<not> conflict d d'"
    if "u \<noteq> t" "d \<in> set (remove1 c (holding s t))" "d' \<in> set (holding s u)" for u d d'
    using that sub release.prems lock_inv_excl [of s u t d d'] by auto
  with release.hyps show ?case
    by (intro lock_inv_update [OF release.prems, of t])
       (simp_all add: ordered_thread_def ascending_def)
qed

subsection \<open>Progress from the invariant alone\<close>

lemma hd_wanted_above_held:
  "lock_inv s \<Longrightarrow> wanting s t = c # cs \<Longrightarrow> h \<in> set (holding s t) \<Longrightarrow> fst h < fst c"
  unfolding lock_inv_def ordered_thread_def by (metis list.set_intros(1))

text \<open>The thread that waits for the greatest lock is never refused by a thread that waits.\<close>

lemma progress:
  assumes inv: "lock_inv s" and "busy s t"
  shows "\<exists>s'. advance s s'"
proof (cases "\<exists>t. holding s t \<noteq> [] \<and> wanting s t = []")
  case True
  then obtain t c where "wanting s t = []" "c \<in> set (holding s t)"
    by (metis list.set_intros(1) neq_Nil_conv)
  then show ?thesis by (blast intro: advance.release)
next
  case False
  let ?W = "{t. wanting s t \<noteq> []}"
  let ?key = "\<lambda>t. fst (hd (wanting s t))"
  have "finite ?W"
    by (rule finite_subset [OF _ conjunct1 [OF inv [unfolded lock_inv_def]]]) (auto simp: busy_def)
  moreover have "?W \<noteq> {}" using False \<open>busy s t\<close> by (auto simp: busy_def)
  ultimately have "Max (?key ` ?W) \<in> ?key ` ?W" by (intro Max_in) auto
  then obtain m where m: "m \<in> ?W" and "Max (?key ` ?W) = ?key m" by blast
  with \<open>finite ?W\<close> have max: "?key t \<le> ?key m" if "t \<in> ?W" for t
    using that by (metis (no_types, lifting) Max_ge finite_imageI imageI)
  from m obtain c cs where c: "wanting s m = c # cs" by (cases "wanting s m") simp_all
  have "grantable s m c"
    unfolding grantable_def
  proof (intro allI impI ballI notI)
    fix t' c' assume "t' \<noteq> m" and h: "c' \<in> set (holding s t')" and conf: "conflict c c'"
    with False obtain d ds where d: "wanting s t' = d # ds"
      by (metis empty_iff list.exhaust list.set(1))
    with inv h have "fst c' < fst d" by (blast intro: hd_wanted_above_held)
    moreover have "fst c' = fst c" using conf by (cases c; cases c') auto
    moreover have "fst d \<le> fst c" using max [of t'] c d by simp
    ultimately show False by simp
  qed
  with c show ?thesis by (blast intro: advance.grant)
qed

definition load :: "lock_sys \<Rightarrow> nat" where
  "load s = (\<Sum>t\<in>{t. busy s t}. 2 * length (wanting s t) + length (holding s t))"

lemma load_superset:
  "finite A \<Longrightarrow> {t. busy s t} \<subseteq> A \<Longrightarrow>
   load s = (\<Sum>t\<in>A. 2 * length (wanting s t) + length (holding s t))"
  unfolding load_def by (rule sum.mono_neutral_left) (auto simp: busy_def)

lemma advance_load: "advance s s' \<Longrightarrow> lock_inv s \<Longrightarrow> load s' < load s"
proof (induction rule: advance.induct)
  case (grant s t c cs)
  let ?s = "s\<lparr>wanting := (wanting s)(t := cs), holding := (holding s)(t := c # holding s t)\<rparr>"
  have fin: "finite {t. busy s t}" and t: "t \<in> {t. busy s t}"
    using grant by (auto simp: lock_inv_def busy_def)
  have "load ?s = (\<Sum>t\<in>{t. busy s t}. 2 * length (wanting ?s t) + length (holding ?s t))"
    using grant fin by (intro load_superset) (auto simp: busy_def split: if_splits)
  also have "\<dots> < load s"
    unfolding load_def by (rule sum_strict_mono_ex1 [OF fin]) (use t grant in auto)
  finally show ?case .
next
  case (release s t c)
  let ?s = "s\<lparr>holding := (holding s)(t := remove1 c (holding s t))\<rparr>"
  have fin: "finite {t. busy s t}" and t: "t \<in> {t. busy s t}"
    using release by (auto simp: lock_inv_def busy_def)
  have "load ?s = (\<Sum>t\<in>{t. busy s t}. 2 * length (wanting ?s t) + length (holding ?s t))"
    using release fin by (intro load_superset) (auto simp: busy_def split: if_splits)
  also have "\<dots> < load s"
    unfolding load_def
    by (rule sum_strict_mono_ex1 [OF fin])
       (use t release in \<open>auto simp: length_remove1 intro!: bexI [of _ t] dest: length_pos_if_in_set\<close>)
  finally show ?case .
qed

lemma drains: "lock_inv s \<Longrightarrow> \<exists>s'. advance\<^sup>*\<^sup>* s s' \<and> (\<forall>t. \<not> busy s' t)"
proof (induction "load s" arbitrary: s rule: less_induct)
  case less
  show ?case
  proof (cases "\<exists>t. busy s t")
    case True
    then obtain s' where s': "advance s s'" using less.prems progress by blast
    then obtain s'' where "advance\<^sup>*\<^sup>* s' s''" "\<forall>t. \<not> busy s'' t"
      using less by (meson advance_load lock_inv_advance)
    with s' show ?thesis by (meson converse_rtranclp_into_rtranclp)
  qed auto
qed

subsection \<open>Any ascending order of requests\<close>

locale ordered_requests =
  fixes plan :: "'r \<Rightarrow> claim list"
  assumes plan_ascending: "ascending (map fst (plan r))"
begin

lemma lock_inv_step: "lock_step plan s s' \<Longrightarrow> lock_inv s \<Longrightarrow> lock_inv s'"
proof (induction rule: lock_step.induct)
  case (request s t r)
  then have "holding s t = []" by (simp add: busy_def)
  with plan_ascending [of r] show ?case
    by (intro lock_inv_update [OF request.prems, of t]) (simp_all add: ordered_thread_def)
next
  case (proceed s s')
  then show ?case by (blast intro: lock_inv_advance)
qed

lemma reachable_inv: "lock_reachable plan s \<Longrightarrow> lock_inv s"
  by (induction rule: lock_reachable.induct) (auto intro: lock_inv_idle lock_inv_step)

lemma exclusion:
  "lock_reachable plan s \<Longrightarrow> c \<in> set (holding s t) \<Longrightarrow> c' \<in> set (holding s t') \<Longrightarrow>
   conflict c c' \<Longrightarrow> t = t'"
  using lock_inv_excl [OF reachable_inv, of s t' t c c'] by metis

lemma no_deadlock: "lock_reachable plan s \<Longrightarrow> busy s t \<Longrightarrow> \<exists>s'. advance s s'"
  by (blast intro: progress reachable_inv)

lemma all_finish: "lock_reachable plan s \<Longrightarrow> \<exists>s'. advance\<^sup>*\<^sup>* s s' \<and> (\<forall>t. \<not> busy s' t)"
  by (blast intro: drains reachable_inv)

end

subsection \<open>The requests of the cuckoo table\<close>

datatype cuckoo_request = Lock_two int int | Lock_three int int int

fun cuckoo_plan :: "cuckoo_request \<Rightarrow> claim list" where
  "cuckoo_plan (Lock_two i j) = map (\<lambda>l. (l, Exclusive)) (lock_two_order i j)"
| "cuckoo_plan (Lock_three i j k) = map (\<lambda>l. (l, Exclusive)) (lock_three_order i j k)"

lemma cuckoo_plan_ascending: "ascending (map fst (cuckoo_plan r))"
  by (cases r) (simp_all add: comp_def)

interpretation cuckoo_locks: ordered_requests cuckoo_plan
  by unfold_locales (rule cuckoo_plan_ascending)

end
