(* ===== verification/SetObject.thy ===== *)
theory SetObject
  imports Prelude
begin

text \<open>
  The contract that the set-like containers of the repository share (the cuckoo tables, the lazy
  list and the hash map over it): \<open>insert\<close>, \<open>remove\<close> and \<open>contains\<close> answer, and change the
  stored set, as the operations on a mathematical set do.  An implementation is a step function
  on its own state that may fail to return (\<open>None\<close>); the first locale states the answers of the
  steps that return, the second adds that every step returns.  The lemmas lift both to sequences
  of operations.

  The third locale is the way the hash map spreads its keys over lists and the client of the
  distributed store its keys over servers: an array of total set objects with an index function
  is again a total set object.
\<close>

datatype 'v set_op = Insert (operand: 'v) | Remove (operand: 'v) | Contains (operand: 'v)

fun spec_op :: "'v set_op \<Rightarrow> 'v set \<Rightarrow> bool \<times> 'v set" where
  "spec_op (Insert v) S = (v \<notin> S, insert v S)"
| "spec_op (Remove v) S = (v \<in> S, S - {v})"
| "spec_op (Contains v) S = (v \<in> S, S)"

fun spec_run :: "'v set_op list \<Rightarrow> 'v set \<Rightarrow> bool list \<times> 'v set" where
  "spec_run [] S = ([], S)"
| "spec_run (x # xs) S = (case spec_op x S of (b, S') \<Rightarrow> case spec_run xs S' of (bs, S'') \<Rightarrow> (b # bs, S''))"

fun run_ops :: "('s \<Rightarrow> 'v set_op \<Rightarrow> (bool \<times> 's) option) \<Rightarrow> 's \<Rightarrow> 'v set_op list \<Rightarrow> (bool list \<times> 's) option" where
  "run_ops step s [] = Some ([], s)"
| "run_ops step s (x # xs) =
     do { (b, s') \<leftarrow> step s x; (bs, s'') \<leftarrow> run_ops step s' xs; Some (b # bs, s'') }"

locale set_object =
  fixes step :: "'s \<Rightarrow> 'v set_op \<Rightarrow> (bool \<times> 's) option"
    and inv :: "'s \<Rightarrow> bool"
    and elems :: "'s \<Rightarrow> 'v set"
    and allowed :: "'v \<Rightarrow> bool"
  assumes step_refines: "inv s \<Longrightarrow> allowed (operand x) \<Longrightarrow> step s x = Some (b, s') \<Longrightarrow>
    inv s' \<and> (b, elems s') = spec_op x (elems s)"
begin

lemma run_refines:
  "inv s \<Longrightarrow> \<forall>x\<in>set xs. allowed (operand x) \<Longrightarrow> run_ops step s xs = Some (bs, s') \<Longrightarrow>
   inv s' \<and> (bs, elems s') = spec_run xs (elems s)"
proof (induction xs arbitrary: s bs)
  case (Cons x xs)
  from Cons.prems obtain b s1 bs1 where s1: "step s x = Some (b, s1)"
    and r: "run_ops step s1 xs = Some (bs1, s')" and bs: "bs = b # bs1" by auto
  from step_refines [OF _ _ s1] Cons.prems have "inv s1" "(b, elems s1) = spec_op x (elems s)" by auto
  with Cons.IH [OF _ _ r] Cons.prems bs show ?case by (simp split: prod.splits) (metis Pair_inject)
qed simp

end

locale total_set_object = set_object +
  assumes step_total: "inv s \<Longrightarrow> allowed (operand x) \<Longrightarrow> step s x \<noteq> None"
begin

lemma run_total:
  "inv s \<Longrightarrow> \<forall>x\<in>set xs. allowed (operand x) \<Longrightarrow>
   \<exists>bs s'. run_ops step s xs = Some (bs, s') \<and> inv s' \<and> (bs, elems s') = spec_run xs (elems s)"
proof (induction xs arbitrary: s)
  case (Cons x xs)
  then obtain b s1 where s1: "step s x = Some (b, s1)" using step_total [of s x] by auto
  have "inv s1" using step_refines [OF _ _ s1] Cons.prems by simp
  with Cons obtain bs s2 where "run_ops step s1 xs = Some (bs, s2)" by fastforce
  with s1 have r: "run_ops step s (x # xs) = Some (b # bs, s2)" by simp
  with run_refines [OF Cons.prems r] show ?case by blast
qed simp

end

subsection \<open>Arrays of set objects\<close>

definition array_step ::
  "('s \<Rightarrow> 'v set_op \<Rightarrow> (bool \<times> 's) option) \<Rightarrow> ('v \<Rightarrow> nat) \<Rightarrow> 's list \<Rightarrow> 'v set_op \<Rightarrow> (bool \<times> 's list) option" where
  "array_step step index ss x =
     (let i = index (operand x) in
      if i < length ss then do { (b, s) \<leftarrow> step (ss ! i) x; Some (b, ss[i := s]) } else None)"

definition array_inv :: "('s \<Rightarrow> bool) \<Rightarrow> ('s \<Rightarrow> 'v set) \<Rightarrow> ('v \<Rightarrow> nat) \<Rightarrow> nat \<Rightarrow> 's list \<Rightarrow> bool" where
  "array_inv good elems index n ss \<longleftrightarrow>
     length ss = n \<and> (\<forall>i < n. good (ss ! i) \<and> (\<forall>v\<in>elems (ss ! i). index v = i))"

definition array_elems :: "('s \<Rightarrow> 'v set) \<Rightarrow> 's list \<Rightarrow> 'v set" where
  "array_elems elems ss = (\<Union>s\<in>set ss. elems s)"

lemma array_elems_nth: "array_elems elems ss = (\<Union>i < length ss. elems (ss ! i))"
  unfolding array_elems_def set_conv_nth by auto

locale bucket_array = total_set_object step inv elems allowed
  for step :: "'s \<Rightarrow> 'v set_op \<Rightarrow> (bool \<times> 's) option" and inv elems allowed +
  fixes index :: "'v \<Rightarrow> nat" and n :: nat
  assumes index_range: "index v < n"
begin

lemma array_member:
  "array_inv inv elems index n ss \<Longrightarrow> v \<in> array_elems elems ss \<longleftrightarrow> v \<in> elems (ss ! index v)"
  using index_range [of v] by (auto simp: array_inv_def array_elems_nth)

lemma spec_op_member: "spec_op x S = (b, S') \<Longrightarrow> v \<noteq> operand x \<Longrightarrow> v \<in> S' \<longleftrightarrow> v \<in> S"
  by (cases x) auto

lemma spec_op_operand: "spec_op x S = (b, S') \<Longrightarrow> spec_op x T = (c, T') \<Longrightarrow>
  operand x \<in> S \<longleftrightarrow> operand x \<in> T \<Longrightarrow> b = c \<and> (operand x \<in> S' \<longleftrightarrow> operand x \<in> T')"
  by (cases x) auto

lemma array_step_refines:
  assumes inv: "array_inv inv elems index n ss" and al: "allowed (operand x)"
    and st: "array_step step index ss x = Some (b, ss')"
  shows "array_inv inv elems index n ss' \<and> (b, array_elems elems ss') = spec_op x (array_elems elems ss)"
proof -
  let ?i = "index (operand x)"
  have i: "?i < length ss" using inv index_range by (simp add: array_inv_def)
  then obtain s where s: "step (ss ! ?i) x = Some (b, s)" and ss': "ss' = ss[?i := s]"
    using st by (auto simp: array_step_def Let_def)
  have ref: "inv s" "spec_op x (elems (ss ! ?i)) = (b, elems s)"
    using step_refines [OF _ al s] inv i by (auto simp: array_inv_def)
  have inv': "array_inv inv elems index n ss'"
    unfolding array_inv_def
  proof (intro conjI allI impI ballI)
    show "length ss' = n" using inv by (simp add: ss' array_inv_def)
    fix j assume j: "j < n"
    show "inv (ss' ! j)" using inv ref(1) i j by (cases "j = ?i") (auto simp: ss' array_inv_def)
    fix v assume v: "v \<in> elems (ss' ! j)"
    have old: "index v = j" if "v \<in> elems (ss ! j)" using that inv j by (simp add: array_inv_def)
    show "index v = j"
    proof (cases "j = ?i \<and> v \<noteq> operand x")
      case True
      with v i spec_op_member [OF ref(2), of v] old show ?thesis by (simp add: ss')
    next
      case False
      with v i old show ?thesis by (cases "j = ?i") (auto simp: ss')
    qed
  qed
  obtain c T where T: "spec_op x (array_elems elems ss) = (c, T)" by (meson surj_pair)
  have op: "b = c" "operand x \<in> elems s \<longleftrightarrow> operand x \<in> T"
    using spec_op_operand [OF ref(2) T] array_member [OF inv, of "operand x"] by auto
  have "v \<in> array_elems elems ss' \<longleftrightarrow> v \<in> T" for v
  proof (cases "v = operand x")
    case True
    then show ?thesis using array_member [OF inv', of v] op i by (simp add: ss')
  next
    case False
    have "v \<in> elems (ss' ! index v) \<longleftrightarrow> v \<in> elems (ss ! index v)"
      using spec_op_member [OF ref(2) False] i by (cases "index v = ?i") (simp_all add: ss')
    with False show ?thesis
      using array_member [OF inv', of v] array_member [OF inv, of v] spec_op_member [OF T False] by simp
  qed
  with op(1) T inv' show ?thesis by auto
qed

lemma array_step_total:
  "array_inv inv elems index n ss \<Longrightarrow> allowed (operand x) \<Longrightarrow> array_step step index ss x \<noteq> None"
  using step_total [of "ss ! index (operand x)" x] index_range [of "operand x"]
  by (auto simp: array_step_def array_inv_def Let_def)

end

sublocale bucket_array \<subseteq> arr: total_set_object "array_step step index" "array_inv inv elems index n" "array_elems elems" allowed
  by unfold_locales (blast intro: array_step_refines [THEN conjunct1] array_step_refines [THEN conjunct2]
      dest: array_step_refines array_step_total)+

end
