(* ===== verification/CuckooCorrect.thy ===== *)
theory CuckooCorrect
  imports CuckooProgress LockOrder SetObject
begin

text \<open>
  The properties of the cuckoo table of CuckooHash/Cuckoo.hpp, over the lemmas of the theories
  CuckooTable, CuckooSearch, CuckooInsert, CuckooLoop, CuckooProgress and LockOrder: the
  operations refine those of a set of non-zero elements as long as no insertion resizes the
  table, attempts are safe and leave the right locks held, and what goes wrong when a table is
  resized.
\<close>

subsection \<open>The table as a set object\<close>

definition cuckoo_ok :: "cuckoo \<Rightarrow> bool" where
  "cuckoo_ok c \<longleftrightarrow> table_wf c \<and> unlocked c \<and> (\<forall>v. count (contents c) v \<le> 1)"

definition cuckoo_elems :: "cuckoo \<Rightarrow> u32 set" where
  "cuckoo_elems c = set_mset (contents c)"

text \<open>One call, for runs without a resize: a call that resized, faulted or did not return is
  \<open>None\<close>.\<close>

definition cuckoo_call :: "nat \<Rightarrow> cuckoo \<Rightarrow> u32 set_op \<Rightarrow> (bool \<times> cuckoo) option" where
  "cuckoo_call fuel c x = (case x of
       Insert v \<Rightarrow> (case Cuckoo_insert fuel c v of
                     Done (b, d) \<Rightarrow> if buckets d = buckets c then Some (b, d) else None
                   | _ \<Rightarrow> None)
     | Remove v \<Rightarrow> Cuckoo_remove c v
     | Contains v \<Rightarrow> Cuckoo_contains c v)"

lemma Cuckoo_insert_loop:
  "shaped c \<Longrightarrow> Cuckoo_insert fuel c v = insert_loop fuel c v (home c 1 v) (home c 2 v)"
  by (simp add: Cuckoo_insert_def exec_simps)

lemma contains_iff:
  assumes "table_wf c" "unlocked c" "v \<noteq> EMPTY"
  shows "Cuckoo_contains c v = Some (v \<in># contents c, c)"
  using contains_correct [of c v] assms cuckoo_tables.in_contents_home [OF assms(1,3)]
  by (simp add: table_of_12 table_wf_D)

lemma cuckoo_insert_ok:
  assumes "table_wf c" "unlocked c" "v \<noteq> EMPTY"
    and "Cuckoo_insert fuel c v = Done (b, d)" "buckets d = buckets c"
  shows "b = (v \<notin># contents c) \<and> table_wf d \<and> unlocked d
       \<and> contents d = (if b then add_mset v (contents c) else contents c)"
proof -
  have "insert_loop fuel c v (home c 1 v) (home c 2 v) = Done (b, d)"
    using assms by (simp add: Cuckoo_insert_loop table_wf_D)
  from insert_loop_correct [OF assms(1-3) this assms(5)] show ?thesis by (auto simp: quiet_def)
qed

lemma cuckoo_call_ok:
  assumes inv: "cuckoo_ok c" and v: "operand x \<noteq> EMPTY" and r: "cuckoo_call fuel c x = Some (b, d)"
  shows "cuckoo_ok d \<and> (b, cuckoo_elems d) = spec_op x (cuckoo_elems c)"
proof (cases x)
  case (Insert v)
  with r obtain "Cuckoo_insert fuel c v = Done (b, d)" "buckets d = buckets c"
    by (auto simp: cuckoo_call_def split: outcome.splits if_splits)
  with inv v Insert cuckoo_insert_ok [of c v fuel b d] show ?thesis
    by (auto simp: cuckoo_ok_def cuckoo_elems_def not_in_iff)
next
  case (Remove v)
  with inv v obtain d' where d': "Cuckoo_remove c v = Some (v \<in># contents c, d')" "table_wf d'"
    "unlocked d'" "contents d' = contents c - {#v#}"
    by (auto simp: cuckoo_ok_def elim: remove_correct [of c v])
  moreover have "set_mset (contents c - {#v#}) = set_mset (contents c) - {v}"
    using inv by (intro set_mset_remove_one) (simp add: cuckoo_ok_def)
  moreover have "count (contents c - {#v#}) u \<le> 1" for u
    using inv by (auto simp: cuckoo_ok_def intro: le_trans [OF diff_le_self])
  ultimately show ?thesis
    using r Remove by (simp add: cuckoo_call_def cuckoo_ok_def cuckoo_elems_def)
next
  case (Contains v)
  with inv v r show ?thesis
    by (auto simp: cuckoo_call_def cuckoo_ok_def cuckoo_elems_def contains_iff)
qed

interpretation cuckoo_set: set_object "cuckoo_call fuel" cuckoo_ok cuckoo_elems "\<lambda>v. v \<noteq> EMPTY"
  by unfold_locales (rule cuckoo_call_ok)

lemma new_table:
  assumes "0 < unat n" "unat n < 2 ^ 31"
  shows "table_wf (Cuckoo_new n r)" "unlocked (Cuckoo_new n r)" "contents (Cuckoo_new n r) = {#}"
proof -
  let ?c = "Cuckoo_new n r"
  have cap: "capacity ?c = unat n" by (simp add: capacity_def Cuckoo_new_def)
  have "cell ?c t i j = EMPTY" if "in_range i (capacity ?c)" "in_range j WIDTH" for t i j
    using that cap by (simp add: cell_def table_of_def Cuckoo_new_def Table_new_def nat_less_iff)
  then have "placed ?c" by (simp add: placed_w_def)
  moreover have "shaped ?c"
    using assms by (simp add: shaped_w_def cap) (simp add: Cuckoo_new_def Table_new_def)
  ultimately show "table_wf ?c" by (simp add: table_wf_w_def)
  show "unlocked ?c" unfolding unlocked_def holds_locks_def cap
    by (simp add: Cuckoo_new_def lock_image_empty)
  show "contents ?c = {#}" by (simp add: contents_def Cuckoo_new_def Table_new_def EMPTY_def)
qed

subsection \<open>A table for the examples\<close>

definition small_table :: cuckoo where
  "small_table = (Cuckoo_new 2 xorshf96_seed)\<lparr>table1 := [[0, 0, 0, 0, 0, 0], [5, 0, 0, 0, 0, 0]]\<rparr>"

definition full_table :: cuckoo where
  "full_table = (Cuckoo_new 1 xorshf96_seed)
     \<lparr>table1 := [[1, 2, 3, 4, 5, 6]], table2 := [[7, 8, 9, 10, 11, 12]]\<rparr>"

definition crowded_table :: cuckoo where
  "crowded_table = (Cuckoo_new 2 xorshf96_seed)
     \<lparr>table1 := [[4, 8, 12, 16, 20, 24], [0, 0, 0, 0, 0, 0]],
      table2 := [[0, 0, 0, 0, 0, 0], [66, 70, 74, 78, 82, 86]]\<rparr>"

fun insert_all :: "nat \<Rightarrow> cuckoo \<Rightarrow> u32 list \<Rightarrow> cuckoo outcome" where
  "insert_all fuel c [] = Done c"
| "insert_all fuel c (v # vs) =
     (case Cuckoo_insert fuel c v of
        Done (b, d) \<Rightarrow> insert_all fuel d vs | Fault \<Rightarrow> Fault | No_fuel \<Rightarrow> No_fuel)"

lemma new_two: "table_wf (Cuckoo_new 2 r)" "unlocked (Cuckoo_new 2 r)" "contents (Cuckoo_new 2 r) = {#}"
  by (rule new_table; simp)+

lemma small_inserted: "Cuckoo_insert 1 (Cuckoo_new 2 xorshf96_seed) 5 = Done (True, small_table)"
  by code_simp

lemma small_table_ok: "table_wf small_table" "unlocked small_table" "contents small_table = {#5#}"
  using cuckoo_insert_ok [OF new_two(1,2) _ small_inserted] new_two(3) [of xorshf96_seed]
  by (simp_all add: EMPTY_def small_table_def Cuckoo_new_def)

subsection \<open>The operations refine those of a set\<close>

text \<open>C1: A call of \<open>insert\<close> with a non-zero element on a well-formed table whose locks are free,
  if it returns without having resized the table, reports whether the element was new, adds
  exactly that element if so and nothing otherwise, and leaves a well-formed table with all
  locks free.\<close>

theorem insert_refines:
  assumes "table_wf c" "unlocked c" "v \<noteq> EMPTY"
    and "Cuckoo_insert fuel c v = Done (b, d)" "buckets d = buckets c"
  shows "b = (v \<notin># contents c)
       \<and> contents d = (if v \<in># contents c then contents c else add_mset v (contents c))
       \<and> table_wf d \<and> unlocked d"
  using cuckoo_insert_ok [OF assms] by auto

theorem insert_refines_witness:
  "contents small_table = add_mset 5 (contents (Cuckoo_new 2 xorshf96_seed)) \<and> table_wf small_table"
  using insert_refines [OF new_two(1,2) _ small_inserted] new_two(3) [of xorshf96_seed]
  by (simp add: EMPTY_def small_table_def Cuckoo_new_def)



text \<open>C3: \<open>insert\<close> returns at its first attempt, without a resize, when the element is already
  stored or when one of its two buckets has a free slot.\<close>

theorem insert_returns:
  assumes "table_wf c" "unlocked c" "v \<noteq> EMPTY"
    and "v \<in># contents c \<or> EMPTY \<in> set (table1 c ! nat (home c 1 v))
       \<or> EMPTY \<in> set (table2 c ! nat (home c 2 v))"
  shows "\<exists>d. Cuckoo_insert (Suc fuel) c v = Done (v \<notin># contents c, d) \<and> buckets d = buckets c"
proof -
  let ?i = "home c 1 v" and ?j = "home c 2 v" and ?c = "with_reader c"
  note sh = table_wf_D(1) [OF assms(1)]
  have free: "slot_of c t (\<lambda>x. \<not> occupied x) i \<noteq> -1 \<longleftrightarrow> EMPTY \<in> set (table_of c t ! nat i)" for t i
    by (auto simp: slot_of_missing occupied_def)
  have slot: "slot_of ?c = slot_of c" by (simp add: slot_of_def fun_eq_iff)
  have mem: "v \<in># contents c \<longleftrightarrow> v \<in> set (table_of c 1 ! nat ?i) \<or> v \<in> set (table_of c 2 ! nat ?j)"
    using cuckoo_tables.in_contents_home [OF assms(1,3)] by (simp add: table_of_12)
  have "\<exists>r e. insert_once (locked ?c {}) v ?i ?j = Some (r, e) \<and> res_status r \<in> {DUPLICATE, SUCCESS}"
    using insert_once_eq [of ?c ?i ?j v] sh assms(4) mem free [of 1 ?i] free [of 2 ?j]
    by (auto simp: slot table_of_12)
  then obtain r e where re: "insert_once (locked ?c {}) v ?i ?j = Some (r, e)"
    "res_status r \<in> {DUPLICATE, SUCCESS}" by blast
  obtain en where "end_status en = res_status r" "ends_as c v en (insert_attempt c v ?i ?j)"
    using attempt_ends_as [OF assms(1-3) re(1)] by blast
  with re(2) obtain b d where "insert_attempt c v ?i ?j = Some (Some b, d)" "b = (v \<notin># contents c)"
    "quiet c d"
    by (cases en) (auto simp: ends_as_def)
  then show ?thesis using sh by (simp add: Cuckoo_insert_loop quiet_def)
qed

theorem insert_returns_witness:
  "\<exists>d. Cuckoo_insert 1 small_table 7 = Done (True, d) \<and> buckets d = buckets small_table"
proof -
  have "EMPTY \<in> set (table1 small_table ! nat (home small_table 1 7))" by code_simp
  with insert_returns [OF small_table_ok(1,2), of 7 0] show ?thesis
    by (simp add: EMPTY_def small_table_ok(3))
qed

text \<open>\<open>contains\<close> with a non-zero element returns whether it is stored and changes nothing.\<close>

theorem contains_refines:
  assumes "table_wf c" "unlocked c" "v \<noteq> EMPTY"
  shows "Cuckoo_contains c v = Some (v \<in># contents c, c)"
  by (rule contains_iff [OF assms])

theorem contains_refines_witness: "Cuckoo_contains small_table 5 = Some (True, small_table)"
  using contains_refines [OF small_table_ok(1,2), of 5] by (simp add: EMPTY_def small_table_ok(3))

text \<open>\<open>remove\<close> with a non-zero element returns whether it was stored, takes out one copy of
  it, and leaves a well-formed table of the same number of buckets with all locks free.\<close>

theorem remove_refines:
  assumes "table_wf c" "unlocked c" "v \<noteq> EMPTY"
  shows "\<exists>d. Cuckoo_remove c v = Some (v \<in># contents c, d) \<and> contents d = contents c - {#v#}
           \<and> table_wf d \<and> unlocked d \<and> buckets d = buckets c"
  using remove_correct [OF assms] by metis

theorem remove_refines_witness:
  "\<exists>d. Cuckoo_remove small_table 5 = Some (True, d) \<and> contents d = {#}"
  using remove_refines [OF small_table_ok(1,2), of 5] by (auto simp: EMPTY_def small_table_ok(3))

text \<open>\<open>size\<close> is the number of stored elements.\<close>

theorem size_counts:
  assumes "table_wf c"
  shows "Cuckoo_size c = int (size (contents c))"
  by (rule size_correct [of WIDTH]) (use assms in \<open>simp add: table_wf_w_def\<close>)

subsection \<open>Attempts\<close>

lemma shaped_examples:
  "shaped crowded_table" "unlocked crowded_table" "capacity crowded_table = 2"
  by (simp_all add: crowded_table_def shaped_w_def capacity_def rect_def WIDTH_def unlocked_def
      holds_locks_def lock_image_empty Cuckoo_new_def)

text \<open>The private \<open>insert\<close> never faults (no array access out of range, no lock taken twice or
  released while free, no overflow of a path code), whatever the two bucket indices; it keeps
  every element and its placement, returns DUPLICATE exactly when it saw the element, holds
  exactly the two bucket locks on SUCCESS, with a free slot of one of the two buckets for the
  caller to fill, and no lock otherwise.\<close>

theorem attempt_safe:
  assumes "shaped c" "unlocked c" "in_range idx1 (capacity c)" "in_range idx2 (capacity c)"
  shows "\<exists>r d. insert_once c val idx1 idx2 = Some (r, d) \<and> attempt_result c val idx1 idx2 r d"
  using insert_once_ok [OF assms(1,3,4), of val] by (simp add: unlocked_locked assms(2))

theorem attempt_safe_witness:
  "\<exists>r d. insert_once crowded_table 26 0 1 = Some (r, d) \<and> attempt_result crowded_table 26 0 1 r d"
  using attempt_safe [OF shaped_examples(1,2), of 0 1 26] by (simp add: shaped_examples(3))

text \<open>An attempt that runs alone needs no retry when the path that the search found visits no
  cell twice: its displacements all pass their checks and it reports SUCCESS.\<close>

theorem attempt_succeeds:
  assumes "shaped c" "unlocked c" "in_range idx1 (capacity c)" "in_range idx2 (capacity c)"
    and "val \<notin> set (table1 c ! nat idx1)" "val \<notin> set (table2 c ! nat idx2)"
    and "searched_path c idx1 idx2 = Some (path, c')" "distinct path"
  shows "\<exists>r d. insert_once c val idx1 idx2 = Some (r, d) \<and> res_status r = SUCCESS"
  using insert_once_succeeds [OF assms(1,3,4), of val path c'] assms
  by (simp add: unlocked_locked table_of_12)

text \<open>C4: The search always ends, within the queue that the depth bound allows; a point that it
  returns has a path code that fits an \<open>int\<close>, the decoding loop of \<open>insert\<close> recovers from it the
  root and one slot per displacement that it encodes, and following those slots leads to the
  bucket of the point, where the last slot is free.\<close>

theorem search_path:
  assumes "shaped c" "in_range idx1 (capacity c)" "in_range idx2 (capacity c)"
  shows "\<exists>p r. search c idx1 idx2 = Some (p, c\<lparr>rng_state := r\<rparr>) \<and>
    (p = no_point \<or>
     (\<exists>ss s rt. decode_path p = Some (ss @ [s], rt) \<and> pt_pathcode p = path_code rt (ss @ [s])
        \<and> fits_int (pt_pathcode p) \<and> rt \<in> {0, 1} \<and> pt_depth p = int (length ss)
        \<and> (pt_table p, pt_index p) = chain_end c (root idx1 idx2 rt) ss
        \<and> cell c (pt_table p) (pt_index p) s = EMPTY))"
proof -
  obtain p r where p: "search c idx1 idx2 = Some (p, c\<lparr>rng_state := r\<rparr>)"
    "p = no_point \<or> found_point c idx1 idx2 p"
    using search_ok [OF assms] by blast
  show ?thesis
  proof (cases "p = no_point")
    case True
    with p show ?thesis by blast
  next
    case False
    with p obtain rt ss s where f: "rt \<in> {0, 1}" "\<forall>s\<in>set (ss @ [s]). in_range s WIDTH" "length ss \<le> 6"
      "pt_depth p = int (length ss)" "pt_pathcode p = path_code rt (ss @ [s])"
      "(pt_table p, pt_index p) = chain_end c (root idx1 idx2 rt) ss"
      "cell c (pt_table p) (pt_index p) s = EMPTY"
      unfolding found_point_def by blast
    have "decode_path p = Some (ss @ [s], rt)"
      using f(3-5) decode_slots_snoc [OF f(2), of rt "[]"]
      by (simp add: decode_path_def MAX_SEARCH_DEPTH_def nat_add_distrib)
    moreover have "fits_int (pt_pathcode p)"
      using f(1-3) path_code_small [of rt "ss @ [s]"] path_code_nonneg [of rt "ss @ [s]"]
      by (auto simp: f(5) fits_int_def int_max_def)
    ultimately show ?thesis using p(1) f by blast
  qed
qed

theorem search_path_witness:
  "\<exists>p r. search crowded_table 0 1 = Some (p, crowded_table\<lparr>rng_state := r\<rparr>) \<and> p \<noteq> no_point
     \<and> fits_int (pt_pathcode p)"
proof -
  have "case search crowded_table 0 1 of Some (p, _) \<Rightarrow> pt_depth p = 1 | None \<Rightarrow> False"
    by code_simp
  moreover obtain p r where "search crowded_table 0 1 = Some (p, crowded_table\<lparr>rng_state := r\<rparr>)"
    "p = no_point \<or> fits_int (pt_pathcode p)"
    using search_path [OF shaped_examples(1), of 0 1] shaped_examples(3) by auto
  ultimately show ?thesis by (intro exI [of _ p] exI [of _ r]) (auto simp: no_point_def)
qed

subsection \<open>Locks\<close>

text \<open>\<open>lock_two\<close> and \<open>lock_three\<close> take each of the locks of their arguments once, in
  ascending order of the bucket index, whatever the order and the equalities of the arguments.\<close>

theorem locks_ascending:
  "lock_two ls i j = acquire_all ls (sorted_list_of_set {i, j}) \<and>
   lock_three ls i j k = acquire_all ls (sorted_list_of_set {i, j, k})"
  by (simp add: lock_two_acquires lock_three_acquires lock_two_order_sorted lock_three_order_def)

text \<open>\<open>unlock_three\<close> undoes \<open>lock_three\<close>: from free locks in range, the pair restores the
  lock array, with every other lock as it was.\<close>

theorem lock_unlock_three:
  assumes "in_range i (length ls)" "in_range j (length ls)" "in_range k (length ls)"
    and "held_set ls \<inter> {i, j, k} = {}"
  shows "do { l \<leftarrow> lock_three ls i j k; unlock_three l i j k } = Some ls"
proof -
  let ?n = "length ls" and ?A = "held_set ls"
  have "lock_three (lock_image ?n ?A) i j k = Some (lock_image ?n (?A \<union> {i, j, k}))"
    using assms by (intro lock_three_image) auto
  moreover have "unlock_three (lock_image ?n (?A \<union> {i, j, k})) i j k =
      Some (lock_image ?n (?A \<union> {i, j, k} - {i, j, k}))"
    using assms by (intro unlock_three_image) auto
  moreover have "?A \<union> {i, j, k} - {i, j, k} = ?A" using assms(4) by auto
  ultimately show ?thesis by (simp add: lock_image_held)
qed


definition waiting_sys :: lock_sys where
  "waiting_sys = idle_sys\<lparr>wanting := (wanting idle_sys)(0 := cuckoo_plan (Lock_three 3 1 2))\<rparr>"

lemma waiting_reachable: "lock_reachable cuckoo_plan waiting_sys"
  unfolding waiting_sys_def
  by (rule lock_reachable.step [OF lock_reachable.start], rule lock_step.request)
     (simp add: busy_def idle_sys_def)


text \<open>In every reachable state of those threads a bucket lock has at most one holder, so the
  critical sections of two threads touch no bucket in common.\<close>

theorem cuckoo_locks_exclude:
  assumes "lock_reachable cuckoo_plan s" "(l, Exclusive) \<in> set (holding s t)" "(l, m) \<in> set (holding s u)"
  shows "t = u"
  by (rule cuckoo_locks.exclusion [OF assms]) simp

definition granted_sys :: lock_sys where
  "granted_sys = \<lparr>holding = (\<lambda>_. [])(0 := [(4, Exclusive)]), wanting = (\<lambda>_. [])(0 := [])\<rparr>"

lemma granted_reachable: "lock_reachable cuckoo_plan granted_sys"
proof -
  let ?s = "idle_sys\<lparr>wanting := (wanting idle_sys)(0 := cuckoo_plan (Lock_two 4 4))\<rparr>"
  have "lock_reachable cuckoo_plan ?s"
    by (rule lock_reachable.step [OF lock_reachable.start], rule lock_step.request)
       (simp add: busy_def idle_sys_def)
  moreover have "advance ?s (?s\<lparr>wanting := (wanting ?s)(0 := []),
      holding := (holding ?s)(0 := (4, Exclusive) # holding ?s 0)\<rparr>)"
    by (rule advance.grant) (simp_all add: lock_two_order_def grantable_def idle_sys_def)
  ultimately show ?thesis
    by (auto intro: lock_reachable.step lock_step.proceed simp: granted_sys_def idle_sys_def)
qed

subsection \<open>Resizing\<close>

text \<open>C6: A \<open>resize\<close> that returns doubles the buckets and frees every lock, and stores exactly
  the elements that the first half of the old buckets held: the copying loop is bounded by a
  quarter of the doubled count.\<close>

theorem resize_keeps_first_half:
  assumes "table_wf c" "unlocked c" "resize (buckets c) c = Some d"
  shows "contents d = stored (take (capacity c div 2) (table1 c)) + stored (take (capacity c div 2) (table2 c))
       \<and> capacity d = 2 * capacity c \<and> unlocked d"
  using resize_keeps_half [OF table_wf_D(1) [OF assms(1)] assms(2,3)] by simp

theorem resize_keeps_first_half_witness:
  "\<exists>d. resize (buckets small_table) small_table = Some d \<and> 5 \<in># contents small_table \<and> contents d = {#}"
proof -
  have "resize (buckets small_table) small_table \<noteq> None" by code_simp
  then obtain d where d: "resize (buckets small_table) small_table = Some d" by blast
  have "capacity small_table = 2" by (simp add: small_table_def capacity_def Cuckoo_new_def)
  moreover have "stored (take 1 (table1 small_table)) = {#}" "stored (take 1 (table2 small_table)) = {#}"
    by (simp_all add: small_table_def stored_def Cuckoo_new_def Table_new_def EMPTY_def)
  ultimately have "stored (take (capacity small_table div 2) (table1 small_table)) = {#}"
    "stored (take (capacity small_table div 2) (table2 small_table)) = {#}" by simp_all
  with resize_keeps_first_half [OF small_table_ok(1,2) d] d show ?thesis
    by (simp add: small_table_ok(3))
qed


text \<open>A \<open>resize\<close> can write out of bounds: two old buckets of the second table share a
  bucket of the doubled one, which then has no free slot and \<open>isAvailable\<close> returns -1.  The 49th
  insertion into a new table of four buckets does it.\<close>

definition overflow_values :: "u32 list" where
  "overflow_values =
     [8, 9, 10, 11, 12, 13, 14, 15, 24, 25, 26, 27, 28, 29, 30, 31, 40, 41, 42, 43, 44, 45, 46, 47,
      1, 2, 3, 64, 65, 66, 4, 5, 6, 7, 68, 69, 56, 57, 58, 60, 61, 62, 72, 73, 74, 76, 77, 78]"

theorem resize_overruns:
  "(case insert_all 1 (Cuckoo_new 4 xorshf96_seed) overflow_values of
      Done c \<Rightarrow> Cuckoo_size c = 48 \<and> resize (buckets c) c = None \<and> Cuckoo_insert 1 c 79 = Fault
    | _ \<Rightarrow> False)"
  by code_simp

subsection \<open>The element zero\<close>

text \<open>Zero marks free slots, so a table with a free slot in the first bucket of table 1
  reports that it contains 0 and refuses to insert it, although it was never inserted.\<close>

theorem zero_looks_present:
  assumes "shaped c" "unlocked c" "EMPTY \<in> set (table1 c ! 0)"
  shows "Cuckoo_contains c EMPTY = Some (True, c) \<and> (\<exists>d. Cuckoo_insert (Suc fuel) c EMPTY = Done (False, d))"
proof -
  have h: "home c t EMPTY = 0" for t by (simp add: home_def EMPTY_def)
  have here: "EMPTY \<in> set (table_of (with_reader c) 1 ! nat 0)" using assms(3) by (simp add: table_of_12)
  have z: "in_range 0 (capacity (with_reader c))" using assms(1) by (simp add: shaped_w_def)
  have "insert_once (locked (with_reader c) {}) EMPTY 0 0 =
      Some (Result DUPLICATE 0 0 0, locked (with_reader c) {})"
    using insert_once_eq [of "with_reader c" 0 0 EMPTY] z assms(1) here by simp
  then have "insert_attempt c EMPTY 0 0 = Some (Some False, released (locked (with_reader c) {}))"
    using assms(2) by (simp add: insert_attempt_def rdlock_reader rwunlock_released unlocked_D)
  then show ?thesis
    using contains_correct [OF assms(1,2), of EMPTY] assms h
    by (simp add: Cuckoo_insert_loop table_of_12)
qed

theorem zero_looks_present_witness:
  "contents (Cuckoo_new 2 xorshf96_seed) = {#} \<and>
   Cuckoo_contains (Cuckoo_new 2 xorshf96_seed) EMPTY = Some (True, Cuckoo_new 2 xorshf96_seed)"
proof -
  have "EMPTY \<in> set (table1 (Cuckoo_new 2 xorshf96_seed) ! 0)" by code_simp
  with zero_looks_present [OF table_wf_D(1) [OF new_two(1)] new_two(2), of xorshf96_seed] show ?thesis
    by (simp add: new_two(3))
qed

end
