(* ===== verification/Wire.thy ===== *)
theory Wire
  imports Prelude
begin

text \<open>
  Bytes on the wire (DistributedKeyValueStore/Common/Connection.cpp and Connection.hpp, which
  ReplicatedKeyValueStoreRDMA/Common repeats): the growing \<open>Buffer\<close>, \<open>stream_data\<close> and
  \<open>socket_get_line\<close>.  A buffer's memory is a list of bytes, \<open>None\<close> for a byte that was allocated
  and never written; an access out of the allocation, or a read of such a byte, is a fault.  The
  system calls \<open>read\<close> and \<open>write\<close> are the list of the results that they give.  \<open>sprintf\<close>'s \<open>%d\<close>
  is \<open>dec\<close>, decimal printing.
\<close>

subsection \<open>Decimal printing\<close>

definition NUL :: char where "NUL = CHR 0x00"
definition newline :: char where "newline = CHR 0x0A"

definition c_char :: "char \<Rightarrow> int" where
  "c_char c = (let n = of_char c :: int in if n < 128 then n else n - 256)"

definition is_digit :: "char \<Rightarrow> bool" where
  "is_digit c \<longleftrightarrow> c_char CHR ''0'' \<le> c_char c \<and> c_char c \<le> c_char CHR ''9''"

definition digit :: "nat \<Rightarrow> char" where
  "digit d = char_of (48 + d)"

fun dec_nat :: "nat \<Rightarrow> string" where
  "dec_nat n = (if n < 10 then [digit n] else dec_nat (n div 10) @ [digit (n mod 10)])"

declare dec_nat.simps [simp del]

definition dec :: "int \<Rightarrow> string" where
  "dec i = (if i < 0 then CHR ''-'' # dec_nat (nat (- i)) else dec_nat (nat i))"

lemma of_char_digit: "d < 10 \<Longrightarrow> (of_char (digit d) :: int) = 48 + int d"
proof -
  assume "d < 10"
  then have "(of_char (digit d) :: nat) = 48 + d" by (simp add: digit_def)
  then show ?thesis by (metis of_nat_of_char of_nat_add of_nat_numeral)
qed

lemma c_char_digit: "d < 10 \<Longrightarrow> c_char (digit d) = 48 + int d"
  by (simp add: c_char_def of_char_digit Let_def)

lemma c_char_consts [simp]:
  "c_char CHR ''0'' = 48" "c_char CHR ''9'' = 57" "c_char CHR '','' = 44" "c_char CHR ''-'' = 45"
  "c_char NUL = 0" "c_char newline = 10"
  by (simp_all add: c_char_def NUL_def newline_def)

lemma is_digit_digit [simp]: "d < 10 \<Longrightarrow> is_digit (digit d)"
  by (simp add: is_digit_def c_char_digit)

lemma digits_dec_nat: "c \<in> set (dec_nat n) \<Longrightarrow> is_digit c"
proof (induction n rule: dec_nat.induct)
  case (1 n)
  then show ?case by (subst (asm) (2) dec_nat.simps) (auto split: if_splits)
qed

lemma is_digit_neq:
  "is_digit c \<Longrightarrow> c \<noteq> NUL \<and> c \<noteq> newline \<and> c \<noteq> CHR '','' \<and> c \<noteq> CHR ''-''"
  by (auto simp: is_digit_def)

lemma dec_nat_Nil [simp]: "dec_nat n \<noteq> []"
  by (subst dec_nat.simps) auto

subsection \<open>Buffer\<close>

type_synonym mem = "char option list"

record buffer =
  data :: mem
  currentSize :: u64
  maxSize :: u64

definition BUFFER_SIZE :: u64 where "BUFFER_SIZE = 8196"

definition Buffer_new :: "u64 \<Rightarrow> buffer" where
  "Buffer_new n = \<lparr>data = replicate (unat n) (Some NUL), currentSize = 0, maxSize = n\<rparr>"

text \<open>\<open>newMaxSize\<close> is a 32-bit variable.  Copying more bytes than were allocated is a fault.\<close>

definition Buffer_grow :: "buffer \<Rightarrow> buffer option" where
  "Buffer_grow b =
     (let newMaxSize = ucast (maxSize b * 2 + 1) :: u32;
          n = unat newMaxSize; c = unat (currentSize b)
      in if n < c \<or> length (data b) < c then None
         else Some (b\<lparr>data := take c (data b) @ replicate (n - c) None, maxSize := ucast newMaxSize\<rparr>))"

definition Buffer_add :: "buffer \<Rightarrow> char \<Rightarrow> buffer option" where
  "Buffer_add b ch =
     do { b \<leftarrow> (if currentSize b = maxSize b then Buffer_grow b else Some b);
          d \<leftarrow> upd (data b) (uint (currentSize b)) (Some ch);
          Some (b\<lparr>data := d, currentSize := currentSize b + 1\<rparr>) }"

definition buf_holds :: "buffer \<Rightarrow> string \<Rightarrow> bool" where
  "buf_holds b s \<longleftrightarrow> unat (currentSize b) = length s \<and> length (data b) = unat (maxSize b)
     \<and> length s \<le> unat (maxSize b) \<and> take (length s) (data b) = map Some s"

text \<open>The sizes that a buffer of \<open>BUFFER_SIZE\<close> bytes goes through until \<open>newMaxSize\<close> overflows.\<close>

definition buf_size_ok :: "buffer \<Rightarrow> bool" where
  "buf_size_ok b \<longleftrightarrow> (\<exists>k\<le>18. unat (maxSize b) = 8197 * 2 ^ k - 1)"

lemma buf_holds_new: "buf_holds (Buffer_new n) []"
  by (simp add: buf_holds_def Buffer_new_def)

lemma buf_size_new: "buf_size_ok (Buffer_new BUFFER_SIZE)"
  by (auto simp: buf_size_ok_def Buffer_new_def BUFFER_SIZE_def intro: exI [of _ 0])

lemma power2_le_18: "k \<le> 18 \<Longrightarrow> (2 :: nat) ^ k \<le> 262144"
  using power_increasing [of k 18 "2 :: nat"] by simp

lemma buf_add_room:
  assumes "buf_holds b s" "length s < unat (maxSize b)"
  shows "\<exists>b'. Buffer_add b c = Some b' \<and> buf_holds b' (s @ [c]) \<and> maxSize b' = maxSize b"
proof -
  have n: "unat (currentSize b) = length s" "length (data b) = unat (maxSize b)"
    "take (length s) (data b) = map Some s" using assms(1) by (auto simp: buf_holds_def)
  have "unat (maxSize b) < 2 ^ LENGTH(64)" by (rule unsigned_less)
  then have "length s < 2 ^ 64 - 1" using assms(2) by simp
  then have u: "unat (currentSize b + 1) = Suc (length s)"
    using n(1) by (simp add: unat_word_ariths)
  have ui: "uint (currentSize b) = int (length s)" using n(1) by (metis uint_nat)
  have "currentSize b \<noteq> maxSize b" using n(1) assms(2) by auto
  moreover have "length s < length (data b)" using assms(2) n(2) by simp
  then have "upd (data b) (uint (currentSize b)) (Some c) = Some ((data b)[length s := Some c])"
    by (simp add: upd_def ui)
  ultimately have "Buffer_add b c =
      Some (b\<lparr>data := (data b)[length s := Some c], currentSize := currentSize b + 1\<rparr>)"
    by (simp add: Buffer_add_def)
  moreover have "take (Suc (length s)) ((data b)[length s := Some c]) = map Some (s @ [c])"
    using assms(2) n by (simp add: take_Suc_conv_app_nth)
  ultimately show ?thesis
    using n u assms(2) by (simp add: buf_holds_def)
qed

lemma grow_size:
  assumes "unat (maxSize b) = 8197 * 2 ^ k - 1" "k < 18"
  shows "unat (ucast (ucast (maxSize b * 2 + 1) :: u32) :: u64) = 8197 * 2 ^ Suc k - 1"
    and "unat (ucast (maxSize b * 2 + 1) :: u32) = 8197 * 2 ^ Suc k - 1"
proof -
  have p: "(2 :: nat) ^ Suc k \<le> 262144" using power2_le_18 [of "Suc k"] assms(2) by simp
  have "(1 :: nat) \<le> 2 ^ k" by simp
  then have e: "2 * (8197 * 2 ^ k - 1) + 1 = 8197 * 2 ^ Suc k - (1 :: nat)"
    unfolding power_Suc by arith
  have lt: "8197 * 2 ^ Suc k - (1 :: nat) < 2 ^ 32" using p by simp
  have "unat (maxSize b * 2 + 1) = (unat (maxSize b) * 2 + 1) mod 2 ^ 64"
    by (simp add: unat_word_ariths mod_simps)
  also have "\<dots> = 8197 * 2 ^ Suc k - 1" using e lt by (simp add: assms(1) mult.commute)
  finally have m: "unat (maxSize b * 2 + 1) = 8197 * 2 ^ Suc k - 1" .
  then show u: "unat (ucast (maxSize b * 2 + 1) :: u32) = 8197 * 2 ^ Suc k - 1"
    using lt by (simp add: unsigned_ucast_eq take_bit_eq_mod)
  then show "unat (ucast (ucast (maxSize b * 2 + 1) :: u32) :: u64) = 8197 * 2 ^ Suc k - 1"
    using lt by (subst unsigned_ucast_eq) (simp add: take_bit_eq_mod del: power_Suc)
qed

lemma buf_grow:
  assumes "buf_holds b s" "currentSize b = maxSize b" "unat (maxSize b) = 8197 * 2 ^ k - 1" "k < 18"
  shows "\<exists>b'. Buffer_grow b = Some b' \<and> buf_holds b' s \<and> unat (maxSize b') = 8197 * 2 ^ Suc k - 1
           \<and> length s < unat (maxSize b') \<and> currentSize b' = currentSize b"
proof -
  have n: "unat (currentSize b) = length s" "length (data b) = unat (maxSize b)"
    "take (length s) (data b) = map Some s" using assms(1) by (auto simp: buf_holds_def)
  note g = grow_size [OF assms(3,4)]
  have "length s = 8197 * 2 ^ k - 1" using n(1) assms(2,3) by simp
  then have lt: "length s < 8197 * 2 ^ Suc k - 1"
    by (simp add: diff_less_mono)
  let ?b = "b\<lparr>data := take (length s) (data b) @ replicate (8197 * 2 ^ Suc k - 1 - length s) None,
      maxSize := ucast (ucast (maxSize b * 2 + 1) :: u32)\<rparr>"
  have "Buffer_grow b = Some ?b"
    using n lt assms(2) by (simp add: Buffer_grow_def Let_def g(2) del: power_Suc)
  moreover have "buf_holds ?b s" using n lt g(1) by (simp add: buf_holds_def del: power_Suc)
  ultimately show ?thesis using g(1) lt by (simp del: power_Suc)
qed

lemma buf_add:
  assumes "buf_holds b s" "buf_size_ok b" "length s < 2148794367"
  shows "\<exists>b'. Buffer_add b c = Some b' \<and> buf_holds b' (s @ [c]) \<and> buf_size_ok b'"
proof (cases "length s < unat (maxSize b)")
  case True
  with buf_add_room [OF assms(1) True, of c] assms(2) show ?thesis by (auto simp: buf_size_ok_def)
next
  case False
  then have len: "length s = unat (maxSize b)" using assms(1) by (simp add: buf_holds_def)
  obtain k where k: "k \<le> 18" "unat (maxSize b) = 8197 * 2 ^ k - 1" using assms(2) by (auto simp: buf_size_ok_def)
  have "k \<noteq> 18" using k(2) len assms(3) by auto
  have eq: "currentSize b = maxSize b"
    using assms(1) len by (simp add: buf_holds_def word_unat_eq_iff)
  obtain b' where b': "Buffer_grow b = Some b'" "buf_holds b' s" "unat (maxSize b') = 8197 * 2 ^ Suc k - 1"
    "length s < unat (maxSize b')" "currentSize b' = currentSize b"
    using buf_grow [OF assms(1) eq k(2)] k(1) \<open>k \<noteq> 18\<close> by auto
  obtain b'' where b'': "Buffer_add b' c = Some b''" "buf_holds b'' (s @ [c])" "maxSize b'' = maxSize b'"
    using buf_add_room [OF b'(2,4)] by blast
  have "currentSize b' \<noteq> maxSize b'" using b'(2,4) by (auto simp: buf_holds_def)
  then have "Buffer_add b c = Buffer_add b' c" using eq b'(1) by (simp add: Buffer_add_def)
  moreover have "buf_size_ok b''" unfolding buf_size_ok_def
    using b'(3) b''(3) k(1) \<open>k \<noteq> 18\<close> by (intro exI [of _ "Suc k"]) simp
  ultimately show ?thesis using b'' by auto
qed

text \<open>At 2148794367 bytes the doubled size no longer fits 32 bits.\<close>

lemma buf_add_overflow:
  assumes "currentSize b = 2148794367" "maxSize b = 2148794367"
  shows "Buffer_add b c = None"
  using assms by (simp add: Buffer_add_def Buffer_grow_def Let_def)

subsection \<open>Sockets\<close>

text \<open>One call of \<open>read\<close> with room for one byte, and one call of \<open>write\<close>.\<close>

datatype read_result = Byte char | Read_interrupted | Read_failed | Closed

datatype write_result = Sent nat | Write_interrupted | Write_failed

text \<open>\<open>None\<close> as a whole means blocked for ever on input that never comes, or a fault; the buffer is
  \<open>None\<close> where the code returns NULL.\<close>

fun get_line_loop :: "buffer \<Rightarrow> read_result list \<Rightarrow> (buffer option \<times> read_result list) option" where
  "get_line_loop b [] = None"
| "get_line_loop b (r # rs) =
     (case r of
        Read_failed \<Rightarrow> Some (None, rs)
      | Read_interrupted \<Rightarrow> get_line_loop b rs
      | Closed \<Rightarrow> Some (if currentSize b = 0 then None else Some b, rs)
      | Byte c \<Rightarrow>
          (case Buffer_add b c of
             None \<Rightarrow> None
           | Some b' \<Rightarrow> if c = newline then Some (Some b', rs) else get_line_loop b' rs))"

definition socket_get_line :: "read_result list \<Rightarrow> (buffer option \<times> read_result list) option" where
  "socket_get_line rs = get_line_loop (Buffer_new BUFFER_SIZE) rs"

text \<open>The loop of \<open>stream_data\<close>: whether \<open>errno\<close> is \<open>EINTR\<close> (a \<open>write\<close> that returns 0 leaves it as it
  was), the bytes written so far, the rest, the results of \<open>write\<close>.\<close>

fun stream_loop :: "bool \<Rightarrow> string \<Rightarrow> string \<Rightarrow> write_result list \<Rightarrow> (int \<times> string) option" where
  "stream_loop eintr sent rest [] = (if rest = [] then Some (0, sent) else None)"
| "stream_loop eintr sent rest (w # ws) =
     (if rest = [] then Some (0, sent)
      else case w of
             Write_failed \<Rightarrow> Some (-1, sent)
           | Write_interrupted \<Rightarrow> stream_loop True sent rest ws
           | Sent n \<Rightarrow>
               if n = 0 \<and> \<not> eintr then Some (-1, sent)
               else stream_loop eintr (sent @ take n rest) (drop n rest) ws)"

definition stream_data :: "bool \<Rightarrow> string \<Rightarrow> write_result list \<Rightarrow> (int \<times> string) option" where
  "stream_data eintr bytes ws = stream_loop eintr [] bytes ws"

fun bytes_of :: "read_result list \<Rightarrow> string" where
  "bytes_of [] = []"
| "bytes_of (Byte c # rs) = c # bytes_of rs"
| "bytes_of (_ # rs) = bytes_of rs"

definition clean :: "read_result list \<Rightarrow> bool" where
  "clean rs \<longleftrightarrow> Read_failed \<notin> set rs \<and> Closed \<notin> set rs"

lemma bytes_of_split:
  "bytes_of rs = s @ t \<Longrightarrow> \<exists>rs1 rs2. rs = rs1 @ rs2 \<and> bytes_of rs1 = s \<and> bytes_of rs2 = t"
proof (induction s arbitrary: rs)
  case Nil
  then show ?case by (intro exI [of _ "[]"] exI [of _ rs]) simp
next
  case (Cons c s)
  have "\<exists>us vs. rs = us @ Byte c # vs \<and> bytes_of us = [] \<and> bytes_of vs = s @ t" using Cons.prems
  proof (induction rs)
    case (Cons r rs)
    show ?case
    proof (cases r)
      case (Byte d)
      with Cons.prems show ?thesis by (intro exI [of _ "[]"] exI [of _ rs]) simp
    qed (use Cons in \<open>auto; metis append_Cons bytes_of.simps(3-5)\<close>)+
  qed simp
  then obtain us vs where u: "rs = us @ Byte c # vs" "bytes_of us = []" "bytes_of vs = s @ t" by blast
  from Cons.IH [OF u(3)] obtain v1 v2 where "vs = v1 @ v2" "bytes_of v1 = s" "bytes_of v2 = t" by blast
  moreover have "bytes_of (us @ Byte c # v1) = c # bytes_of v1" using u(2) by (induction us rule: bytes_of.induct) auto
  ultimately show ?case using u(1) by (intro exI [of _ "us @ Byte c # v1"] exI [of _ v2]) simp
qed

lemma get_line_loop_ok:
  assumes "buf_holds b s" "buf_size_ok b" "clean rs" "bytes_of rs = l @ [newline]" "newline \<notin> set l"
    and "length s + length l < 2148794367"
  shows "\<exists>b' rest. get_line_loop b (rs @ later) = Some (Some b', rest @ later) \<and> buf_holds b' (s @ l @ [newline])
           \<and> bytes_of rest = [] \<and> clean rest"
  using assms
proof (induction rs arbitrary: b s l)
  case (Cons r rs)
  show ?case
  proof (cases r)
    case (Byte c)
    obtain b' where b': "Buffer_add b c = Some b'" "buf_holds b' (s @ [c])" "buf_size_ok b'"
      using buf_add [OF Cons.prems(1,2)] Cons.prems(6) by auto
    show ?thesis
    proof (cases l)
      case Nil
      with Cons.prems Byte b' show ?thesis by (intro exI [of _ b'] exI [of _ rs]) (auto simp: clean_def)
    next
      case (Cons c' l')
      with Cons.prems Byte have l': "c' = c" "bytes_of rs = l' @ [newline]" "c \<noteq> newline" "newline \<notin> set l'"
        "clean rs" "length (s @ [c]) + length l' < 2148794367"
        by (auto simp: clean_def)
      from Cons.IH [OF b'(2,3) l'(5,2,4,6)] b' l' Byte Cons show ?thesis by auto
    qed
  qed (use Cons in \<open>auto simp: clean_def\<close>)
qed simp

lemma stream_loop_ok:
  "stream_loop e sent rest ws = Some (r, out) \<Longrightarrow>
   (r = 0 \<and> out = sent @ rest) \<or> (r = -1 \<and> (\<exists>k < length rest. out = sent @ take k rest))"
proof (induction ws arbitrary: e sent rest)
  case Nil
  then show ?case by (simp split: if_splits)
next
  case (Cons w ws)
  show ?case
  proof (cases "rest = [] \<or> w = Write_failed \<or> w = Sent 0 \<and> \<not> e")
    case True
    with Cons.prems show ?thesis by (cases "rest = []") (auto intro: exI [of _ 0])
  next
    case False
    then consider "w = Write_interrupted" | n where "w = Sent n" "n \<noteq> 0 \<or> e" by (cases w) auto
    then show ?thesis
    proof cases
      case 1
      with False Cons show ?thesis by simp
    next
      case (2 n)
      with False Cons.prems have "stream_loop e (sent @ take n rest) (drop n rest) ws = Some (r, out)"
        by (auto split: if_splits)
      from Cons.IH [OF this] show ?thesis
      proof (elim disjE conjE exE)
        fix k assume k: "r = -1" "k < length (drop n rest)" "out = (sent @ take n rest) @ take k (drop n rest)"
        then have "out = sent @ take (n + k) rest" "n + k < length rest"
          by (auto simp: take_add)
        with k(1) show ?thesis by blast
      qed simp
    qed
  qed
qed

text \<open>The loop ends once the successful writes cover what is left.\<close>

fun progress :: "write_result list \<Rightarrow> nat" where
  "progress [] = 0"
| "progress (Sent n # ws) = n + progress ws"
| "progress (_ # ws) = progress ws"

lemma stream_loop_returns:
  "length rest \<le> progress ws \<Longrightarrow> \<exists>r out. stream_loop e sent rest ws = Some (r, out)"
proof (induction ws arbitrary: e sent rest)
  case (Cons w ws)
  then show ?case by (cases w) (auto intro!: Cons.IH)
qed simp

end
