(* ===== verification/Protocol.thy ===== *)
theory Protocol
  imports Wire
begin

text \<open>
  The text protocol of the distributed store: DistributedKeyValueStore/Common/Message.cpp
  (\<open>verify\<close>, \<open>deserialize\<close>, \<open>getTwoNumbers\<close>), Common/Parser.hpp (\<open>parseNodes\<close>) and the
  printing and reading of messages and answers in App/Remote.cpp (\<open>sendMessage\<close>,
  \<open>awaitResponse\<close>) and Persistence/Server.cpp (\<open>send_response\<close>).  Signed overflow in the decimal
  loops is a fault.
\<close>

subsection \<open>Messages\<close>

datatype MESSAGE_TYPE = GET | PUT | INVALID

record message =
  protocol :: MESSAGE_TYPE
  msg_key :: int
  msg_val :: int

definition mem_at :: "mem \<Rightarrow> nat \<Rightarrow> char option" where
  "mem_at m i = (if i < length m then m ! i else None)"

text \<open>\<open>val * 10 + c - '0'\<close>, in the order of evaluation of the code.\<close>

definition add_digit :: "int \<Rightarrow> char \<Rightarrow> int option" where
  "add_digit v c =
     do { a \<leftarrow> as_int (v * 10); b \<leftarrow> as_int (a + c_char c); as_int (b - c_char CHR ''0'') }"

fun first_number :: "int \<Rightarrow> mem \<Rightarrow> (int \<times> mem) option" where
  "first_number v (Some c # m) =
     (if is_digit c then do { v' \<leftarrow> add_digit v c; first_number v' m } else Some (v, Some c # m))"
| "first_number v _ = None"

fun second_number :: "int \<Rightarrow> mem \<Rightarrow> int option" where
  "second_number v (Some c # m) =
     (if c = NUL then Some v else do { v' \<leftarrow> add_digit v c; second_number v' m })"
| "second_number v _ = None"

definition getTwoNumbers :: "mem \<Rightarrow> (int \<times> int) option" where
  "getTwoNumbers m =
     do { (val_1, m) \<leftarrow> first_number 0 m; val_2 \<leftarrow> second_number 0 (tl m); Some (val_1, val_2) }"

text \<open>\<open>strcmp(data, s) == 0\<close> for a string that ends within the memory.\<close>

fun strcmp_eq :: "mem \<Rightarrow> string \<Rightarrow> bool option" where
  "strcmp_eq (Some c # m) [] = Some (c = NUL)"
| "strcmp_eq (Some c # m) (d # ds) = (if c = d then strcmp_eq m ds else Some False)"
| "strcmp_eq _ _ = None"

definition deserialize :: "buffer \<Rightarrow> message option" where
  "deserialize b =
     do { d \<leftarrow> upd (data b) (uint (currentSize b) - 1) (Some NUL);
          d \<leftarrow> upd d 3 (Some NUL);
          get \<leftarrow> strcmp_eq d ''GET'';
          (k, v) \<leftarrow> getTwoNumbers (drop 4 d);
          Some \<lparr>protocol = (if get then GET else PUT), msg_key = k, msg_val = v\<rparr> }"

definition verify :: "buffer option \<Rightarrow> bool" where
  "verify ob = (case ob of
       None \<Rightarrow> False
     | Some b \<Rightarrow> if currentSize b < 8 then False
                else if mem_at (data b) 3 \<noteq> Some CHR '' '' then False else True)"

definition sendMessage :: "message \<Rightarrow> string" where
  "sendMessage m =
     (if protocol m = GET then ''GET'' else ''PUT'') @ '' '' @ dec (msg_key m) @ '','' @ dec (msg_val m) @ [newline]"

definition serialize :: "message \<Rightarrow> string" where
  "serialize m = ''PUT '' @ dec (msg_key m) @ '','' @ dec (msg_val m) @ [newline]"

subsection \<open>Reading what was printed\<close>

text \<open>The greatest number that the decimal loops read without signed overflow: the code adds the
  character code before it subtracts that of zero.\<close>

definition readable :: "int \<Rightarrow> bool" where
  "readable i \<longleftrightarrow> 0 \<le> i \<and> i \<le> int_max - 48"

lemma add_digit_ok:
  "0 \<le> v \<Longrightarrow> d < 10 \<Longrightarrow> readable (v * 10 + int d) \<Longrightarrow> add_digit v (digit d) = Some (v * 10 + int d)"
  by (auto simp: add_digit_def as_int_def fits_int_def c_char_digit readable_def int_max_def)

lemma readable_div: "readable (int n) \<Longrightarrow> readable (int (n div 10))"
  by (auto simp: readable_def int_max_def)

lemma ten: "int (n div 10) * 10 + int (n mod 10) = int n"
  by presburger

lemma number_induct:
  assumes step: "\<And>v d m. d < 10 \<Longrightarrow> 0 \<le> v \<Longrightarrow> readable (v * 10 + int d) \<Longrightarrow>
      f v (Some (digit d) # m) = f (v * 10 + int d) m"
    and "readable (int n)"
  shows "f 0 (map Some (dec_nat n) @ m) = f (int n) m"
  using assms(2)
proof (induction n arbitrary: m rule: dec_nat.induct)
  case (1 n)
  show ?case
  proof (cases "n < 10")
    case True
    then show ?thesis using step [of n 0 m] "1.prems" by (subst dec_nat.simps) simp
  next
    case False
    have "f 0 (map Some (dec_nat n) @ m) = f 0 (map Some (dec_nat (n div 10)) @ Some (digit (n mod 10)) # m)"
      using False by (subst dec_nat.simps) simp
    also have "\<dots> = f (int (n div 10)) (Some (digit (n mod 10)) # m)"
      by (rule "1.IH" [OF False readable_div [OF "1.prems"]])
    also have "\<dots> = f (int (n div 10) * 10 + int (n mod 10)) m"
      using "1.prems" ten [of n] by (intro step) simp_all
    finally show ?thesis using ten [of n] by simp
  qed
qed

lemma first_number_dec:
  "readable (int n) \<Longrightarrow> first_number 0 (map Some (dec_nat n) @ m) = first_number (int n) m"
  by (rule number_induct) (simp_all add: add_digit_ok)

lemma second_number_dec:
  "readable (int n) \<Longrightarrow> second_number 0 (map Some (dec_nat n) @ m) = second_number (int n) m"
  by (rule number_induct) (auto simp: add_digit_ok dest!: is_digit_neq [OF is_digit_digit])

lemma two_numbers_dec:
  assumes "readable k" "readable v"
  shows "getTwoNumbers (map Some (dec k @ '','' @ dec v @ [NUL]) @ m) = Some (k, v)"
proof -
  have d: "dec i = dec_nat (nat i)" "int (nat i) = i" if "readable i" for i
    using that by (auto simp: dec_def readable_def)
  have c: "\<not> is_digit CHR '',''" by (simp add: is_digit_def)
  have "first_number 0 (map Some (dec_nat (nat k)) @ Some CHR '','' # map Some (dec_nat (nat v)) @ Some NUL # m) =
      Some (k, Some CHR '','' # map Some (dec_nat (nat v)) @ Some NUL # m)"
    using first_number_dec [of "nat k"] assms(1) d(2) [OF assms(1)] c by simp
  moreover have "second_number 0 (map Some (dec_nat (nat v)) @ Some NUL # m) = Some v"
    using second_number_dec [of "nat v"] assms(2) d(2) [OF assms(2)] by simp
  ultimately show ?thesis by (simp add: getTwoNumbers_def d(1) assms)
qed

lemma sendMessage_shape:
  "\<exists>a b c. sendMessage m = [a, b, c, CHR '' ''] @ dec (msg_key m) @ '','' @ dec (msg_val m) @ [newline]
     \<and> ([a, b, c] = ''GET'') = (protocol m = GET)"
  by (auto simp: sendMessage_def)

lemma buf_data:
  assumes "buf_holds b s"
  obtains m where "data b = map Some s @ m"
proof (rule that)
  show "data b = map Some s @ drop (length s) (data b)"
    using assms by (metis append_take_drop_id buf_holds_def)
qed

lemma upd_middle: "upd (us @ c # vs) (int (length us)) x = Some (us @ x # vs)"
  by (simp add: upd_def)

lemma message_roundtrip:
  assumes "buf_holds b (sendMessage m)" "readable (msg_key m)" "readable (msg_val m)" "protocol m \<noteq> INVALID"
  shows "verify (Some b)" "deserialize b = Some m"
proof -
  obtain x y z where s: "sendMessage m = [x, y, z, CHR '' ''] @ dec (msg_key m) @ '','' @ dec (msg_val m) @ [newline]"
    and p: "([x, y, z] = ''GET'') = (protocol m = GET)"
    using sendMessage_shape by blast
  let ?n = "dec (msg_key m) @ '','' @ dec (msg_val m)"
  let ?L = "length ([x, y, z, CHR '' ''] @ ?n)"
  have ne: "dec (msg_key m) \<noteq> []" "dec (msg_val m) \<noteq> []" by (simp_all add: dec_def)
  have L: "7 \<le> ?L" using ne by (auto simp: Suc_le_eq neq_Nil_conv)
  obtain r where d: "data b = map Some (sendMessage m) @ r" using buf_data [OF assms(1)] .
  have u: "unat (currentSize b) = Suc ?L" using assms(1) s by (simp add: buf_holds_def)
  then have ui: "uint (currentSize b) = int (Suc ?L)" by (metis uint_nat)
  have "\<not> currentSize b < 8" using u L by (simp add: word_less_nat_alt)
  then show "verify (Some b)" by (simp add: verify_def d s mem_at_def)
  have z: "upd (data b) (uint (currentSize b) - 1) (Some NUL) =
      Some (map Some ([x, y, z, CHR '' ''] @ ?n @ [NUL]) @ r)"
    using upd_middle [of "map Some ([x, y, z, CHR '' ''] @ ?n)" "Some newline" r "Some NUL"]
    by (simp add: ui d s)
  have t: "upd (map Some ([x, y, z, CHR '' ''] @ ?n @ [NUL]) @ r) 3 (Some NUL) =
      Some (map Some ([x, y, z, NUL] @ ?n @ [NUL]) @ r)"
    by (simp add: upd_def eval_nat_numeral)
  have c: "strcmp_eq (map Some ([x, y, z, NUL] @ ?n @ [NUL]) @ r) ''GET'' = Some (protocol m = GET)"
    using p by auto
  have g: "getTwoNumbers (map Some (?n @ [NUL]) @ r) = Some (msg_key m, msg_val m)"
    using two_numbers_dec [OF assms(2,3), of r] by simp
  have m: "m = \<lparr>protocol = (if protocol m = GET then GET else PUT), msg_key = msg_key m, msg_val = msg_val m\<rparr>"
    using assms(4) by (cases m; cases "protocol m") auto
  have "deserialize b =
      Some \<lparr>protocol = (if protocol m = GET then GET else PUT), msg_key = msg_key m, msg_val = msg_val m\<rparr>"
    using z t c g by (simp add: deserialize_def eval_nat_numeral)
  then show "deserialize b = Some m" by (simp only: m [symmetric])
qed

subsection \<open>Answers\<close>

text \<open>\<open>atoi\<close> on a terminated string: white space, a sign, digits; the value must fit an \<open>int\<close>.\<close>

definition is_space :: "char \<Rightarrow> bool" where
  "is_space c \<longleftrightarrow> c = CHR '' '' \<or> (9 \<le> c_char c \<and> c_char c \<le> 13)"

fun skip_space :: "mem \<Rightarrow> mem" where
  "skip_space (Some c # m) = (if is_space c then skip_space m else Some c # m)"
| "skip_space m = m"

fun atoi_digits :: "int \<Rightarrow> mem \<Rightarrow> int option" where
  "atoi_digits v (Some c # m) = (if is_digit c then atoi_digits (v * 10 + (c_char c - 48)) m else Some v)"
| "atoi_digits v _ = None"

definition atoi :: "mem \<Rightarrow> int option" where
  "atoi m = (case skip_space m of
       Some c # m' \<Rightarrow>
         if c = CHR ''-'' then do { v \<leftarrow> atoi_digits 0 m'; as_int (- v) }
         else if c = CHR ''+'' then do { v \<leftarrow> atoi_digits 0 m'; as_int v }
         else do { v \<leftarrow> atoi_digits 0 (Some c # m'); as_int v }
     | _ \<Rightarrow> None)"

definition awaitResponse :: "buffer option \<Rightarrow> int option" where
  "awaitResponse ob = (case ob of
       None \<Rightarrow> Some (-1)
     | Some b \<Rightarrow> do { d \<leftarrow> upd (data b) (uint (currentSize b) - 1) (Some NUL); atoi d })"

definition send_response :: "int \<Rightarrow> string" where
  "send_response r = dec r @ [newline]"

lemma dec_small: "dec (-1) = ''-1''" "dec 0 = ''0''" "dec 1 = ''1''"
  by code_simp+

lemma answer_roundtrip:
  assumes "buf_holds b (send_response r)" "r \<in> {-1, 0, 1}"
  shows "awaitResponse (Some b) = Some r"
proof -
  obtain m where d: "data b = map Some (dec r) @ Some newline # m"
    using buf_data [OF assms(1)] by (auto simp: send_response_def)
  have "unat (currentSize b) = Suc (length (dec r))" using assms(1) by (simp add: buf_holds_def send_response_def)
  then have "uint (currentSize b) = int (Suc (length (dec r)))" by (metis uint_nat)
  then have "upd (data b) (uint (currentSize b) - 1) (Some NUL) = Some (map Some (dec r) @ Some NUL # m)"
    using upd_middle [of "map Some (dec r)" "Some newline" m "Some NUL"] by (simp add: d)
  moreover have "atoi (map Some (dec r) @ Some NUL # m) = Some r"
    using assms(2)
    by (auto simp: dec_small atoi_def is_space_def is_digit_def c_char_def NUL_def as_int_def fits_int_def
        int_max_def)
  ultimately show ?thesis by (simp add: awaitResponse_def)
qed

subsection \<open>The environment file\<close>

record server_node =
  server :: string
  port :: int

text \<open>\<open>parseNodes\<close> on a terminated string.  The loop variable is the position of the rest of the
  string, \<open>w\<close> the characters from \<open>window\<close> to there; running past the terminator is a fault.\<close>

fun port_loop :: "int \<Rightarrow> string \<Rightarrow> (int \<times> string) option" where
  "port_loop p (c # cs) = (if is_digit c then do { p' \<leftarrow> add_digit p c; port_loop p' cs } else Some (p, c # cs))"
| "port_loop p [] = None"

lemma port_loop_length: "port_loop p cs = Some (q, rest) \<Longrightarrow> length rest \<le> length cs"
  by (induction p cs rule: port_loop.induct) (auto split: if_splits)

function parse_loop :: "string \<Rightarrow> string \<Rightarrow> server_node list option" where
  "parse_loop w [] = None"
| "parse_loop w (c # cs) =
     (if c = NUL then Some []
      else if c = CHR '':'' then
        (case port_loop 0 cs of
           None \<Rightarrow> None
         | Some (p, rest) \<Rightarrow>
             (case parse_loop [] (tl rest) of
                None \<Rightarrow> None | Some ns \<Rightarrow> Some (\<lparr>server = w, port = p\<rparr> # ns)))
      else parse_loop (w @ [c]) cs)"
  by pat_completeness auto
termination
  by (relation "measure (\<lambda>(w, cs). length cs)") (auto dest: port_loop_length)

definition parseNodes :: "string \<Rightarrow> server_node list option" where
  "parseNodes line = parse_loop [] (line @ [NUL])"

text \<open>\<open>getEnvironment\<close> on the lines of the file, each with its newline; \<open>Inl\<close> is an exit code.\<close>

definition getEnvironment :: "string list option \<Rightarrow> (int + server_node list \<times> int) option" where
  "getEnvironment file =
     (case file of
        None \<Rightarrow> Some (Inl 1)
      | Some [] \<Rightarrow> Some (Inl 0)
      | Some (line # rest) \<Rightarrow>
          do { ns \<leftarrow> parseNodes line;
               (case rest of
                  [] \<Rightarrow> Some (Inl 0)
                | line2 # _ \<Rightarrow> do { clients \<leftarrow> atoi (map Some (line2 @ [NUL])); Some (Inr (ns, clients)) }) })"

definition print_node :: "server_node \<Rightarrow> string" where
  "print_node n = server n @ '':'' @ dec (port n)"

definition node_ok :: "server_node \<Rightarrow> bool" where
  "node_ok n \<longleftrightarrow> NUL \<notin> set (server n) \<and> CHR '':'' \<notin> set (server n) \<and> readable (port n)"

fun print_nodes :: "char \<Rightarrow> server_node list \<Rightarrow> string" where
  "print_nodes sep [] = []"
| "print_nodes sep (n # ns) = print_node n @ sep # print_nodes sep ns"

lemma port_loop_dec:
  assumes "readable (int n)"
  shows "port_loop 0 (dec_nat n @ cs) = port_loop (int n) cs"
proof -
  define f where "f v m = port_loop v (map the m)" for v m
  have "f 0 (map Some (dec_nat n) @ map Some cs) = f (int n) (map Some cs)"
    by (rule number_induct [OF _ assms]) (simp add: f_def add_digit_ok)
  then show ?thesis by (simp add: f_def comp_def)
qed

lemma parse_loop_name:
  "NUL \<notin> set s \<Longrightarrow> CHR '':'' \<notin> set s \<Longrightarrow> parse_loop w (s @ cs) = parse_loop (w @ s) cs"
  by (induction s arbitrary: w) auto

lemma parse_print_nodes:
  "\<forall>n\<in>set ns. node_ok n \<Longrightarrow> \<not> is_digit sep \<Longrightarrow>
   parse_loop [] (print_nodes sep ns @ [NUL]) = Some ns"
proof (induction ns)
  case (Cons n ns)
  have d: "dec (port n) = dec_nat (nat (port n))" "int (nat (port n)) = port n" "readable (port n)"
    using Cons.prems(1) by (auto simp: node_ok_def dec_def readable_def)
  have "port_loop 0 (dec_nat (nat (port n)) @ sep # print_nodes sep ns @ [NUL]) =
      Some (port n, sep # print_nodes sep ns @ [NUL])"
    using port_loop_dec [of "nat (port n)"] d(2,3) Cons.prems(2) by simp
  moreover have "parse_loop [] (print_nodes sep (n # ns) @ [NUL]) =
      parse_loop (server n) (CHR '':'' # dec_nat (nat (port n)) @ sep # print_nodes sep ns @ [NUL])"
    using parse_loop_name [of "server n" "[]"] Cons.prems(1) by (simp add: print_node_def node_ok_def d(1))
  ultimately show ?case using Cons by (simp add: NUL_def)
qed simp

text \<open>Without a character after the last port the loop steps over the terminator.\<close>

lemma parse_overruns:
  assumes "node_ok n"
  shows "parse_loop [] (print_node n @ [NUL]) = None"
proof -
  have d: "dec (port n) = dec_nat (nat (port n))" "int (nat (port n)) = port n" "readable (port n)"
    using assms by (auto simp: node_ok_def dec_def readable_def)
  have "\<not> is_digit NUL" by (simp add: is_digit_def)
  then have "port_loop 0 (dec_nat (nat (port n)) @ [NUL]) = Some (port n, [NUL])"
    using port_loop_dec [of "nat (port n)"] d by simp
  moreover have "parse_loop [] (print_node n @ [NUL]) =
      parse_loop (server n) (CHR '':'' # dec_nat (nat (port n)) @ [NUL])"
    using parse_loop_name [of "server n" "[]"] assms by (simp add: print_node_def node_ok_def d(1))
  ultimately show ?thesis by (simp add: NUL_def)
qed

end
