(* ===== verification/LazyList.thy ===== *)
theory LazyList
  imports SetObject
begin

text \<open>
  The lazy list of DistributedKeyValueStore (Persistence/KeyValueStore/ConcurrentList.cpp), run by
  any number of threads on a sequentially consistent memory.  The heap is a list of nodes whose
  addresses are positions; address 0 is the head sentinel, address 1 the tail sentinel, and
  \<open>new\<close> appends.  Each thread has a program counter (\<open>pc\<close>) with its local variables; a step of a
  thread performs at most one access to a shared field that another thread may be changing:
  one read of \<open>next\<close> or \<open>marked\<close> while it traverses, one lock operation, one write.  The fields
  that \<open>validateLink\<close> reads are protected by the two locks held there, and a new node is private
  until \<open>pred -> next\<close> is written, so those are one step.

  Executions are computed from a list of events (who invokes what, whose turn it is).  Two history
  variables record what happened and are read by no operation: \<open>hist t\<close>, the heaps since thread
  \<open>t\<close> invoked its current operation, latest first, and \<open>answers\<close>, the results returned.
\<close>

subsection \<open>Nodes\<close>

definition INT_MIN :: int where "INT_MIN = -2147483648"
definition INT_MAX :: int where "INT_MAX = 2147483647"

datatype RESULT = FALSE | TRUE | ABORT_FAILURE

record node =
  key :: int
  val :: int
  marked :: bool
  owner :: "nat option"
  "next" :: "nat option"

type_synonym heap = "node list"

definition Node :: "int \<Rightarrow> int \<Rightarrow> nat option \<Rightarrow> node" where
  "Node k v n = \<lparr>key = k, val = v, marked = False, owner = None, next = n\<rparr>"

definition LazyList_new :: heap where
  "LazyList_new = [Node INT_MIN INT_MIN (Some 1), Node INT_MAX INT_MAX None]"

definition set_owner :: "heap \<Rightarrow> nat \<Rightarrow> nat option \<Rightarrow> heap" where
  "set_owner h a w = h[a := (h ! a)\<lparr>owner := w\<rparr>]"

definition set_marked :: "heap \<Rightarrow> nat \<Rightarrow> heap" where
  "set_marked h a = h[a := (h ! a)\<lparr>marked := True\<rparr>]"

definition set_next :: "heap \<Rightarrow> nat \<Rightarrow> nat option \<Rightarrow> heap" where
  "set_next h a n = h[a := (h ! a)\<lparr>next := n\<rparr>]"

definition validateLink :: "heap \<Rightarrow> nat \<Rightarrow> nat \<Rightarrow> bool" where
  "validateLink h p r \<longleftrightarrow> next (h ! p) = Some r \<and> \<not> marked (h ! p) \<and> \<not> marked (h ! r)"

definition insert_node :: "heap \<Rightarrow> nat \<Rightarrow> nat \<Rightarrow> int \<Rightarrow> int \<Rightarrow> heap" where
  "insert_node h p r k v = set_next (h @ [Node k v (Some r)]) p (Some (length h))"

subsection \<open>Threads\<close>

datatype list_op = Contains_op int | Remove_op int | Add_op int int

fun op_key :: "list_op \<Rightarrow> int" where
  "op_key (Contains_op k) = k"
| "op_key (Remove_op k) = k"
| "op_key (Add_op k v) = k"

datatype pc =
    Idle
  | Start list_op
  | Seek list_op nat nat
  | Lock_pred list_op nat nat
  | Lock_runner list_op nat nat
  | Validate list_op nat nat
  | Commit list_op nat nat
  | Unlink list_op nat nat
  | Unlock_pred nat nat pc
  | Unlock_runner nat pc
  | Finish list_op RESULT
  | Crashed

text \<open>The statement that a thread executes next.  \<open>retry\<close> never becomes false, so a failed
  validation starts the operation again.\<close>

fun thread_step :: "heap \<Rightarrow> nat \<Rightarrow> pc \<Rightarrow> heap \<times> pc" where
  "thread_step h t (Start x) =
     (case x of
        Contains_op k \<Rightarrow> (h, Seek x 0 0)
      | _ \<Rightarrow> (h, case next (h ! 0) of Some n \<Rightarrow> Seek x 0 n | None \<Rightarrow> Crashed))"
| "thread_step h t (Seek x p r) =
     (h, if key (h ! r) < op_key x then (case next (h ! r) of Some n \<Rightarrow> Seek x r n | None \<Rightarrow> Crashed)
         else (case x of
                 Contains_op k \<Rightarrow> Finish x (if key (h ! r) = k \<and> \<not> marked (h ! r) then TRUE else FALSE)
               | _ \<Rightarrow> Lock_pred x p r))"
| "thread_step h t (Lock_pred x p r) =
     (if owner (h ! p) \<noteq> None then (h, Finish x ABORT_FAILURE)
      else (set_owner h p (Some t), Lock_runner x p r))"
| "thread_step h t (Lock_runner x p r) =
     (if owner (h ! r) \<noteq> None then (h, Unlock_runner p (Finish x ABORT_FAILURE))
      else (set_owner h r (Some t), Validate x p r))"
| "thread_step h t (Validate x p r) =
     (h, if validateLink h p r then Commit x p r else Unlock_pred p r (Start x))"
| "thread_step h t (Commit x p r) =
     (case x of
        Remove_op k \<Rightarrow>
          (if key (h ! r) = k then (set_marked h r, Unlink x p r)
           else (h, Unlock_pred p r (Finish x FALSE)))
      | Add_op k v \<Rightarrow>
          (if key (h ! r) \<noteq> k then (insert_node h p r k v, Unlock_pred p r (Finish x TRUE))
           else (h, Unlock_pred p r (Finish x FALSE)))
      | Contains_op k \<Rightarrow> (h, Crashed))"
| "thread_step h t (Unlink x p r) =
     (set_next h p (next (h ! r)), Unlock_pred p r (Finish x TRUE))"
| "thread_step h t (Unlock_pred p r c) = (set_owner h p None, Unlock_runner r c)"
| "thread_step h t (Unlock_runner r c) = (set_owner h r None, c)"
| "thread_step h t q = (h, q)"

record lsys =
  nodes :: heap
  pcs :: "nat \<Rightarrow> pc"
  hist :: "nat \<Rightarrow> heap list"
  answers :: "(nat \<times> list_op \<times> RESULT \<times> heap list) list"

definition lsys_new :: lsys where
  "lsys_new = \<lparr>nodes = LazyList_new, pcs = (\<lambda>_. Idle), hist = (\<lambda>_. []), answers = []\<rparr>"

datatype event = Invoke nat list_op | Turn nat

definition turn :: "lsys \<Rightarrow> nat \<Rightarrow> lsys" where
  "turn s t =
     (case pcs s t of
        Finish x res \<Rightarrow> s\<lparr>pcs := (pcs s)(t := Idle), answers := (t, x, res, hist s t) # answers s\<rparr>
      | q \<Rightarrow> (case thread_step (nodes s) t q of
                (h, q') \<Rightarrow> s\<lparr>nodes := h, pcs := (pcs s)(t := q'), hist := (\<lambda>u. h # hist s u)\<rparr>))"

fun list_event :: "lsys \<Rightarrow> event \<Rightarrow> lsys" where
  "list_event s (Invoke t x) =
     (if pcs s t = Idle
      then s\<lparr>pcs := (pcs s)(t := Start x), hist := (hist s)(t := [nodes s])\<rparr> else s)"
| "list_event s (Turn t) = turn s t"

definition list_exec :: "lsys \<Rightarrow> event list \<Rightarrow> lsys" where
  "list_exec = foldl list_event"

subsection \<open>The list in the heap\<close>

fun walk :: "nat \<Rightarrow> heap \<Rightarrow> nat option \<Rightarrow> nat list" where
  "walk 0 h a = []"
| "walk (Suc n) h None = []"
| "walk (Suc n) h (Some a) = a # walk n h (next (h ! a))"

definition spine :: "heap \<Rightarrow> nat list" where
  "spine h = walk (length h) h (Some 0)"

definition LazyList_size :: "heap \<Rightarrow> int" where
  "LazyList_size h = -2 + int (length (spine h))"

definition user_key :: "int \<Rightarrow> bool" where
  "user_key k \<longleftrightarrow> INT_MIN < k \<and> k < INT_MAX"

definition list_keys :: "heap \<Rightarrow> int set" where
  "list_keys h = {k \<in> (\<lambda>a. key (h ! a)) ` {a \<in> set (spine h). \<not> marked (h ! a)}. user_key k}"

fun linked :: "heap \<Rightarrow> nat list \<Rightarrow> bool" where
  "linked h (a # b # xs) \<longleftrightarrow> next (h ! a) = Some b \<and> linked h (b # xs)"
| "linked h [a] \<longleftrightarrow> next (h ! a) = None"
| "linked h [] \<longleftrightarrow> False"

lemma linked_walk: "linked h (a # xs) \<Longrightarrow> length xs < n \<Longrightarrow> walk n h (Some a) = a # xs"
proof (induction xs arbitrary: a n)
  case Nil
  then show ?case by (cases n; cases "n - 1") auto
next
  case (Cons b xs)
  then show ?case by (cases n) auto
qed

definition climbs :: "heap \<Rightarrow> nat \<Rightarrow> bool" where
  "climbs h a \<longleftrightarrow> (case next (h ! a) of
     None \<Rightarrow> a = 1 | Some b \<Rightarrow> a \<noteq> 1 \<and> b < length h \<and> key (h ! a) < key (h ! b))"

text \<open>The shape of the heap: every node but the tail points to a node of a greater key, the nodes
  on the list from the head end in the tail, and every node off the list is marked.\<close>

definition list_wf :: "heap \<Rightarrow> bool" where
  "list_wf h \<longleftrightarrow> 2 \<le> length h \<and> key (h ! 0) = INT_MIN \<and> key (h ! 1) = INT_MAX
     \<and> (\<forall>a < length h. climbs h a) \<and> \<not> marked (h ! 0) \<and> \<not> marked (h ! 1)
     \<and> linked h (spine h) \<and> set (spine h) \<subseteq> {..<length h}
     \<and> (\<forall>a < length h. \<not> marked (h ! a) \<longrightarrow> a \<in> set (spine h))"

lemma climbs_increases: "climbs h a \<Longrightarrow> next (h ! a) = Some b \<Longrightarrow> key (h ! a) < key (h ! b) \<and> b < length h"
  by (simp add: climbs_def)

lemma linked_sorted:
  "linked h (a # xs) \<Longrightarrow> \<forall>b\<in>set (a # xs). climbs h b \<Longrightarrow> \<forall>b\<in>set xs. key (h ! a) < key (h ! b)"
proof (induction xs arbitrary: a)
  case (Cons b xs)
  then have "key (h ! a) < key (h ! b)" by (auto dest: climbs_increases)
  moreover have "\<forall>x\<in>set xs. key (h ! b) < key (h ! x)" using Cons by auto
  ultimately show ?case by auto
qed simp

lemma linked_distinct:
  "linked h xs \<Longrightarrow> \<forall>b\<in>set xs. climbs h b \<Longrightarrow> sorted_wrt (\<lambda>a b. key (h ! a) < key (h ! b)) xs"
proof (induction xs rule: linked.induct)
  case (1 h a b xs)
  then show ?case using linked_sorted [of h a "b # xs"] by simp
qed auto

fun seg :: "heap \<Rightarrow> nat list \<Rightarrow> bool" where
  "seg h (a # b # xs) \<longleftrightarrow> next (h ! a) = Some b \<and> seg h (b # xs)"
| "seg h _ \<longleftrightarrow> True"

lemma linked_append: "linked h (us @ p # vs) \<longleftrightarrow> seg h (us @ [p]) \<and> linked h (p # vs)"
  by (induction h us rule: seg.induct) auto

lemma seg_cong: "\<forall>a\<in>set us. next (h' ! a) = next (h ! a) \<Longrightarrow> seg h' (us @ [p]) = seg h (us @ [p])"
  by (induction h us rule: seg.induct) auto

lemma linked_cong: "\<forall>a\<in>set xs. next (h' ! a) = next (h ! a) \<Longrightarrow> linked h' xs = linked h xs"
  by (induction h xs rule: linked.induct) auto

lemma sorted_wrt_key_distinct: "sorted_wrt (\<lambda>a b. f a < (f b :: int)) xs \<Longrightarrow> distinct xs"
  by (induction xs) auto

lemma linked_spine:
  assumes "linked h (0 # xs)" "set (0 # xs) \<subseteq> {..<length h}" "\<forall>a\<in>set (0 # xs). climbs h a"
  shows "spine h = 0 # xs"
proof -
  have "sorted_wrt (\<lambda>a b. key (h ! a) < key (h ! b)) (0 # xs)" by (rule linked_distinct [OF assms(1,3)])
  then have "distinct (0 # xs)" by (rule sorted_wrt_key_distinct)
  then have "card (set (0 # xs)) = length (0 # xs)" by (rule distinct_card)
  moreover have "card (set (0 # xs)) \<le> length h" using card_mono [OF _ assms(2)] by simp
  ultimately have "length xs < length h" by simp
  with assms(1) show ?thesis unfolding spine_def by (rule linked_walk)
qed

lemma wf_D:
  assumes "list_wf h"
  shows "0 < length h" "1 < length h" "key (h ! 0) = INT_MIN" "key (h ! 1) = INT_MAX"
    "\<And>a. a < length h \<Longrightarrow> climbs h a" "linked h (spine h)" "\<And>a. a \<in> set (spine h) \<Longrightarrow> a < length h"
    "\<And>a. a < length h \<Longrightarrow> \<not> marked (h ! a) \<Longrightarrow> a \<in> set (spine h)"
    "\<not> marked (h ! 0)" "\<not> marked (h ! 1)"
  using assms by (auto simp: list_wf_def)

lemma spine_Cons: "list_wf h \<Longrightarrow> \<exists>xs. spine h = 0 # xs"
  using wf_D(1) [of h] by (cases "length h") (auto simp: spine_def)

lemma spine_sorted:
  "list_wf h \<Longrightarrow> sorted_wrt (\<lambda>a b. key (h ! a) < key (h ! b)) (spine h)"
  by (rule linked_distinct) (auto intro: wf_D)

lemma sorted_wrt_key_inj:
  "sorted_wrt (\<lambda>a b. f a < (f b :: int)) xs \<Longrightarrow> a \<in> set xs \<Longrightarrow> b \<in> set xs \<Longrightarrow> f a = f b \<Longrightarrow> a = b"
  by (induction xs) auto

lemma spine_key_inj:
  "list_wf h \<Longrightarrow> a \<in> set (spine h) \<Longrightarrow> b \<in> set (spine h) \<Longrightarrow> key (h ! a) = key (h ! b) \<Longrightarrow> a = b"
  by (rule sorted_wrt_key_inj [OF spine_sorted])

lemma spine_split:
  assumes "list_wf h" "p \<in> set (spine h)" "next (h ! p) = Some r"
  obtains us vs where "spine h = us @ p # r # vs"
proof -
  obtain us ws where s: "spine h = us @ p # ws" using assms(2) by (meson split_list)
  with wf_D(6) [OF assms(1)] have "linked h (p # ws)" by (simp add: linked_append)
  with assms(3) obtain vs where "ws = r # vs" by (cases ws) auto
  with s that show ?thesis by blast
qed

text \<open>Two neighbours on the list have no key between them.\<close>

lemma spine_adjacent:
  assumes "list_wf h" "p \<in> set (spine h)" "next (h ! p) = Some r"
  shows "r \<in> set (spine h)"
    and "c \<in> set (spine h) \<Longrightarrow> key (h ! c) \<le> key (h ! p) \<or> key (h ! r) \<le> key (h ! c)"
proof -
  obtain us vs where s: "spine h = us @ p # r # vs" using spine_split [OF assms] .
  then show "r \<in> set (spine h)" by simp
  show "key (h ! c) \<le> key (h ! p) \<or> key (h ! r) \<le> key (h ! c)" if "c \<in> set (spine h)"
    using that spine_sorted [OF assms(1)] by (auto simp: s sorted_wrt_append)
qed

lemma list_keys_iff:
  "k \<in> list_keys h \<longleftrightarrow> user_key k \<and> (\<exists>a\<in>set (spine h). \<not> marked (h ! a) \<and> key (h ! a) = k)"
  by (auto simp: list_keys_def)

lemma list_keysI: "a \<in> set (spine h) \<Longrightarrow> \<not> marked (h ! a) \<Longrightarrow> user_key (key (h ! a)) \<Longrightarrow> key (h ! a) \<in> list_keys h"
  by (auto simp: list_keys_def)

lemma not_between:
  assumes "list_wf h" "p \<in> set (spine h)" "next (h ! p) = Some r" "key (h ! p) < k" "k < key (h ! r)"
  shows "k \<notin> list_keys h"
proof
  assume "k \<in> list_keys h"
  then obtain c where "c \<in> set (spine h)" "key (h ! c) = k" by (auto simp: list_keys_def)
  with spine_adjacent(2) [OF assms(1-3), of c] assms(4,5) show False by simp
qed

lemma marked_absent:
  assumes "list_wf h" "a \<in> set (spine h)" "marked (h ! a)"
  shows "key (h ! a) \<notin> list_keys h"
proof
  assume "key (h ! a) \<in> list_keys h"
  then obtain c where "c \<in> set (spine h)" "\<not> marked (h ! c)" "key (h ! c) = key (h ! a)"
    by (auto simp: list_keys_def)
  with spine_key_inj [OF assms(1) _ assms(2)] assms(3) show False by auto
qed

subsection \<open>What one step does to the heap\<close>

lemma nth_set_owner [simp]: "set_owner h a w ! b = (if b = a \<and> a < length h then (h ! a)\<lparr>owner := w\<rparr> else h ! b)"
  by (auto simp: set_owner_def nth_list_update list_update_beyond not_less)

lemma nth_set_marked [simp]: "set_marked h a ! b = (if b = a \<and> a < length h then (h ! a)\<lparr>marked := True\<rparr> else h ! b)"
  by (auto simp: set_marked_def nth_list_update list_update_beyond not_less)

lemma nth_set_next [simp]: "set_next h a n ! b = (if b = a \<and> a < length h then (h ! a)\<lparr>next := n\<rparr> else h ! b)"
  by (auto simp: set_next_def nth_list_update list_update_beyond not_less)

lemma length_sets [simp]:
  "length (set_owner h a w) = length h" "length (set_marked h a) = length h"
  "length (set_next h a n) = length h" "length (insert_node h p r k v) = Suc (length h)"
  by (simp_all add: set_owner_def set_marked_def set_next_def insert_node_def)

lemma walk_cong: "(\<And>a. next (h' ! a) = next (h ! a)) \<Longrightarrow> walk n h' a = walk n h a"
  by (induction n h a rule: walk.induct) auto

lemma spine_same [simp]: "spine (set_owner h a w) = spine h" "spine (set_marked h a) = spine h"
  unfolding spine_def length_sets by (rule walk_cong; simp)+

lemma climbs_same: "climbs (set_owner h a w) b = climbs h b" "climbs (set_marked h a) b = climbs h b"
  by (auto simp: climbs_def split: option.splits)

lemma wf_set_owner [simp]: "list_wf (set_owner h a w) = list_wf h"
proof -
  have "linked (set_owner h a w) xs = linked h xs" for xs by (rule linked_cong) auto
  then show ?thesis by (auto simp: list_wf_def climbs_same)
qed

lemma wf_set_marked: "list_wf h \<Longrightarrow> 1 < a \<Longrightarrow> list_wf (set_marked h a)"
proof -
  have "linked (set_marked h a) xs = linked h xs" for xs by (rule linked_cong) auto
  then show "list_wf h \<Longrightarrow> 1 < a \<Longrightarrow> ?thesis" by (auto simp: list_wf_def climbs_same)
qed

lemma list_keys_owner [simp]: "list_keys (set_owner h a w) = list_keys h"
  by (force simp: list_keys_def)

lemma list_keys_mark:
  assumes "list_wf h" "r \<in> set (spine h)"
  shows "list_keys (set_marked h r) = list_keys h - {key (h ! r)}"
proof (rule set_eqI)
  fix k
  have "marked (set_marked h r ! a) \<longleftrightarrow> a = r \<or> marked (h ! a)" "key (set_marked h r ! a) = key (h ! a)" for a
    using wf_D(7) [OF assms] by auto
  then show "k \<in> list_keys (set_marked h r) \<longleftrightarrow> k \<in> list_keys h - {key (h ! r)}"
    using spine_key_inj [OF assms(1) _ assms(2)] assms(2)
    by (simp add: list_keys_iff del: nth_set_marked) metis
qed

lemma linked_change:
  assumes "list_wf h" "spine h = us @ p # ws" "linked h' (p # ws')"
    and "\<forall>a\<in>set us. next (h' ! a) = next (h ! a)"
    and "set ws' \<subseteq> {..<length h'}" "length h \<le> length h'" "\<forall>a < length h'. climbs h' a"
  shows "spine h' = us @ p # ws'" and "linked h' (spine h')"
proof -
  have "seg h (us @ [p])" using wf_D(6) [OF assms(1)] by (simp add: assms(2) linked_append)
  then have l: "linked h' (us @ p # ws')" using assms(3,4) by (simp add: linked_append seg_cong [of us h' h])
  obtain xs where xs: "us @ p # ws = 0 # xs" using spine_Cons [OF assms(1)] by (auto simp: assms(2))
  then obtain ys where ys: "us @ p # ws' = 0 # ys" by (cases us) auto
  have "set (us @ p # ws') \<subseteq> {..<length h'}"
    using wf_D(7) [OF assms(1)] assms(2,5,6) by fastforce
  then have "spine h' = 0 # ys" using l assms(7) unfolding ys by (intro linked_spine) auto
  then show "spine h' = us @ p # ws'" "linked h' (spine h')" using ys l by simp_all
qed

text \<open>Inserting between two neighbours.\<close>

lemma nth_insert_node:
  "p < length h \<Longrightarrow> insert_node h p r k v ! a =
     (if a = p then (h ! p)\<lparr>next := Some (length h)\<rparr>
      else if a < length h then h ! a else if a = length h then Node k v (Some r) else (h @ [Node k v (Some r)]) ! a)"
  by (auto simp: insert_node_def nth_append)

lemma insert_node_spine:
  assumes "list_wf h" "p \<in> set (spine h)" "next (h ! p) = Some r" "key (h ! p) < k" "k < key (h ! r)"
    and "\<not> marked (h ! p)"
  fixes v :: int
  defines "h' \<equiv> insert_node h p r k v"
  shows "list_wf h'" and "set (spine h') = insert (length h) (set (spine h))"
proof -
  obtain us vs where s: "spine h = us @ p # r # vs" using spine_split [OF assms(1-3)] .
  have p: "p < length h" "r < length h" using wf_D(7) [OF assms(1)] s by auto
  note nth = nth_insert_node [OF p(1), of r k v, folded h'_def]
  have len: "length h' = Suc (length h)" by (simp add: h'_def)
  have old: "key (h' ! a) = key (h ! a)" "marked (h' ! a) = marked (h ! a)" if "a < length h" for a
    using that by (auto simp: nth)
  have new: "h' ! length h = Node k v (Some r)" using p by (simp add: nth)
  have nx: "next (h' ! a) = next (h ! a)" if "a \<noteq> p" "a < length h" for a using that by (simp add: nth)
  have np: "next (h' ! p) = Some (length h)" by (simp add: nth)
  have p1: "p \<noteq> 1" using wf_D(5) [OF assms(1) p(1)] assms(3) by (auto simp: climbs_def)
  have cl: "\<forall>a < length h'. climbs h' a"
  proof (intro allI impI)
    fix a assume "a < length h'"
    then consider "a = length h" | "a = p" | "a < length h" "a \<noteq> p" using len by linarith
    then show "climbs h' a"
    proof cases
      case 1
      with new old(1) [OF p(2)] assms(5) p wf_D(2) [OF assms(1)] len show ?thesis
        by (simp add: climbs_def Node_def)
    next
      case 2
      with np new old(1) [OF p(1)] assms(4) p1 len show ?thesis by (simp add: climbs_def Node_def)
    next
      case 3
      with wf_D(5) [OF assms(1), of a] nx old(1) len show ?thesis
        by (auto simp: climbs_def split: option.splits)
    qed
  qed
  have dist: "distinct (us @ p # r # vs)" using sorted_wrt_key_distinct [OF spine_sorted [OF assms(1)]] s by simp
  have lt: "\<forall>a\<in>set (us @ p # r # vs). a < length h" using wf_D(7) [OF assms(1)] s by auto
  have "linked h (r # vs)" using wf_D(6) [OF assms(1)] s by (simp add: linked_append)
  moreover have "linked h' (r # vs) = linked h (r # vs)"
    using dist lt by (intro linked_cong ballI nx) auto
  ultimately have "linked h' (p # length h # r # vs)" using np new by (simp add: Node_def)
  moreover have "\<forall>a\<in>set us. next (h' ! a) = next (h ! a)" using dist lt by (intro ballI nx) auto
  moreover have "set (length h # r # vs) \<subseteq> {..<length h'}" using lt len by (auto simp: less_Suc_eq)
  ultimately have sp: "spine h' = us @ p # length h # r # vs" "linked h' (spine h')"
    using linked_change [OF assms(1) s, of h' "length h # r # vs"] cl len by auto
  then show "set (spine h') = insert (length h) (set (spine h))" by (auto simp: s)
  with sp(2) cl wf_D [OF assms(1)] old len show "list_wf h'"
    by (auto simp: list_wf_def less_Suc_eq)
qed

lemma insert_node_keys:
  assumes "list_wf h" "p \<in> set (spine h)" "next (h ! p) = Some r" "key (h ! p) < k" "k < key (h ! r)"
    and "\<not> marked (h ! p)" "user_key k"
  shows "list_keys (insert_node h p r k v) = insert k (list_keys h)"
proof -
  let ?h = "insert_node h p r k v"
  have p: "p < length h" using wf_D(7) [OF assms(1,2)] .
  have old: "key (?h ! a) = key (h ! a)" "marked (?h ! a) = marked (h ! a)" if "a \<in> set (spine h)" for a
    using wf_D(7) [OF assms(1) that] by (auto simp: nth_insert_node [OF p])
  have new: "?h ! length h = Node k v (Some r)" using p by (simp add: nth_insert_node)
  have sp: "set (spine ?h) = insert (length h) (set (spine h))" by (rule insert_node_spine(2) [OF assms(1-6)])
  show ?thesis
    by (rule set_eqI) (auto simp: list_keys_iff sp old new Node_def assms(7))
qed

text \<open>Unlinking a marked node.\<close>

lemma unlink_spine:
  assumes "list_wf h" "p \<in> set (spine h)" "next (h ! p) = Some r" "next (h ! r) = Some n"
    and "marked (h ! r)"
  defines "h' \<equiv> set_next h p (Some n)"
  shows "list_wf h'" and "set (spine h') = set (spine h) - {r}"
proof -
  obtain us ws where s: "spine h = us @ p # r # ws" using spine_split [OF assms(1-3)] .
  have "linked h (r # ws)" using wf_D(6) [OF assms(1)] s by (simp add: linked_append)
  with assms(4) obtain vs where ws: "ws = n # vs" by (cases ws) auto
  have lt: "\<forall>a\<in>set (us @ p # r # n # vs). a < length h" using wf_D(7) [OF assms(1)] s ws by auto
  have dist: "distinct (us @ p # r # n # vs)"
    using sorted_wrt_key_distinct [OF spine_sorted [OF assms(1)]] s ws by simp
  have nth: "h' ! a = (if a = p then (h ! p)\<lparr>next := Some n\<rparr> else h ! a)" for a
    using lt by (auto simp: h'_def)
  have inc: "key (h ! p) < key (h ! r)" "key (h ! r) < key (h ! n)"
    using climbs_increases [OF wf_D(5) [OF assms(1)]] assms(3,4) lt by auto
  have cl: "climbs h' a" if "a < length h" for a
    using wf_D(5) [OF assms(1) that] inc lt assms(3) by (auto simp: climbs_def nth h'_def split: option.splits)
  have "linked h (n # vs)" using \<open>linked h (r # ws)\<close> ws by simp
  moreover have "linked h' (n # vs) = linked h (n # vs)"
    using dist by (intro linked_cong) (auto simp: nth)
  ultimately have "linked h' (p # n # vs)" by (simp add: nth)
  moreover have "\<forall>a\<in>set us. next (h' ! a) = next (h ! a)" using dist by (auto simp: nth)
  moreover have "set (n # vs) \<subseteq> {..<length h'}" using lt by (auto simp: h'_def)
  ultimately have sp: "spine h' = us @ p # n # vs" "linked h' (spine h')"
    using linked_change [OF assms(1) s, of h' "n # vs"] cl by (simp_all add: h'_def)
  then show st: "set (spine h') = set (spine h) - {r}" using dist by (auto simp: s ws)
  have old: "key (h' ! a) = key (h ! a)" "marked (h' ! a) = marked (h ! a)" "length h' = length h" for a
    by (simp_all add: nth) (simp add: h'_def)
  show "list_wf h'"
    using sp(2) cl wf_D [OF assms(1)] st assms(5) by (auto simp: list_wf_def old)
qed

lemma unlink_keys:
  assumes "list_wf h" "p \<in> set (spine h)" "next (h ! p) = Some r" "next (h ! r) = Some n"
    and "marked (h ! r)"
  shows "list_keys (set_next h p (Some n)) = list_keys h"
proof -
  have "set (spine (set_next h p (Some n))) = set (spine h) - {r}" by (rule unlink_spine(2) [OF assms])
  then show ?thesis using assms(5) by (intro set_eqI) (auto simp: list_keys_iff split: if_splits)
qed

end
