(* ===== verification/LazyListInv.thy ===== *)
theory LazyListInv
  imports LazyList
begin

text \<open>
  The invariant of the lazy list under every interleaving of its threads: the heap keeps its
  shape, locks are held exactly by the threads that are between taking and releasing them, and
  the local variables of a thread fit the heap.  Each step changes only nodes that its thread has
  locked, and never the successor of a marked node.
\<close>

fun holds :: "pc \<Rightarrow> nat set" where
  "holds (Lock_runner x p r) = {p}"
| "holds (Validate x p r) = {p, r}"
| "holds (Commit x p r) = {p, r}"
| "holds (Unlink x p r) = {p, r}"
| "holds (Unlock_pred p r c) = {p, r}"
| "holds (Unlock_runner r c) = {r}"
| "holds q = {}"

fun updates :: "list_op \<Rightarrow> bool" where
  "updates (Contains_op k) = False"
| "updates x = True"

definition target :: "heap \<Rightarrow> list_op \<Rightarrow> nat \<Rightarrow> nat \<Rightarrow> bool" where
  "target h x p r \<longleftrightarrow> updates x \<and> user_key (op_key x) \<and> p < length h \<and> r < length h
     \<and> key (h ! p) < op_key x \<and> op_key x \<le> key (h ! r)"

fun pc_ok :: "heap \<Rightarrow> pc \<Rightarrow> bool" where
  "pc_ok h Idle \<longleftrightarrow> True"
| "pc_ok h (Start x) \<longleftrightarrow> user_key (op_key x)"
| "pc_ok h (Seek x p r) \<longleftrightarrow> user_key (op_key x) \<and> p < length h \<and> r < length h \<and> key (h ! p) < op_key x"
| "pc_ok h (Lock_pred x p r) \<longleftrightarrow> target h x p r"
| "pc_ok h (Lock_runner x p r) \<longleftrightarrow> target h x p r"
| "pc_ok h (Validate x p r) \<longleftrightarrow> target h x p r"
| "pc_ok h (Commit x p r) \<longleftrightarrow> target h x p r \<and> validateLink h p r"
| "pc_ok h (Unlink x p r) \<longleftrightarrow> target h x p r \<and> x = Remove_op (key (h ! r))
     \<and> next (h ! p) = Some r \<and> \<not> marked (h ! p) \<and> marked (h ! r)"
| "pc_ok h (Unlock_pred p r c) \<longleftrightarrow> p < length h \<and> r < length h \<and> p \<noteq> r \<and> holds c = {} \<and> pc_ok h c"
| "pc_ok h (Unlock_runner r c) \<longleftrightarrow> r < length h \<and> holds c = {} \<and> pc_ok h c"
| "pc_ok h (Finish x res) \<longleftrightarrow> user_key (op_key x)"
| "pc_ok h Crashed \<longleftrightarrow> False"

definition evolves :: "nat set \<Rightarrow> heap \<Rightarrow> heap \<Rightarrow> bool" where
  "evolves A h h' \<longleftrightarrow> length h \<le> length h' \<and>
     (\<forall>a < length h. key (h' ! a) = key (h ! a)
        \<and> (a \<notin> A \<longrightarrow> next (h' ! a) = next (h ! a) \<and> marked (h' ! a) = marked (h ! a))
        \<and> (marked (h ! a) \<longrightarrow> marked (h' ! a) \<and> next (h' ! a) = next (h ! a))
        \<and> (a \<in> set (spine h) \<longrightarrow> \<not> marked (h ! a) \<longrightarrow> a \<in> set (spine h')))"

lemma evolves_refl [simp]: "evolves A h h"
  by (simp add: evolves_def)

lemma evolves_owner [simp]: "evolves A h (set_owner h a w)"
  by (auto simp: evolves_def)

lemma target_evolves: "evolves A h h' \<Longrightarrow> target h x p r \<Longrightarrow> target h' x p r"
  by (auto simp: evolves_def target_def)

lemma target_neq: "target h x p r \<Longrightarrow> p \<noteq> r"
  by (auto simp: target_def)

lemma pc_ok_evolves: "evolves A h h' \<Longrightarrow> pc_ok h q \<Longrightarrow> holds q \<inter> A = {} \<Longrightarrow> pc_ok h' q"
proof (induction q)
  case (Commit x p r)
  then have "target h x p r" "target h' x p r" by (auto intro: target_evolves)
  with Commit show ?case by (auto simp: validateLink_def evolves_def target_def)
next
  case (Unlink x p r)
  then have "target h x p r" "target h' x p r" by (auto intro: target_evolves)
  with Unlink show ?case by (auto simp: evolves_def target_def)
next
  case (Seek x p r)
  then show ?case by (auto simp: evolves_def)
next
  case (Unlock_pred p r c)
  then show ?case by (auto simp: evolves_def)
next
  case (Unlock_runner r c)
  then show ?case by (auto simp: evolves_def)
qed (auto intro: target_evolves)

definition owners_after :: "heap \<Rightarrow> nat \<Rightarrow> pc \<Rightarrow> heap \<Rightarrow> pc \<Rightarrow> bool" where
  "owners_after h t q h' q' \<longleftrightarrow> (\<forall>a < length h'. owner (h' ! a) =
     (if a \<in> holds q' then Some t else if a \<in> holds q \<or> length h \<le> a then None else owner (h ! a)))
     \<and> (\<forall>a\<in>holds q'. a \<in> holds q \<or> a < length h \<and> owner (h ! a) = None)"

definition owns :: "heap \<Rightarrow> nat \<Rightarrow> pc \<Rightarrow> bool" where
  "owns h t q \<longleftrightarrow> (\<forall>a < length h. owner (h ! a) = Some t \<longleftrightarrow> a \<in> holds q)"

text \<open>What a step of a thread in a good state guarantees.\<close>

definition good_step :: "heap \<Rightarrow> nat \<Rightarrow> pc \<Rightarrow> heap \<Rightarrow> pc \<Rightarrow> bool" where
  "good_step h t q h' q' \<longleftrightarrow>
     list_wf h' \<and> evolves (holds q) h h' \<and> pc_ok h' q' \<and> owners_after h t q h' q'"

lemma owners_same: "owns h t q \<Longrightarrow> holds q' = holds q \<Longrightarrow> owners_after h t q h q'"
  by (auto simp: owns_def owners_after_def)

lemma wf_next:
  assumes "list_wf h" "a < length h" "key (h ! a) < INT_MAX"
  obtains n where "next (h ! a) = Some n" "n < length h" "key (h ! a) < key (h ! n)"
  using wf_D(5) [OF assms(1,2)] wf_D(4) [OF assms(1)] assms(3)
  by (auto simp: climbs_def split: option.splits)

lemma step_Start:
  assumes "list_wf h" "pc_ok h (Start x)" "owns h t (Start x)" "thread_step h t (Start x) = (h', q')"
  shows "good_step h t (Start x) h' q'"
proof -
  have k: "INT_MIN < op_key x" "user_key (op_key x)" using assms(2) by (auto simp: user_key_def)
  obtain n where n: "next (h ! 0) = Some n" "n < length h"
    using wf_next [OF assms(1) wf_D(1) [OF assms(1)]] wf_D(3) [OF assms(1)]
    by (auto simp: INT_MIN_def INT_MAX_def)
  have l: "0 < length h" "key (h ! 0) < op_key x" using wf_D(1,3) [OF assms(1)] k by auto
  have "h' = h" "holds q' = {}" "pc_ok h q'"
    using assms(4) n l k by (auto split: list_op.splits)
  with assms(1,3) owners_same [of h t "Start x" q'] show ?thesis by (simp add: good_step_def)
qed

lemma step_Seek:
  assumes "list_wf h" "pc_ok h (Seek x p r)" "owns h t (Seek x p r)" "thread_step h t (Seek x p r) = (h', q')"
  shows "good_step h t (Seek x p r) h' q'"
proof -
  have k: "user_key (op_key x)" "r < length h" "p < length h" "key (h ! p) < op_key x" using assms(2) by auto
  have "h' = h" using assms(4) by auto
  moreover have "holds q' = {} \<and> pc_ok h q'"
  proof (cases "key (h ! r) < op_key x")
    case True
    then obtain n where "next (h ! r) = Some n" "n < length h"
      using wf_next [OF assms(1) k(2)] k(1) by (auto simp: user_key_def)
    with True k assms(4) show ?thesis by auto
  next
    case False
    with k assms(4) show ?thesis by (auto simp: target_def split: list_op.splits)
  qed
  ultimately show ?thesis using assms(1,3) owners_same [of h t "Seek x p r" q'] by (simp add: good_step_def)
qed

lemma step_locks:
  assumes "list_wf h" "pc_ok h q" "owns h t q" "thread_step h t q = (h', q')"
    and "q \<in> {Lock_pred x p r, Lock_runner x p r}"
  shows "good_step h t q h' q'"
proof -
  have tg: "target h x p r" "p < length h" "r < length h" "p \<noteq> r" "user_key (op_key x)"
    using assms(2,5) target_neq by (auto simp: target_def)
  have tg': "target (set_owner h a w) x p r" for a w by (rule target_evolves [OF evolves_owner tg(1)])
  show ?thesis
    using assms tg tg'
    by (auto simp: good_step_def owners_after_def owns_def split: if_splits)
qed

lemma step_Validate:
  assumes "list_wf h" "pc_ok h (Validate x p r)" "owns h t (Validate x p r)"
    and "thread_step h t (Validate x p r) = (h', q')"
  shows "good_step h t (Validate x p r) h' q'"
proof -
  have tg: "target h x p r" "p \<noteq> r" using assms(2) target_neq by auto
  have "h' = h" "holds q' = {p, r}" using assms(4) by (auto split: if_splits)
  moreover have "pc_ok h q'" using assms(4) tg by (auto simp: target_def)
  ultimately show ?thesis using assms(1,3) owners_same [of h t "Validate x p r" q'] by (simp add: good_step_def)
qed

lemma step_unlocks:
  assumes "list_wf h" "pc_ok h q" "owns h t q" "thread_step h t q = (h', q')"
    and "q \<in> {Unlock_pred p r c, Unlock_runner r c}"
  shows "good_step h t q h' q'"
proof -
  have "pc_ok (set_owner h a w) c" if "holds c = {}" "pc_ok h c" for a w
    using that pc_ok_evolves [OF evolves_owner, of h c "{}" a w] by simp
  with assms show ?thesis
    by (auto simp: good_step_def owners_after_def owns_def)
qed

lemma validated:
  assumes "list_wf h" "target h x p r" "validateLink h p r"
  shows "p \<in> set (spine h)" "r \<in> set (spine h)" "next (h ! p) = Some r" "\<not> marked (h ! p)" "\<not> marked (h ! r)"
  using assms wf_D(8) [OF assms(1)] by (auto simp: validateLink_def target_def)

lemma step_remove:
  assumes "list_wf h" "pc_ok h (Commit (Remove_op k) p r)" "owns h t (Commit (Remove_op k) p r)"
    and "key (h ! r) = k"
  shows "good_step h t (Commit (Remove_op k) p r) (set_marked h r) (Unlink (Remove_op k) p r)"
proof -
  have tg: "target h (Remove_op k) p r" "validateLink h p r" using assms(2) by auto
  have r: "r < length h" "p \<noteq> r" "p < length h" using tg(1) target_neq [OF tg(1)] by (auto simp: target_def)
  have "user_key (key (h ! r))" using tg(1) assms(4) by (simp add: target_def)
  then have "r \<noteq> 0" "r \<noteq> 1" using wf_D(3,4) [OF assms(1)] by (metis user_key_def less_irrefl)+
  then have wf: "list_wf (set_marked h r)" using assms(1) by (intro wf_set_marked) auto
  have ev: "evolves {p, r} h (set_marked h r)" by (auto simp: evolves_def)
  then have "pc_ok (set_marked h r) (Unlink (Remove_op k) p r)"
    using validated [OF assms(1) tg] target_evolves [OF ev tg(1)] r assms(4) by auto
  moreover have "owners_after h t (Commit (Remove_op k) p r) (set_marked h r) (Unlink (Remove_op k) p r)"
    using assms(3) by (auto simp: owners_after_def owns_def)
  ultimately show ?thesis using wf ev by (simp add: good_step_def del: pc_ok.simps)
qed

lemma step_add:
  assumes "list_wf h" "pc_ok h (Commit (Add_op k v) p r)" "owns h t (Commit (Add_op k v) p r)"
    and "key (h ! r) \<noteq> k"
  shows "good_step h t (Commit (Add_op k v) p r) (insert_node h p r k v)
           (Unlock_pred p r (Finish (Add_op k v) TRUE))"
proof -
  let ?h = "insert_node h p r k v"
  have tg: "target h (Add_op k v) p r" "validateLink h p r" using assms(2) by auto
  have r: "r < length h" "p < length h" "user_key k" "key (h ! p) < k" "k < key (h ! r)" "p \<noteq> r"
    using tg(1) assms(4) target_neq [OF tg(1)] by (auto simp: target_def)
  note va = validated [OF assms(1) tg]
  note sp = insert_node_spine [OF assms(1) va(1,3) r(4,5) va(4), of v]
  have "evolves {p, r} h ?h" using sp(2) va r by (auto simp: evolves_def nth_insert_node)
  moreover have "owners_after h t (Commit (Add_op k v) p r) ?h (Unlock_pred p r (Finish (Add_op k v) TRUE))"
    using assms(3) r by (auto simp: owners_after_def owns_def nth_insert_node Node_def less_Suc_eq)
  ultimately show ?thesis using sp(1) r by (auto simp: good_step_def)
qed

lemma step_Unlink:
  assumes "list_wf h" "pc_ok h (Unlink x p r)" "owns h t (Unlink x p r)"
    and "thread_step h t (Unlink x p r) = (h', q')"
  shows "good_step h t (Unlink x p r) h' q'" and "list_keys h' = list_keys h"
proof -
  have tg: "target h x p r" and x: "x = Remove_op (key (h ! r))"
    and l: "next (h ! p) = Some r" "\<not> marked (h ! p)" "marked (h ! r)" using assms(2) by auto
  have r: "r < length h" "p < length h" "p \<noteq> r" "user_key (key (h ! r))"
    using tg x target_neq [OF tg] by (auto simp: target_def)
  obtain n where n: "next (h ! r) = Some n" "n < length h"
    using wf_next [OF assms(1) r(1)] r(4) by (auto simp: user_key_def)
  have p: "p \<in> set (spine h)" using wf_D(8) [OF assms(1) r(2) l(2)] .
  note sp = unlink_spine [OF assms(1) p l(1) n(1) l(3)]
  have h': "h' = set_next h p (Some n)" "q' = Unlock_pred p r (Finish x TRUE)" using assms(4) n by auto
  have "evolves {p, r} h h'" unfolding evolves_def h' using sp(2) l r by auto
  moreover have "user_key (op_key x)" using tg by (simp add: target_def)
  moreover have "owners_after h t (Unlink x p r) h' q'"
    using assms(3) unfolding h' by (auto simp: owners_after_def owns_def)
  ultimately show "good_step h t (Unlink x p r) h' q'"
    using sp(1) r h' by (simp add: good_step_def)
  show "list_keys h' = list_keys h" unfolding h' by (rule unlink_keys [OF assms(1) p l(1) n(1) l(3)])
qed

lemma step_Commit:
  assumes "list_wf h" "pc_ok h (Commit x p r)" "owns h t (Commit x p r)"
    and "thread_step h t (Commit x p r) = (h', q')"
  shows "good_step h t (Commit x p r) h' q'"
proof (cases "(case x of Remove_op k \<Rightarrow> key (h ! r) = k | Add_op k v \<Rightarrow> key (h ! r) \<noteq> k | Contains_op k \<Rightarrow> False)")
  case True
  then show ?thesis using assms step_remove [of h] step_add [of h] by (auto split: list_op.splits)
next
  case False
  have "updates x" "p \<noteq> r" "p < length h" "r < length h" "user_key (op_key x)"
    using assms(2) target_neq [of h x p r] by (auto simp: target_def)
  with False assms show ?thesis
    by (cases x) (auto simp: good_step_def owners_after_def owns_def)
qed

lemma thread_step_good:
  assumes "list_wf h" "pc_ok h q" "owns h t q" "thread_step h t q = (h', q')"
  shows "good_step h t q h' q'"
proof (cases q)
  case (Lock_pred x p r)
  then show ?thesis using step_locks [OF assms, of x p r] by simp
next
  case (Lock_runner x p r)
  then show ?thesis using step_locks [OF assms, of x p r] by simp
next
  case (Unlock_pred p r c)
  then show ?thesis using step_unlocks [OF assms, of p r c] by simp
next
  case (Unlock_runner r c)
  then show ?thesis using step_unlocks [OF assms, of undefined r c] by simp
next
  case Idle
  with assms owners_same [of h t Idle Idle] show ?thesis by (auto simp: good_step_def)
next
  case (Finish x res)
  with assms owners_same [of h t "Finish x res" "Finish x res"] show ?thesis by (auto simp: good_step_def)
qed (use assms step_Start step_Seek step_Validate step_Commit step_Unlink in auto)

subsection \<open>The effect on the set of keys\<close>

fun effect :: "heap \<Rightarrow> pc \<Rightarrow> int set \<Rightarrow> int set" where
  "effect h (Commit (Remove_op k) p r) S = S - {k}"
| "effect h (Commit (Add_op k v) p r) S = insert k S"
| "effect h q S = S"

definition member_before :: "heap \<Rightarrow> pc \<Rightarrow> bool" where
  "member_before h q = (case q of Commit x p r \<Rightarrow> key (h ! r) = op_key x | _ \<Rightarrow> False)"

lemma commit_member:
  assumes "list_wf h" "pc_ok h (Commit x p r)"
  shows "op_key x \<in> list_keys h \<longleftrightarrow> key (h ! r) = op_key x"
proof -
  have tg: "target h x p r" "validateLink h p r" using assms(2) by auto
  note va = validated [OF assms(1) tg]
  have k: "key (h ! p) < op_key x" "op_key x \<le> key (h ! r)" "user_key (op_key x)"
    using tg(1) by (auto simp: target_def)
  show ?thesis
  proof
    assume "key (h ! r) = op_key x"
    with list_keysI [OF va(2,5)] k(3) show "op_key x \<in> list_keys h" by simp
  next
    assume "op_key x \<in> list_keys h"
    with not_between [OF assms(1) va(1,3) k(1)] k(2) show "key (h ! r) = op_key x" by force
  qed
qed

lemma thread_step_keys:
  assumes "list_wf h" "pc_ok h q" "owns h t q" "thread_step h t q = (h', q')"
  shows "list_keys h' = effect h q (list_keys h)"
proof (cases q)
  case (Commit x p r)
  have tg: "target h x p r" "validateLink h p r" using assms(2) Commit by auto
  note va = validated [OF assms(1) tg] and mem = commit_member [OF assms(1) assms(2) [unfolded Commit]]
  show ?thesis
  proof (cases x)
    case (Remove_op k)
    with assms(4) Commit mem list_keys_mark [OF assms(1) va(2)] show ?thesis
      by (auto split: if_splits)
  next
    case (Add_op k v)
    with assms(4) Commit mem tg insert_node_keys [OF assms(1) va(1,3), of k v] va(4) show ?thesis
      by (auto simp: target_def split: if_splits)
  qed (use tg in \<open>auto simp: target_def\<close>)
next
  case (Unlink x p r)
  with step_Unlink(2) [OF assms(1) assms(2-4) [unfolded Unlink]] show ?thesis by simp
qed (use assms(2,4) in \<open>auto split: list_op.splits if_splits\<close>)

subsection \<open>History\<close>

definition was_seen :: "heap list \<Rightarrow> nat \<Rightarrow> bool" where
  "was_seen hs a \<longleftrightarrow> (\<exists>g\<in>set hs. a \<in> set (spine g))"

definition was_absent :: "heap list \<Rightarrow> int \<Rightarrow> bool" where
  "was_absent hs k \<longleftrightarrow> (\<exists>g\<in>set hs. k \<notin> list_keys g)"

definition was_present :: "heap list \<Rightarrow> int \<Rightarrow> bool" where
  "was_present hs k \<longleftrightarrow> (\<exists>g\<in>set hs. k \<in> list_keys g)"

text \<open>Some step since the invocation changed the set of keys from one set to another.\<close>

definition changed :: "heap list \<Rightarrow> (int set \<Rightarrow> int set \<Rightarrow> bool) \<Rightarrow> bool" where
  "changed hs R \<longleftrightarrow> (\<exists>us g' g vs. hs = us @ g' # g # vs \<and> R (list_keys g) (list_keys g'))"

text \<open>An answer is justified if at some moment between invocation and response the set of keys
  was such that the sequential operation gives this answer, and changes the set as a step of that
  interval did.\<close>

fun justified :: "list_op \<Rightarrow> RESULT \<Rightarrow> heap list \<Rightarrow> bool" where
  "justified (Contains_op k) res hs \<longleftrightarrow> (res = TRUE \<and> was_present hs k) \<or> (res = FALSE \<and> was_absent hs k)"
| "justified (Add_op k v) res hs \<longleftrightarrow>
     (res = TRUE \<and> changed hs (\<lambda>S S'. k \<notin> S \<and> S' = insert k S)) \<or> (res = FALSE \<and> was_present hs k)
     \<or> res = ABORT_FAILURE"
| "justified (Remove_op k) res hs \<longleftrightarrow>
     (res = TRUE \<and> changed hs (\<lambda>S S'. k \<in> S \<and> S' = S - {k})) \<or> (res = FALSE \<and> was_absent hs k)
     \<or> res = ABORT_FAILURE"

lemma was_mono [simp]:
  "was_seen (g # hs) a \<longleftrightarrow> a \<in> set (spine g) \<or> was_seen hs a"
  "was_absent (g # hs) k \<longleftrightarrow> k \<notin> list_keys g \<or> was_absent hs k"
  "was_present (g # hs) k \<longleftrightarrow> k \<in> list_keys g \<or> was_present hs k"
  by (auto simp: was_seen_def was_absent_def was_present_def)

lemma changed_mono: "changed hs R \<Longrightarrow> changed (g # hs) R"
  unfolding changed_def by (metis append_Cons)

lemma changed_now: "R (list_keys g) (list_keys g') \<Longrightarrow> changed (g' # g # hs) R"
  unfolding changed_def by (metis append_Nil)

lemma justified_mono: "justified x res hs \<Longrightarrow> justified x res (g # hs)"
  by (cases x) (auto intro: changed_mono)

text \<open>A node that was on the list since the invocation, and is marked by now, points to such a
  node; no key of its own or between the two was stored all the time.\<close>

definition trail_at :: "heap list \<Rightarrow> heap \<Rightarrow> nat \<Rightarrow> int \<Rightarrow> bool" where
  "trail_at hs h a k \<longleftrightarrow> (\<exists>b. next (h ! a) = Some b \<and> was_seen hs b
     \<and> (key (h ! a) = k \<longrightarrow> was_absent hs k)
     \<and> (key (h ! a) < k \<longrightarrow> k < key (h ! b) \<longrightarrow> was_absent hs k))"

definition trail_ok :: "heap list \<Rightarrow> heap \<Rightarrow> bool" where
  "trail_ok hs h \<longleftrightarrow> (\<forall>a. was_seen hs a \<longrightarrow> a < length h \<and> (marked (h ! a) \<longrightarrow> (\<forall>k. trail_at hs h a k)))"

lemma trail_here:
  assumes "list_wf h" "a \<in> set (spine h)" "marked (h ! a)"
  shows "trail_at (h # hs) h a k"
proof -
  have a: "a < length h" using wf_D(7) [OF assms(1,2)] .
  have "a \<noteq> 1" using assms(3) wf_D(10) [OF assms(1)] by auto
  then obtain b where b: "next (h ! a) = Some b"
    using wf_D(5) [OF assms(1) a] by (auto simp: climbs_def split: option.splits)
  with spine_adjacent(1) [OF assms(1,2) b] marked_absent [OF assms] not_between [OF assms(1,2) b, of k]
  show ?thesis by (auto simp: trail_at_def)
qed

lemma trail_start: "list_wf h \<Longrightarrow> trail_ok [h] h"
  using trail_here [of h _ "[]"] wf_D(7) [of h] by (auto simp: trail_ok_def was_seen_def)

lemma trail_step:
  assumes "trail_ok hs h" "list_wf h" "list_wf h'" "evolves A h h'"
  shows "trail_ok (h' # hs) h'"
  unfolding trail_ok_def
proof (intro allI impI)
  fix a assume "was_seen (h' # hs) a"
  then have a: "a \<in> set (spine h') \<or> was_seen hs a" by simp
  then have len: "a < length h'"
    using assms wf_D(7) [OF assms(3)] by (auto simp: trail_ok_def evolves_def)
  moreover have "trail_at (h' # hs) h' a k" if m: "marked (h' ! a)" for k
  proof (cases "a \<in> set (spine h')")
    case True
    then show ?thesis using m by (intro trail_here [OF assms(3)])
  next
    case False
    with a assms(1) have sn: "was_seen hs a" "a < length h" by (auto simp: trail_ok_def)
    with False have "marked (h ! a)" using wf_D(8) [OF assms(2)] assms(4) by (auto simp: evolves_def)
    with sn assms(1) have "trail_at hs h a k" by (auto simp: trail_ok_def)
    then obtain b where b: "next (h ! a) = Some b" "was_seen hs b"
      "key (h ! a) = k \<longrightarrow> was_absent hs k" "key (h ! a) < k \<longrightarrow> k < key (h ! b) \<longrightarrow> was_absent hs k"
      by (auto simp: trail_at_def)
    have "b < length h" using assms(1) b(2) by (auto simp: trail_ok_def)
    with b assms(4) sn \<open>marked (h ! a)\<close> show ?thesis by (auto simp: trail_at_def evolves_def)
  qed
  ultimately show "a < length h' \<and> (marked (h' ! a) \<longrightarrow> (\<forall>k. trail_at (h' # hs) h' a k))" by simp
qed

fun pc_hist :: "heap list \<Rightarrow> heap \<Rightarrow> pc \<Rightarrow> bool" where
  "pc_hist hs h (Seek x p r) \<longleftrightarrow>
     \<not> updates x \<longrightarrow> was_seen hs r \<and> (op_key x < key (h ! r) \<longrightarrow> was_absent hs (op_key x))"
| "pc_hist hs h (Unlink x p r) \<longleftrightarrow> justified x TRUE hs"
| "pc_hist hs h (Unlock_pred p r c) \<longleftrightarrow> pc_hist hs h c"
| "pc_hist hs h (Unlock_runner r c) \<longleftrightarrow> pc_hist hs h c"
| "pc_hist hs h (Finish x res) \<longleftrightarrow> justified x res hs"
| "pc_hist hs h q \<longleftrightarrow> True"

lemma pc_hist_evolves:
  "evolves A h h' \<Longrightarrow> pc_ok h q \<Longrightarrow> pc_hist hs h q \<Longrightarrow> pc_hist (h' # hs) h' q"
proof (induction q)
  case (Seek x p r)
  then show ?case by (auto simp: evolves_def)
next
  case (Unlink x p r)
  then show ?case using justified_mono [of x TRUE hs h'] by simp
qed (auto intro: justified_mono)

lemma pc_hist_stays: "pc_hist hs h q \<Longrightarrow> pc_hist (h # hs) h q"
  by (induction q) (auto intro: justified_mono)

lemma seek_hist:
  assumes "list_wf h" "trail_ok hs h" "h \<in> set hs" "pc_ok h (Seek x p r)" "pc_hist hs h (Seek x p r)"
    and "\<not> updates x" "key (h ! r) < op_key x" "next (h ! r) = Some n"
  shows "was_seen hs n \<and> (op_key x < key (h ! n) \<longrightarrow> was_absent hs (op_key x))"
proof (cases "marked (h ! r)")
  case True
  then have "trail_at hs h r (op_key x)" using assms by (auto simp: trail_ok_def)
  with assms(7,8) show ?thesis by (auto simp: trail_at_def)
next
  case False
  then have r: "r \<in> set (spine h)" using wf_D(8) [OF assms(1)] assms(4) by simp
  with spine_adjacent(1) [OF assms(1) r assms(8)] not_between [OF assms(1) r assms(8,7)] assms(3)
  show ?thesis by (auto simp: was_seen_def was_absent_def)
qed

lemma seek_answer:
  assumes "list_wf h" "trail_ok hs h" "h \<in> set hs" "pc_ok h (Seek (Contains_op k) p r)"
    and "pc_hist hs h (Seek (Contains_op k) p r)" "\<not> key (h ! r) < k"
  shows "justified (Contains_op k) (if key (h ! r) = k \<and> \<not> marked (h ! r) then TRUE else FALSE) hs"
proof -
  consider "k < key (h ! r)" | "key (h ! r) = k" "marked (h ! r)" | "key (h ! r) = k" "\<not> marked (h ! r)"
    using assms(6) by linarith
  then show ?thesis
  proof cases
    case 2
    then have "trail_at hs h r k" using assms(2,5) by (auto simp: trail_ok_def)
    with 2 show ?thesis by (auto simp: trail_at_def)
  next
    case 3
    then have "k \<in> list_keys h"
      using list_keysI [OF wf_D(8) [OF assms(1)], of r] assms(4) by auto
    with 3 assms(3) show ?thesis by (auto simp: was_present_def)
  qed (use assms(5) in auto)
qed

lemma thread_step_hist:
  assumes "list_wf h" "trail_ok hs h" "hd hs = h" "hs \<noteq> []" "pc_ok h q" "owns h t q" "pc_hist hs h q"
    and "thread_step h t q = (h', q')"
  shows "pc_hist (h' # hs) h' q'"
proof (cases q)
  case (Start x)
  have "0 \<in> set (spine h)" using spine_Cons [OF assms(1)] by auto
  moreover have "\<not> op_key x < key (h ! 0)"
    using assms(5) wf_D(3) [OF assms(1)] Start by (auto simp: user_key_def)
  ultimately show ?thesis
    using assms(8) Start by (auto split: list_op.splits option.splits)
next
  case (Seek x p r)
  have h: "h \<in> set hs" using assms(3,4) by (cases hs) auto
  note sk = assms(5,7) [unfolded Seek]
  show ?thesis
  proof (cases "updates x")
    case True
    with assms(8) Seek show ?thesis by (cases x) (auto split: option.splits)
  next
    case False
    then obtain k where x: "x = Contains_op k" by (cases x) auto
    with seek_answer [OF assms(1,2) h sk(1) [unfolded x] sk(2) [unfolded x]]
      seek_hist [OF assms(1,2) h sk False] assms(8) Seek
    show ?thesis by (auto intro: justified_mono split: option.splits if_splits)
  qed
next
  case (Commit x p r)
  obtain gs where hs: "hs = h # gs" using assms(3,4) by (cases hs) auto
  note ck = assms(5,6,8) [unfolded Commit]
  have mem: "op_key x \<in> list_keys h \<longleftrightarrow> key (h ! r) = op_key x" by (rule commit_member [OF assms(1) ck(1)])
  have eff: "list_keys h' = effect h (Commit x p r) (list_keys h)" by (rule thread_step_keys [OF assms(1) ck])
  show ?thesis
  proof (cases x)
    case (Remove_op k)
    have "changed (h' # hs) (\<lambda>S S'. k \<in> S \<and> S' = S - {k})" if "k \<in> list_keys h"
      unfolding hs using that eff Remove_op by (intro changed_now) simp
    with mem ck(3) Remove_op hs show ?thesis by (cases "key (h ! r) = k") auto
  next
    case (Add_op k v)
    have "changed (h' # hs) (\<lambda>S S'. k \<notin> S \<and> S' = insert k S)" if "k \<notin> list_keys h"
      unfolding hs using that eff Add_op by (intro changed_now) simp
    with mem ck(3) Add_op hs show ?thesis by (cases "key (h ! r) = k") auto
  qed (use ck(1) in \<open>simp add: target_def\<close>)
next
  case (Unlink x p r)
  then show ?thesis using assms(7,8) justified_mono [of x TRUE hs h'] by auto
next
  case (Unlock_pred p r c)
  with assms(5,7,8) pc_hist_evolves [OF evolves_owner, of h c hs] show ?thesis by auto
next
  case (Unlock_runner r c)
  with assms(5,7,8) pc_hist_evolves [OF evolves_owner, of h c hs] show ?thesis by auto
next
  case (Lock_pred x p r)
  then have "justified x ABORT_FAILURE (h' # hs)" using assms(5) by (cases x) (auto simp: target_def)
  with assms(8) Lock_pred show ?thesis by (auto split: if_splits)
next
  case (Lock_runner x p r)
  then have "justified x ABORT_FAILURE (h' # hs)" using assms(5) by (cases x) (auto simp: target_def)
  with assms(8) Lock_runner show ?thesis by (auto split: if_splits)
next
  case (Finish x res)
  with assms(7,8) justified_mono [of x res hs h'] show ?thesis by auto
next
  case (Validate x p r)
  with assms(8) show ?thesis by (auto split: if_splits)
qed (use assms(5,8) in auto)

subsection \<open>The invariant of the whole system\<close>

definition thread_inv :: "lsys \<Rightarrow> nat \<Rightarrow> bool" where
  "thread_inv s t \<longleftrightarrow> pc_ok (nodes s) (pcs s t) \<and> owns (nodes s) t (pcs s t)
     \<and> (pcs s t \<noteq> Idle \<longrightarrow> hist s t \<noteq> [] \<and> hd (hist s t) = nodes s \<and> trail_ok (hist s t) (nodes s)
          \<and> pc_hist (hist s t) (nodes s) (pcs s t))"

definition list_inv :: "lsys \<Rightarrow> bool" where
  "list_inv s \<longleftrightarrow> list_wf (nodes s) \<and> (\<forall>t. thread_inv s t)
     \<and> (\<forall>(t, x, res, hs)\<in>set (answers s). justified x res hs)"

lemma list_inv_new: "list_inv lsys_new"
proof -
  have "spine LazyList_new = [0, 1]" by (simp add: spine_def LazyList_new_def Node_def numeral_2_eq_2)
  then have "list_wf LazyList_new"
    by (auto simp: list_wf_def LazyList_new_def Node_def climbs_def INT_MIN_def INT_MAX_def less_Suc_eq)
  moreover have "owns LazyList_new t Idle" for t
    by (auto simp: owns_def LazyList_new_def Node_def less_Suc_eq)
  ultimately show ?thesis by (simp add: list_inv_def thread_inv_def lsys_new_def)
qed

text \<open>A step of another thread keeps what a thread relies on.\<close>

lemma other_thread:
  assumes "good_step h t q h' q'" "list_wf h" "u \<noteq> t" "owns h t q" "pc_ok h p" "owns h u p"
  shows "pc_ok h' p" "owns h' u p"
proof -
  have pcl: "a < length h" if "a \<in> holds p" for a
    using that assms(5) by (cases p) (auto simp: target_def)
  then have disj: "holds p \<inter> holds q = {}" using assms(3,4,6) by (fastforce simp: owns_def)
  have g: "evolves (holds q) h h'" "owners_after h t q h' q'" using assms(1) by (auto simp: good_step_def)
  show "pc_ok h' p" by (rule pc_ok_evolves [OF g(1) assms(5) disj])
  have "owner (h' ! a) = Some u \<longleftrightarrow> a \<in> holds p" if a: "a < length h'" for a
  proof -
    have acq: "a \<in> holds q' \<Longrightarrow> a \<in> holds q \<or> a < length h \<and> owner (h ! a) = None"
      and o: "owner (h' ! a) = (if a \<in> holds q' then Some t
        else if a \<in> holds q \<or> length h \<le> a then None else owner (h ! a))"
      using g(2) a by (auto simp: owners_after_def)
    have p: "a < length h \<Longrightarrow> owner (h ! a) = Some u \<longleftrightarrow> a \<in> holds p"
      using assms(6) by (simp add: owns_def)
    show ?thesis using acq o p pcl [of a] disj assms(3) by (cases "a \<in> holds q'") auto
  qed
  then show "owns h' u p" by (simp add: owns_def)
qed

lemma turn_step:
  assumes "pcs s t = q" "\<And>x res. q \<noteq> Finish x res" "thread_step (nodes s) t q = (h, q')"
  shows "turn s t = s\<lparr>nodes := h, pcs := (pcs s)(t := q'), hist := (\<lambda>u. h # hist s u)\<rparr>"
  using assms by (cases q) (simp_all add: turn_def del: thread_step.simps, blast)

lemma turn_inv:
  assumes "list_inv s"
  shows "list_inv (turn s t)"
proof (cases "\<exists>x res. pcs s t = Finish x res")
  case True
  then obtain x res where f: "pcs s t = Finish x res" by blast
  have "thread_inv s t" using assms by (simp add: list_inv_def)
  then have j: "justified x res (hist s t)" and o: "owns (nodes s) t Idle"
    by (auto simp: thread_inv_def f owns_def)
  have "thread_inv (turn s t) u" for u
    using assms o by (auto simp: turn_def f list_inv_def thread_inv_def)
  with assms j show ?thesis by (auto simp: list_inv_def turn_def f)
next
  case False
  obtain h' q' where st: "thread_step (nodes s) t (pcs s t) = (h', q')" by (meson surj_pair)
  let ?h = "nodes s" and ?q = "pcs s t"
  have inv: "thread_inv s u" for u using assms by (simp add: list_inv_def)
  have wf: "list_wf ?h" using assms by (simp add: list_inv_def)
  have ok: "pc_ok ?h ?q" "owns ?h t ?q" using inv [of t] by (auto simp: thread_inv_def)
  have good: "good_step ?h t ?q h' q'" by (rule thread_step_good [OF wf ok st])
  then have ev: "evolves (holds ?q) ?h h'" "list_wf h'" "pc_ok h' q'" by (auto simp: good_step_def)
  have "owners_after ?h t ?q h' q'" using good by (simp add: good_step_def)
  then have own: "owns h' t q'" using ok(2) by (auto simp: owners_after_def owns_def split: if_splits)
  have tr: "turn s t = s\<lparr>nodes := h', pcs := (pcs s)(t := q'), hist := (\<lambda>u. h' # hist s u)\<rparr>"
    using False st by (intro turn_step) auto
  have "thread_inv (turn s t) u" for u
  proof (cases "u = t")
    case True
    have "hist s t \<noteq> []" "hd (hist s t) = ?h" "trail_ok (hist s t) ?h" "pc_hist (hist s t) ?h ?q" if "?q \<noteq> Idle"
      using inv [of t] that by (auto simp: thread_inv_def)
    moreover have "q' = Idle" if "?q = Idle" using st that by simp
    ultimately show ?thesis
      using True ev own trail_step [OF _ wf ev(2,1)] thread_step_hist [OF wf _ _ _ ok _ st]
      by (auto simp: thread_inv_def tr)
  next
    case False
    note u = inv [of u, unfolded thread_inv_def]
    have "pc_ok h' (pcs s u)" "owns h' u (pcs s u)"
      using other_thread [OF good wf False ok(2)] u by auto
    with False u trail_step [OF _ wf ev(2,1)] pc_hist_evolves [OF ev(1)] show ?thesis
      by (auto simp: thread_inv_def tr)
  qed
  with ev(2) assms show ?thesis by (simp add: list_inv_def tr)
qed

fun user_event :: "event \<Rightarrow> bool" where
  "user_event (Invoke t x) \<longleftrightarrow> user_key (op_key x)"
| "user_event (Turn t) \<longleftrightarrow> True"

lemma event_inv:
  assumes "list_inv s" "user_event e"
  shows "list_inv (list_event s e)"
proof (cases e)
  case (Invoke t x)
  have "thread_inv (list_event s e) u" for u
    using assms trail_start [of "nodes s"] Invoke
    by (auto simp: list_inv_def thread_inv_def owns_def)
  with assms Invoke show ?thesis by (auto simp: list_inv_def)
next
  case (Turn t)
  with turn_inv [OF assms(1)] show ?thesis by simp
qed

lemma exec_inv: "list_inv s \<Longrightarrow> \<forall>e\<in>set es. user_event e \<Longrightarrow> list_inv (list_exec s es)"
  by (induction es arbitrary: s) (auto simp: list_exec_def event_inv)

end
