(* ===== verification/LazyListSeq.thy ===== *)
theory LazyListSeq
  imports LazyListInv
begin

text \<open>
  A call of the lazy list that runs alone: the statements of one thread, one after the other, from
  a heap in which no lock is held and no marked node is on the list.  Such a call always
  returns, answers as the operation on the set of keys and leaves such a heap; the lazy list is a
  total set object.
\<close>

fun run_pc :: "nat \<Rightarrow> heap \<Rightarrow> pc \<Rightarrow> (RESULT \<times> heap) option" where
  "run_pc 0 h q = None"
| "run_pc (Suc n) h q =
     (case q of
        Finish x res \<Rightarrow> Some (res, h)
      | _ \<Rightarrow> (case thread_step h 0 q of (h', q') \<Rightarrow> run_pc n h' q'))"

definition list_call :: "heap \<Rightarrow> list_op \<Rightarrow> (RESULT \<times> heap) option" where
  "list_call h x = run_pc (length h + 12) h (Start x)"

definition LazyList_contains :: "heap \<Rightarrow> int \<Rightarrow> (RESULT \<times> heap) option" where
  "LazyList_contains h k = list_call h (Contains_op k)"

definition LazyList_remove :: "heap \<Rightarrow> int \<Rightarrow> (RESULT \<times> heap) option" where
  "LazyList_remove h k = list_call h (Remove_op k)"

definition LazyList_add :: "heap \<Rightarrow> int \<Rightarrow> int \<Rightarrow> (RESULT \<times> heap) option" where
  "LazyList_add h k v = list_call h (Add_op k v)"

definition list_quiet :: "heap \<Rightarrow> bool" where
  "list_quiet h \<longleftrightarrow> list_wf h \<and> (\<forall>a < length h. owner (h ! a) = None)
     \<and> (\<forall>a\<in>set (spine h). \<not> marked (h ! a))"

lemma run_pc_step:
  "\<forall>x res. q \<noteq> Finish x res \<Longrightarrow> thread_step h 0 q = (h', q') \<Longrightarrow> run_pc (Suc n) h q = run_pc n h' q'"
  by (cases q) (simp_all del: thread_step.simps)

text \<open>The traversal ends at the first node whose key is not smaller, with its predecessor.\<close>

lemma seek_run:
  assumes "list_wf h" "user_key (op_key x)" "spine h = us @ r # vs" "key (h ! p) < op_key x"
    and "p = r \<or> next (h ! p) = Some r" "p \<in> set (spine h)"
  shows "\<exists>m p' r'. m \<le> length vs \<and> (\<forall>n. run_pc (m + n) h (Seek x p r) = run_pc n h (Seek x p' r'))
     \<and> r' \<in> set (spine h) \<and> key (h ! p') < op_key x \<and> op_key x \<le> key (h ! r')
     \<and> next (h ! p') = Some r' \<and> p' \<in> set (spine h)"
  using assms(3-6)
proof (induction vs arbitrary: us p r)
  case Nil
  have r: "r < length h" using wf_D(7) [OF assms(1)] Nil.prems(1) by auto
  have "linked h [r]" using wf_D(6) [OF assms(1)] Nil.prems(1) by (simp add: linked_append)
  then have "key (h ! r) = INT_MAX"
    using wf_D(5) [OF assms(1) r] wf_D(4) [OF assms(1)] by (auto simp: climbs_def)
  then have "op_key x \<le> key (h ! r)" using assms(2) by (simp add: user_key_def)
  with Nil.prems show ?case by (intro exI [of _ 0] exI [of _ p] exI [of _ r]) auto
next
  case (Cons n vs)
  have nx: "next (h ! r) = Some n" using wf_D(6) [OF assms(1)] Cons.prems(1) by (simp add: linked_append)
  have r: "r \<in> set (spine h)" using Cons.prems(1) by simp
  show ?case
  proof (cases "key (h ! r) < op_key x")
    case True
    have "spine h = (us @ [r]) @ n # vs" using Cons.prems(1) by simp
    from Cons.IH [OF this True] nx r obtain m p' r' where m: "m \<le> length vs"
      "\<And>k. run_pc (m + k) h (Seek x r n) = run_pc k h (Seek x p' r')" "r' \<in> set (spine h)"
      "key (h ! p') < op_key x" "op_key x \<le> key (h ! r')" "next (h ! p') = Some r'" "p' \<in> set (spine h)"
      by blast
    have "run_pc (Suc m + k) h (Seek x p r) = run_pc k h (Seek x p' r')" for k
      using True nx m(2) [of k] by simp
    with m show ?thesis by (intro exI [of _ "Suc m"] exI [of _ p'] exI [of _ r']) simp
  next
    case False
    with Cons.prems r show ?thesis by (intro exI [of _ 0] exI [of _ p] exI [of _ r]) auto
  qed
qed

lemma spine_length: "list_wf h \<Longrightarrow> length (spine h) \<le> length h"
proof -
  assume wf: "list_wf h"
  have "card (set (spine h)) = length (spine h)"
    by (rule distinct_card [OF sorted_wrt_key_distinct [OF spine_sorted [OF wf]]])
  moreover have "card (set (spine h)) \<le> card {..<length h}" using wf_D(7) [OF wf] by (intro card_mono) auto
  ultimately show ?thesis by simp
qed

text \<open>Starting an update reaches its two nodes with fuel to spare.\<close>

lemma start_update:
  assumes "list_quiet h" "user_key (op_key x)" "updates x"
  shows "\<exists>n p r. list_call h x = run_pc (n + 9) h (Lock_pred x p r) \<and> target h x p r \<and> validateLink h p r"
proof -
  have wf: "list_wf h" using assms(1) by (simp add: list_quiet_def)
  obtain xs where xs: "spine h = 0 # xs" using spine_Cons [OF wf] ..
  obtain r where r: "next (h ! 0) = Some r"
    using wf_next [OF wf wf_D(1) [OF wf]] wf_D(3) [OF wf] by (auto simp: INT_MIN_def INT_MAX_def)
  with wf_D(6) [OF wf] xs obtain vs where vs: "spine h = [0] @ r # vs" by (cases xs) auto
  have k: "key (h ! 0) < op_key x" using wf_D(3) [OF wf] assms(2) by (simp add: user_key_def)
  obtain m p' r' where m: "m \<le> length vs" "\<And>n. run_pc (m + n) h (Seek x 0 r) = run_pc n h (Seek x p' r')"
    "r' \<in> set (spine h)" "key (h ! p') < op_key x" "op_key x \<le> key (h ! r')"
    "next (h ! p') = Some r'" "p' \<in> set (spine h)"
    using seek_run [OF wf assms(2) vs k] r xs assms(3) by auto
  define n where "n = length h - length vs + (length vs - m) + 1"
  have "length h + 12 = Suc (m + Suc (n + 9))"
    using m(1) spine_length [OF wf] vs by (simp add: n_def)
  then have "list_call h x = run_pc (Suc (m + Suc (n + 9))) h (Start x)" by (simp only: list_call_def)
  also have "\<dots> = run_pc (m + Suc (n + 9)) h (Seek x 0 r)"
    using assms(3) r by (intro run_pc_step, simp, cases x) simp_all
  also have "\<dots> = run_pc (Suc (n + 9)) h (Seek x p' r')" by (rule m(2))
  also have "\<dots> = run_pc (n + 9) h (Lock_pred x p' r')"
    using m(5) assms(3) by (intro run_pc_step, simp, cases x) simp_all
  finally have "list_call h x = run_pc (n + 9) h (Lock_pred x p' r')" .
  moreover have "target h x p' r'" "validateLink h p' r'"
    using m wf_D(7) [OF wf] assms by (auto simp: target_def validateLink_def list_quiet_def)
  ultimately show ?thesis by blast
qed

definition both_locked :: "heap \<Rightarrow> nat \<Rightarrow> nat \<Rightarrow> nat option \<Rightarrow> heap" where
  "both_locked h p r w = set_owner (set_owner h p w) r w"

lemma both_locked_simps [simp]:
  "list_wf (both_locked h p r w) = list_wf h" "spine (both_locked h p r w) = spine h"
  "list_keys (both_locked h p r w) = list_keys h" "length (both_locked h p r w) = length h"
  "key (both_locked h p r w ! a) = key (h ! a)" "marked (both_locked h p r w ! a) = marked (h ! a)"
  "next (both_locked h p r w ! a) = next (h ! a)"
  by (simp_all add: both_locked_def)

lemma both_locked_owner:
  "p < length h \<Longrightarrow> r < length h \<Longrightarrow> owner (both_locked h p r w ! a) = (if a = p \<or> a = r then w else owner (h ! a))"
  by (auto simp: both_locked_def)

lemma run_to_commit:
  assumes "list_quiet h" "target h x p r" "validateLink h p r"
  shows "run_pc (n + 9) h (Lock_pred x p r) = run_pc (n + 6) (both_locked h p r (Some 0)) (Commit x p r)"
proof -
  have "p < length h" "r < length h" "p \<noteq> r" using assms(2) target_neq by (auto simp: target_def)
  moreover have "owner (h ! p) = None" "owner (h ! r) = None" using assms(1) calculation by (auto simp: list_quiet_def)
  moreover have "validateLink (both_locked h p r (Some 0)) p r" using assms(3) by (simp add: validateLink_def)
  ultimately show ?thesis by (simp add: both_locked_def eval_nat_numeral)
qed

lemma run_unlocks:
  "run_pc (n + 3) h (Unlock_pred p r (Finish x res)) = Some (res, both_locked h p r None)"
  by (simp add: both_locked_def eval_nat_numeral)

lemma quiet_unlocked:
  assumes "list_wf h'" "\<forall>a\<in>set (spine h'). \<not> marked (h' ! a)" "p < length h'" "r < length h'"
    and "\<forall>a < length h'. a \<noteq> p \<longrightarrow> a \<noteq> r \<longrightarrow> owner (h' ! a) = None"
  shows "list_quiet (both_locked h' p r None)"
  using assms by (auto simp: list_quiet_def both_locked_owner)

lemma call_contains:
  assumes "list_quiet h" "user_key k"
  shows "list_call h (Contains_op k) = Some (if k \<in> list_keys h then TRUE else FALSE, h)"
proof -
  have wf: "list_wf h" and um: "\<forall>a\<in>set (spine h). \<not> marked (h ! a)" using assms(1) by (auto simp: list_quiet_def)
  let ?x = "Contains_op k"
  obtain xs where xs: "spine h = [] @ 0 # xs" using spine_Cons [OF wf] by auto
  have "key (h ! 0) < op_key ?x" "user_key (op_key ?x)" using wf_D(3) [OF wf] assms(2) by (auto simp: user_key_def)
  with seek_run [OF wf this(2) xs this(1)] xs obtain m p r where m: "m \<le> length xs"
    "\<And>n. run_pc (m + n) h (Seek ?x 0 0) = run_pc n h (Seek ?x p r)" "r \<in> set (spine h)"
    "key (h ! p) < k" "k \<le> key (h ! r)" "next (h ! p) = Some r" "p \<in> set (spine h)" by auto
  define n where "n = length h - m"
  have "length h + 12 = Suc (m + Suc (n + 10))"
    using m(1) spine_length [OF wf] xs by (simp add: n_def)
  then have "list_call h ?x = run_pc (Suc (m + Suc (n + 10))) h (Start ?x)" by (simp only: list_call_def)
  also have "\<dots> = run_pc (m + Suc (n + 10)) h (Seek ?x 0 0)" by (intro run_pc_step) simp_all
  also have "\<dots> = run_pc (Suc (n + 10)) h (Seek ?x p r)" by (rule m(2))
  also have "\<dots> = Some (if key (h ! r) = k then TRUE else FALSE, h)"
    using m(3,5) um by (simp add: eval_nat_numeral)
  also have "(key (h ! r) = k) = (k \<in> list_keys h)"
    using list_keysI [OF m(3)] um m(3) assms(2) not_between [OF wf m(7,6,4)] m(5) by force
  finally show ?thesis .
qed

definition answer :: "bool \<Rightarrow> RESULT" where
  "answer b = (if b then TRUE else FALSE)"

lemma call_remove:
  assumes "list_quiet h" "user_key k"
  shows "\<exists>h'. list_call h (Remove_op k) = Some (answer (k \<in> list_keys h), h') \<and> list_quiet h'
           \<and> list_keys h' = list_keys h - {k}"
proof -
  let ?x = "Remove_op k"
  obtain n p r where c: "list_call h ?x = run_pc (n + 9) h (Lock_pred ?x p r)"
    and tg: "target h ?x p r" and va: "validateLink h p r"
    using start_update [OF assms(1), of ?x] assms(2) by auto
  let ?h = "both_locked h p r (Some 0)"
  have wf: "list_wf ?h" "list_wf h" using assms(1) by (simp_all add: list_quiet_def)
  have l: "p < length h" "r < length h" using tg by (auto simp: target_def)
  have va': "target ?h ?x p r" "validateLink ?h p r" using tg va by (simp_all add: target_def validateLink_def)
  note v = validated [OF wf(2) tg va]
  have mem: "k \<in> list_keys h \<longleftrightarrow> key (h ! r) = k"
    using commit_member [OF wf(2), of ?x p r] tg va by simp
  have um: "\<forall>a\<in>set (spine h). \<not> marked (h ! a)" and ow: "\<forall>a < length h. owner (h ! a) = None"
    using assms(1) by (auto simp: list_quiet_def)
  show ?thesis
  proof (cases "key (h ! r) = k")
    case False
    have "run_pc (n + 6) ?h (Commit ?x p r) = run_pc (n + 2 + 3) ?h (Unlock_pred p r (Finish ?x FALSE))"
      using False by (simp add: eval_nat_numeral)
    then have "list_call h ?x = Some (FALSE, both_locked ?h p r None)"
      using c run_to_commit [OF assms(1) tg va, of n] run_unlocks by metis
    moreover have "list_quiet (both_locked ?h p r None)"
      using wf um ow l by (intro quiet_unlocked) (auto simp: both_locked_owner)
    ultimately show ?thesis using False mem by (auto simp: answer_def)
  next
    case True
    let ?m = "set_marked ?h r"
    have gm: "good_step ?h 0 (Commit ?x p r) ?m (Unlink ?x p r)"
      using wf va' True l ow by (intro step_remove) (auto simp: owns_def both_locked_owner)
    then have ok: "list_wf ?m" "pc_ok ?m (Unlink ?x p r)" by (simp_all only: good_step_def)
    have own: "owns ?m 0 (Unlink ?x p r)" using l ow by (auto simp: owns_def both_locked_owner)
    obtain nx where nx: "next (h ! r) = Some nx"
      using wf_next [OF wf(2) l(2)] True assms(2) by (auto simp: user_key_def)
    let ?u = "set_next ?m p (Some nx)"
    have st: "thread_step ?m 0 (Unlink ?x p r) = (?u, Unlock_pred p r (Finish ?x TRUE))" using nx l by simp
    have "run_pc (n + 6) ?h (Commit ?x p r) = run_pc (Suc (n + 1 + 3)) ?m (Unlink ?x p r)"
      using True by (simp add: eval_nat_numeral)
    also have "\<dots> = run_pc (n + 1 + 3) ?u (Unlock_pred p r (Finish ?x TRUE))"
      by (rule run_pc_step [OF _ st]) simp
    finally have "list_call h ?x = Some (TRUE, both_locked ?u p r None)"
      using c run_to_commit [OF assms(1) tg va, of n] run_unlocks by metis
    moreover have "list_wf ?u" using step_Unlink(1) [OF ok own st] by (simp add: good_step_def)
    moreover have "list_keys ?u = list_keys h - {k}"
      using step_Unlink(2) [OF ok own st] list_keys_mark [OF wf(1), of r] v(2) True by simp
    moreover have "set (spine ?u) = set (spine h) - {r}"
      using unlink_spine(2) [OF ok(1), of p r nx] v nx l target_neq [OF tg] by simp
    then have "list_quiet (both_locked ?u p r None)"
      using \<open>list_wf ?u\<close> um ow l by (intro quiet_unlocked) (auto simp: both_locked_owner)
    ultimately show ?thesis using True mem by (auto simp: answer_def)
  qed
qed

lemma call_add:
  assumes "list_quiet h" "user_key k"
  shows "\<exists>h'. list_call h (Add_op k v) = Some (answer (k \<notin> list_keys h), h') \<and> list_quiet h'
           \<and> list_keys h' = insert k (list_keys h)"
proof -
  let ?x = "Add_op k v"
  obtain n p r where c: "list_call h ?x = run_pc (n + 9) h (Lock_pred ?x p r)"
    and tg: "target h ?x p r" and va: "validateLink h p r"
    using start_update [OF assms(1), of ?x] assms(2) by auto
  let ?h = "both_locked h p r (Some 0)"
  have wf: "list_wf ?h" "list_wf h" using assms(1) by (simp_all add: list_quiet_def)
  have l: "p < length h" "r < length h" "key (h ! p) < k" "k \<le> key (h ! r)" using tg by (auto simp: target_def)
  note vd = validated [OF wf(2) tg va]
  have mem: "k \<in> list_keys h \<longleftrightarrow> key (h ! r) = k"
    using commit_member [OF wf(2), of ?x p r] tg va by simp
  have um: "\<forall>a\<in>set (spine h). \<not> marked (h ! a)" and ow: "\<forall>a < length h. owner (h ! a) = None"
    using assms(1) by (auto simp: list_quiet_def)
  show ?thesis
  proof (cases "key (h ! r) = k")
    case True
    have "run_pc (n + 6) ?h (Commit ?x p r) = run_pc (n + 2 + 3) ?h (Unlock_pred p r (Finish ?x FALSE))"
      using True by (simp add: eval_nat_numeral)
    then have "list_call h ?x = Some (FALSE, both_locked ?h p r None)"
      using c run_to_commit [OF assms(1) tg va, of n] run_unlocks by metis
    moreover have "list_quiet (both_locked ?h p r None)"
      using wf um ow l by (intro quiet_unlocked) (auto simp: both_locked_owner)
    ultimately show ?thesis using True mem by (auto simp: answer_def)
  next
    case False
    let ?u = "insert_node ?h p r k v"
    have sp: "p \<in> set (spine ?h)" "next (?h ! p) = Some r" "key (?h ! p) < k" "k < key (?h ! r)" "\<not> marked (?h ! p)"
      using vd l False by auto
    have "run_pc (n + 6) ?h (Commit ?x p r) = run_pc (n + 2 + 3) ?u (Unlock_pred p r (Finish ?x TRUE))"
      using False by (simp add: eval_nat_numeral)
    then have "list_call h ?x = Some (TRUE, both_locked ?u p r None)"
      using c run_to_commit [OF assms(1) tg va, of n] run_unlocks by metis
    moreover have "list_keys ?u = insert k (list_keys h)"
      using insert_node_keys [OF wf(1) sp assms(2)] by simp
    moreover have "list_quiet (both_locked ?u p r None)"
      using insert_node_spine [OF wf(1) sp, of v] um ow l wf_D(7) [OF wf(2)]
      by (intro quiet_unlocked) (auto simp: nth_insert_node both_locked_owner Node_def less_Suc_eq)
    ultimately show ?thesis using False mem by (auto simp: answer_def)
  qed
qed

subsection \<open>The lazy list as a set object\<close>

text \<open>The values stored with the keys play no role in the answers: \<open>w\<close> gives them.\<close>

definition list_set_call :: "(int \<Rightarrow> int) \<Rightarrow> heap \<Rightarrow> int set_op \<Rightarrow> (bool \<times> heap) option" where
  "list_set_call w h x =
     (case (case x of Insert k \<Rightarrow> LazyList_add h k (w k) | Remove k \<Rightarrow> LazyList_remove h k
                    | Contains k \<Rightarrow> LazyList_contains h k) of
        Some (TRUE, h') \<Rightarrow> Some (True, h')
      | Some (FALSE, h') \<Rightarrow> Some (False, h')
      | _ \<Rightarrow> None)"

lemma list_set_call_total:
  assumes "list_quiet h" "user_key (operand x)"
  shows "\<exists>b h'. list_set_call w h x = Some (b, h') \<and> list_quiet h' \<and> (b, list_keys h') = spec_op x (list_keys h)"
proof (cases x)
  case (Insert k)
  with call_add [OF assms(1), of k "w k"] assms(2) show ?thesis
    by (auto simp: list_set_call_def LazyList_add_def answer_def)
next
  case (Remove k)
  with call_remove [OF assms(1), of k] assms(2) show ?thesis
    by (auto simp: list_set_call_def LazyList_remove_def answer_def)
next
  case (Contains k)
  with call_contains [OF assms(1), of k] assms show ?thesis
    by (auto simp: list_set_call_def LazyList_contains_def)
qed

interpretation lazy_list: total_set_object "list_set_call w" list_quiet list_keys user_key
proof unfold_locales
  show "list_quiet h' \<and> (b, list_keys h') = spec_op x (list_keys h)"
    if "list_quiet h" "user_key (operand x)" "list_set_call w h x = Some (b, h')" for h x b h'
    using list_set_call_total [OF that(1,2), of w] that(3) by auto
  show "list_set_call w h x \<noteq> None" if "list_quiet h" "user_key (operand x)" for h x
    using list_set_call_total [OF that, of w] by auto
qed

end
