(* ===== verification/LazyListCorrect.thy ===== *)
theory LazyListCorrect
  imports LazyListSeq
begin

text \<open>
  What the lazy list guarantees to its callers, for every interleaving of any number of threads: it
  never crashes and keeps its shape, every answer is the answer of the set operation at a moment
  of the call, every successful update is its own change of the set, and locks are free when no
  call is running.  Calls that run alone always return.  The keys \<open>INT_MIN\<close> and \<open>INT_MAX\<close> of the
  sentinels are not usable.
\<close>

subsection \<open>Counting successful updates\<close>

fun op_gain :: "int \<Rightarrow> list_op \<Rightarrow> RESULT \<Rightarrow> int" where
  "op_gain k (Add_op k' v) TRUE = of_bool (k = k')"
| "op_gain k (Remove_op k') TRUE = - of_bool (k = k')"
| "op_gain k x res = 0"

fun gain :: "int \<Rightarrow> pc \<Rightarrow> int" where
  "gain k (Finish x res) = op_gain k x res"
| "gain k (Unlink x p r) = op_gain k x TRUE"
| "gain k (Unlock_pred p r c) = gain k c"
| "gain k (Unlock_runner r c) = gain k c"
| "gain k q = 0"

definition answer_gain :: "int \<Rightarrow> (nat \<times> list_op \<times> RESULT \<times> heap list) list \<Rightarrow> int" where
  "answer_gain k as = sum_list (map (\<lambda>(t, x, res, hs). op_gain k x res) as)"

definition count_true :: "list_op \<Rightarrow> (nat \<times> list_op \<times> RESULT \<times> heap list) list \<Rightarrow> nat" where
  "count_true y as = length (filter (\<lambda>(t, x, res, hs). res = TRUE \<and> (case (x, y) of
       (Add_op k v, Add_op k' v') \<Rightarrow> k = k' | (Remove_op k, Remove_op k') \<Rightarrow> k = k' | _ \<Rightarrow> False)) as)"

lemma answer_gain_count:
  "answer_gain k as = int (count_true (Add_op k v) as) - int (count_true (Remove_op k) as)"
proof (induction as)
  case (Cons a as)
  obtain t x res hs where a: "a = (t, x, res, hs)" by (cases a) auto
  show ?case using Cons
    by (cases x; cases res) (auto simp: a answer_gain_def count_true_def)
qed (simp add: answer_gain_def count_true_def)

lemma gain_other:
  assumes "thread_step h t q = (h', q')" "\<not> (\<exists>x res. q = Finish x res)" "\<not> (\<exists>x p r. q = Commit x p r)"
  shows "gain k q' = gain k q"
proof (cases q)
  case (Start x)
  with assms(1) show ?thesis by (cases x) (auto split: option.splits)
next
  case (Seek x p r)
  with assms(1) show ?thesis by (cases x) (auto split: option.splits if_splits)
qed (use assms in \<open>auto split: if_splits\<close>)

lemma thread_step_gain:
  assumes "list_wf h" "pc_ok h q" "owns h t q" "thread_step h t q = (h', q')" "\<not> (\<exists>x res. q = Finish x res)"
  shows "of_bool (k \<in> list_keys h') - gain k q' = of_bool (k \<in> list_keys h) - gain k q"
proof -
  have keys: "list_keys h' = effect h q (list_keys h)" by (rule thread_step_keys [OF assms(1-4)])
  show ?thesis
  proof (cases "\<exists>x p r. q = Commit x p r")
    case True
    then obtain x p r where q: "q = Commit x p r" by blast
    note mem = commit_member [OF assms(1) assms(2) [unfolded q]]
    have x: "updates x" using assms(2) by (simp add: q target_def)
    have g: "gain k q' = (if key (h ! r) = op_key x then op_gain k x TRUE else 0)" if "x = Remove_op (op_key x)"
      using assms(4) that by (cases x) (auto simp: q split: if_splits)
    have g': "gain k q' = (if key (h ! r) = op_key x then 0 else op_gain k x TRUE)" if "x \<noteq> Remove_op (op_key x)"
      using assms(4) that x by (cases x) (auto simp: q split: if_splits)
    show ?thesis
    proof (cases x)
      case (Remove_op j)
      with g keys mem show ?thesis by (cases "k = j") (simp_all add: q)
    next
      case (Add_op j v)
      with g' keys mem show ?thesis by (cases "k = j") (simp_all add: q)
    qed (use x in simp)
  next
    case False
    then have "effect h q (list_keys h) = list_keys h" by (cases q) auto
    with keys gain_other [OF assms(4,5) False] show ?thesis by simp
  qed
qed

definition balanced :: "nat set \<Rightarrow> int \<Rightarrow> lsys \<Rightarrow> bool" where
  "balanced T k s \<longleftrightarrow> of_bool (k \<in> list_keys (nodes s)) = answer_gain k (answers s) + (\<Sum>t\<in>T. gain k (pcs s t))"

lemma sum_fun_upd:
  "finite T \<Longrightarrow> t \<in> T \<Longrightarrow> (\<Sum>u\<in>T. g (if u = t then q else f u)) = (\<Sum>u\<in>T. g (f u)) - g (f t) + (g q :: int)"
  by (simp add: sum.remove [of T t])

lemma turn_balanced:
  assumes "list_inv s" "finite T" "t \<in> T" "balanced T k s"
  shows "balanced T k (turn s t)"
proof (cases "\<exists>x res. pcs s t = Finish x res")
  case True
  with assms(2-4) show ?thesis
    by (auto simp: balanced_def turn_def answer_gain_def sum_fun_upd [of T t "gain k"])
next
  case False
  obtain h' q' where st: "thread_step (nodes s) t (pcs s t) = (h', q')" by (meson surj_pair)
  have "turn s t = s\<lparr>nodes := h', pcs := (pcs s)(t := q'), hist := (\<lambda>u. h' # hist s u)\<rparr>"
    using False st by (intro turn_step) auto
  moreover have "list_wf (nodes s)" "pc_ok (nodes s) (pcs s t)" "owns (nodes s) t (pcs s t)"
    using assms(1) by (auto simp: list_inv_def thread_inv_def)
  note thread_step_gain [OF this st, of k]
  ultimately show ?thesis
    using assms(2-4) False by (auto simp: balanced_def sum_fun_upd [of T t "gain k"])
qed

fun event_thread :: "event \<Rightarrow> nat" where
  "event_thread (Invoke t x) = t"
| "event_thread (Turn t) = t"

lemma exec_balanced:
  assumes "finite T" "list_inv s" "balanced T k s" "\<forall>e\<in>set es. user_event e \<and> event_thread e \<in> T"
  shows "balanced T k (list_exec s es)"
  using assms(2-4)
proof (induction es arbitrary: s)
  case (Cons e es)
  have "balanced T k (list_event s e)"
  proof (cases e)
    case (Invoke t x)
    with Cons.prems assms(1) show ?thesis
      by (auto simp: balanced_def sum_fun_upd [of T t "gain k"])
  next
    case (Turn t)
    with turn_balanced [OF Cons.prems(1) assms(1) _ Cons.prems(2)] Cons.prems(3) show ?thesis by simp
  qed
  with Cons event_inv [of s e] show ?case by (simp add: list_exec_def)
qed (simp add: list_exec_def)

lemma new_balanced: "balanced T k lsys_new"
proof -
  have "spine LazyList_new = [0, 1]" by (simp add: spine_def LazyList_new_def Node_def numeral_2_eq_2)
  then have "list_keys LazyList_new = {}"
    unfolding list_keys_def by (auto simp: LazyList_new_def Node_def user_key_def)
  then show ?thesis by (simp add: balanced_def lsys_new_def answer_gain_def)
qed

definition all_idle :: "lsys \<Rightarrow> bool" where
  "all_idle s \<longleftrightarrow> (\<forall>t. pcs s t = Idle)"

subsection \<open>A concurrent run\<close>

text \<open>Two threads add the same key: thread 1 reads its position, thread 0 completes, thread 1
  fails its validation, starts again and finds the key.\<close>

definition race :: "event list" where
  "race = [Invoke 0 (Add_op 5 50), Invoke 1 (Add_op 5 51), Turn 1, Turn 1]
     @ replicate 9 (Turn 0) @ replicate 14 (Turn 1)"


lemma race_events:
  "list_all user_event race" "list_all (\<lambda>e. event_thread e < 2) race"
  by (simp_all add: race_def user_key_def INT_MIN_def INT_MAX_def eval_nat_numeral)

lemma race_answers:
  "map (\<lambda>(t, x, res, hs). (t, x, res)) (answers (list_exec lsys_new race)) =
     [(1, Add_op 5 51, FALSE), (0, Add_op 5 50, TRUE)]"
  by code_simp

lemma race_threads: "list_all (\<lambda>t. pcs (list_exec lsys_new race) t = Idle) [0, 1]"
  by code_simp

lemma event_other: "event_thread e \<noteq> t \<Longrightarrow> pcs (list_event s e) t = pcs s t"
  by (cases e) (auto simp: turn_def split: pc.splits prod.splits)

lemma exec_other: "\<forall>e\<in>set es. event_thread e \<noteq> t \<Longrightarrow> pcs (list_exec s es) t = pcs s t"
  by (induction es arbitrary: s) (simp_all add: list_exec_def event_other)

lemma race_idle: "all_idle (list_exec lsys_new race)"
  unfolding all_idle_def
proof
  fix t
  show "pcs (list_exec lsys_new race) t = Idle"
  proof (cases "t < 2")
    case True
    then show ?thesis using race_threads by (auto simp: less_2_cases_iff)
  next
    case False
    then have "\<forall>e\<in>set race. event_thread e \<noteq> t" using race_events(2) by (auto simp: list_all_iff)
    then show ?thesis by (simp add: exec_other lsys_new_def)
  qed
qed

subsection \<open>Properties\<close>

text \<open>C9: whatever the threads do, in whatever order they take their turns, no thread follows a
  null pointer, the heap keeps the shape of a sorted list from the head to the tail sentinel with
  every node off the list marked, and no two threads hold a lock at the same time.\<close>

theorem list_interleavings_safe:
  assumes "list_all user_event es"
  shows "list_wf (nodes (list_exec lsys_new es)) \<and> (\<forall>t. pcs (list_exec lsys_new es) t \<noteq> Crashed)
     \<and> (\<forall>t u. t \<noteq> u \<longrightarrow> holds (pcs (list_exec lsys_new es) t) \<inter> holds (pcs (list_exec lsys_new es) u) = {})"
proof -
  let ?s = "list_exec lsys_new es"
  have inv: "list_wf (nodes ?s)" "\<And>t. pc_ok (nodes ?s) (pcs ?s t)" "\<And>t. owns (nodes ?s) t (pcs ?s t)"
    using exec_inv [OF list_inv_new, of es] assms by (auto simp: list_inv_def thread_inv_def list_all_iff)
  have "a < length (nodes ?s)" if "a \<in> holds (pcs ?s t)" for a t
    using that inv(2) [of t] by (cases "pcs ?s t") (auto simp: target_def)
  then have "holds (pcs ?s t) \<inter> holds (pcs ?s u) = {}" if "t \<noteq> u" for t u
    using that inv(3) [of t] inv(3) [of u] by (fastforce simp: owns_def)
  moreover have "pcs ?s t \<noteq> Crashed" for t using inv(2) [of t] by auto
  ultimately show ?thesis using inv(1) by blast
qed

theorem list_interleavings_safe_witness:
  "list_wf (nodes (list_exec lsys_new race)) \<and> (\<forall>t. pcs (list_exec lsys_new race) t \<noteq> Crashed)"
  using list_interleavings_safe [OF race_events(1)] by blast

text \<open>C8: every answer that a call has returned is justified by a moment between its invocation
  and its response: a membership or failure answer by the set of keys at that moment, a successful
  update by a step that changed the set of keys accordingly.\<close>

theorem list_answers_justified:
  assumes "list_all user_event es" "(t, x, res, hs) \<in> set (answers (list_exec lsys_new es))"
  shows "justified x res hs"
  using exec_inv [OF list_inv_new, of es] assms by (auto simp: list_inv_def list_all_iff)

theorem list_answers_justified_witness:
  "\<exists>hs. (1, Add_op 5 51, FALSE, hs) \<in> set (answers (list_exec lsys_new race)) \<and> was_present hs 5"
proof -
  have "(1, Add_op 5 51, FALSE) \<in> set (map (\<lambda>(t, x, res, hs). (t, x, res)) (answers (list_exec lsys_new race)))"
    by (simp add: race_answers)
  then obtain hs where hs: "(1, Add_op 5 51, FALSE, hs) \<in> set (answers (list_exec lsys_new race))" by auto
  from list_answers_justified [OF race_events(1) hs] hs show ?thesis by auto
qed

text \<open>C10: no successful update is lost or counted twice: when no call is running, the successful
  additions of a key outnumber its successful removals by one if the key is stored, and equal them
  if it is not.\<close>

theorem list_updates_balance:
  assumes "list_all user_event es" "all_idle (list_exec lsys_new es)"
  shows "int (count_true (Add_op k v) (answers (list_exec lsys_new es))) =
     int (count_true (Remove_op k) (answers (list_exec lsys_new es)))
       + of_bool (k \<in> list_keys (nodes (list_exec lsys_new es)))"
proof -
  have "balanced (event_thread ` set es) k (list_exec lsys_new es)"
    using assms(1) by (intro exec_balanced [OF _ list_inv_new new_balanced]) (auto simp: list_all_iff)
  then have "of_bool (k \<in> list_keys (nodes (list_exec lsys_new es))) = answer_gain k (answers (list_exec lsys_new es))"
    using assms(2) by (simp add: balanced_def all_idle_def)
  with answer_gain_count [of k _ v] show ?thesis by simp
qed

theorem list_updates_balance_witness:
  "5 \<in> list_keys (nodes (list_exec lsys_new race))"
proof -
  let ?as = "answers (list_exec lsys_new race)"
  have c: "count_true (Add_op 5 0) ?as = 1" "count_true (Remove_op 5) ?as = 0"
    by code_simp+
  with list_updates_balance [OF race_events(1) race_idle, of 5 0] show ?thesis
    by (cases "5 \<in> list_keys (nodes (list_exec lsys_new race))") simp_all
qed

text \<open>C11: a sequence of calls that run one after the other always returns, and gives the answers
  and the final set of the operations on a mathematical set.\<close>

theorem list_calls_total:
  assumes "list_quiet h" "list_all (\<lambda>x. user_key (operand x)) xs"
  shows "\<exists>bs h'. run_ops (list_set_call w) h xs = Some (bs, h') \<and> list_quiet h'
     \<and> (bs, list_keys h') = spec_run xs (list_keys h)"
  using lazy_list.run_total [of h xs w] assms by (simp add: list_all_iff)

lemma new_quiet: "list_quiet LazyList_new" "list_keys LazyList_new = {}"
proof -
  have sp: "spine LazyList_new = [0, 1]" by (simp add: spine_def LazyList_new_def Node_def numeral_2_eq_2)
  have "list_wf LazyList_new" using list_inv_new by (simp add: list_inv_def lsys_new_def)
  then show "list_quiet LazyList_new"
    by (auto simp: list_quiet_def sp) (auto simp: LazyList_new_def Node_def less_Suc_eq)
  show "list_keys LazyList_new = {}"
    unfolding list_keys_def sp by (auto simp: LazyList_new_def Node_def user_key_def)
qed

theorem list_calls_total_witness:
  "\<exists>h'. run_ops (list_set_call id) LazyList_new [Insert 3, Insert 3, Remove 3, Contains 3] =
     Some ([True, False, True, False], h') \<and> list_keys h' = {}"
proof -
  have "list_all (\<lambda>x. user_key (operand x)) [Insert 3, Insert 3, Remove 3, Contains 3]"
    by (simp add: user_key_def INT_MIN_def INT_MAX_def)
  from list_calls_total [OF new_quiet(1) this, of id] show ?thesis
    by (simp add: new_quiet(2) del: run_ops.simps) blast
qed

text \<open>The key of the tail sentinel is not protected: \<open>remove(INT_MAX)\<close> answers true and
  unlinks the tail, after which a lookup that reaches the end of the list follows a null pointer.\<close>

theorem list_remove_tail:
  "map_option fst (LazyList_remove LazyList_new INT_MAX) = Some TRUE
   \<and> map_option (\<lambda>(r, h). LazyList_contains h 7) (LazyList_remove LazyList_new INT_MAX) = Some None"
  by code_simp

end
