(* ===== verification/HashMap.thy ===== *)
theory HashMap
  imports LazyListCorrect
begin

text \<open>
  The hash map of DistributedKeyValueStore (Persistence/KeyValueStore/ConcurrentHashMap.cpp): an
  array of lazy lists, a key going to the list \<open>key % buckets\<close> (unsigned arithmetic on the bit
  pattern of the key).  Each operation is the operation of that list.  The map is shown to be a
  total set object from the same contract of the lists.
\<close>

record chm =
  chm_buckets :: u32
  chm_map :: "heap list"

definition ConcurrentHashMap_new :: "u32 \<Rightarrow> chm" where
  "ConcurrentHashMap_new n = \<lparr>chm_buckets = n, chm_map = replicate (unat n) LazyList_new\<rparr>"

definition translate :: "chm \<Rightarrow> int \<Rightarrow> int option" where
  "translate m k =
     (if chm_buckets m = 0 then None else Some (sint (word_of_int k mod chm_buckets m)))"

definition in_bucket :: "chm \<Rightarrow> int \<Rightarrow> (heap \<Rightarrow> (RESULT \<times> heap) option) \<Rightarrow> (RESULT \<times> chm) option" where
  "in_bucket m k f =
     do { bucket \<leftarrow> translate m k;
          h \<leftarrow> at (chm_map m) bucket;
          (r, h') \<leftarrow> f h;
          ms \<leftarrow> upd (chm_map m) bucket h';
          Some (r, m\<lparr>chm_map := ms\<rparr>) }"

definition ConcurrentHashMap_contains :: "chm \<Rightarrow> int \<Rightarrow> (RESULT \<times> chm) option" where
  "ConcurrentHashMap_contains m k = in_bucket m k (\<lambda>h. LazyList_contains h k)"

definition ConcurrentHashMap_remove :: "chm \<Rightarrow> int \<Rightarrow> (RESULT \<times> chm) option" where
  "ConcurrentHashMap_remove m k = in_bucket m k (\<lambda>h. LazyList_remove h k)"

definition ConcurrentHashMap_add :: "chm \<Rightarrow> int \<Rightarrow> int \<Rightarrow> (RESULT \<times> chm) option" where
  "ConcurrentHashMap_add m k v = in_bucket m k (\<lambda>h. LazyList_add h k v)"

definition ConcurrentHashMap_size :: "chm \<Rightarrow> int" where
  "ConcurrentHashMap_size m = sum_list (map LazyList_size (chm_map m))"

subsection \<open>The map as an array of set objects\<close>

definition bucket_index :: "u32 \<Rightarrow> int \<Rightarrow> nat" where
  "bucket_index n k = unat (word_of_int k mod n)"

definition chm_ok :: "chm \<Rightarrow> bool" where
  "chm_ok m \<longleftrightarrow> 0 < unat (chm_buckets m) \<and> unat (chm_buckets m) < 2 ^ 31
     \<and> array_inv list_quiet list_keys (bucket_index (chm_buckets m)) (unat (chm_buckets m)) (chm_map m)"

definition chm_keys :: "chm \<Rightarrow> int set" where
  "chm_keys m = array_elems list_keys (chm_map m)"

definition chm_call :: "(int \<Rightarrow> int) \<Rightarrow> chm \<Rightarrow> int set_op \<Rightarrow> (bool \<times> chm) option" where
  "chm_call w m x =
     (case (case x of Insert k \<Rightarrow> ConcurrentHashMap_add m k (w k) | Remove k \<Rightarrow> ConcurrentHashMap_remove m k
                    | Contains k \<Rightarrow> ConcurrentHashMap_contains m k) of
        Some (TRUE, m') \<Rightarrow> Some (True, m')
      | Some (FALSE, m') \<Rightarrow> Some (False, m')
      | _ \<Rightarrow> None)"

lemma bucket_index_range: "0 < unat n \<Longrightarrow> bucket_index n k < unat n"
  unfolding bucket_index_def by (simp only: unat_mod_distrib mod_less_divisor)

lemma translate_index:
  assumes "0 < unat (chm_buckets m)" "unat (chm_buckets m) < 2 ^ 31"
  shows "translate m k = Some (int (bucket_index (chm_buckets m) k))"
proof -
  have u: "uint (word_of_int k mod chm_buckets m) = int (bucket_index (chm_buckets m) k)"
    unfolding bucket_index_def by (rule uint_nat)
  have "int (bucket_index (chm_buckets m) k) < 2 ^ 31"
    using bucket_index_range [OF assms(1), of k] assms(2) by simp
  then have "sint (word_of_int k mod chm_buckets m) = int (bucket_index (chm_buckets m) k)"
    by (subst sint_small) (simp_all only: u)
  moreover have "chm_buckets m \<noteq> 0" using assms(1) by auto
  ultimately show ?thesis by (simp only: translate_def if_False simp_thms)
qed

lemma in_bucket_eq:
  assumes "chm_ok m"
  shows "in_bucket m k f =
    (let i = bucket_index (chm_buckets m) k in
     map_option (\<lambda>(r, h'). (r, m\<lparr>chm_map := (chm_map m)[i := h']\<rparr>)) (f (chm_map m ! i)))"
proof -
  have "bucket_index (chm_buckets m) k < length (chm_map m)"
    using assms bucket_index_range by (auto simp: chm_ok_def array_inv_def)
  then show ?thesis
    using translate_index [of m k] assms
    by (cases "f (chm_map m ! bucket_index (chm_buckets m) k)")
       (auto simp: in_bucket_def Let_def chm_ok_def at_def upd_def split: prod.split)
qed

lemma chm_call_array:
  assumes "chm_ok m"
  shows "chm_call w m x = map_option (\<lambda>(b, ms). (b, m\<lparr>chm_map := ms\<rparr>))
     (array_step (list_set_call w) (bucket_index (chm_buckets m)) (chm_map m) x)"
proof -
  let ?i = "bucket_index (chm_buckets m)"
  have "?i k < length (chm_map m)" for k
    using assms bucket_index_range by (auto simp: chm_ok_def array_inv_def)
  then show ?thesis
    by (cases x)
       (auto simp: chm_call_def array_step_def list_set_call_def ConcurrentHashMap_add_def
         ConcurrentHashMap_remove_def ConcurrentHashMap_contains_def in_bucket_eq [OF assms] Let_def
         split: option.split RESULT.split)
qed

lemma bucket_array_lists: "0 < unat n \<Longrightarrow> bucket_array (list_set_call w) list_quiet list_keys user_key (bucket_index n) (unat n)"
  by unfold_locales (rule bucket_index_range)

lemma chm_call_total:
  assumes "chm_ok m" "user_key (operand x)"
  shows "\<exists>b m'. chm_call w m x = Some (b, m') \<and> chm_ok m' \<and> chm_buckets m' = chm_buckets m
           \<and> (b, chm_keys m') = spec_op x (chm_keys m)"
proof -
  let ?n = "chm_buckets m"
  have n: "0 < unat ?n" "array_inv list_quiet list_keys (bucket_index ?n) (unat ?n) (chm_map m)"
    using assms(1) by (auto simp: chm_ok_def)
  note arr = bucket_array_lists [OF n(1), of w]
  obtain b ms where st: "array_step (list_set_call w) (bucket_index ?n) (chm_map m) x = Some (b, ms)"
    using bucket_array.array_step_total [OF arr n(2) assms(2)] by auto
  from bucket_array.array_step_refines [OF arr n(2) assms(2) st] st assms(1) show ?thesis
    by (auto simp: chm_call_array chm_ok_def chm_keys_def)
qed

interpretation hash_map: total_set_object "chm_call w" chm_ok chm_keys user_key
proof unfold_locales
  show "chm_ok m' \<and> (b, chm_keys m') = spec_op x (chm_keys m)"
    if "chm_ok m" "user_key (operand x)" "chm_call w m x = Some (b, m')" for m x b m'
    using chm_call_total [OF that(1,2), of w] that(3) by auto
  show "chm_call w m x \<noteq> None" if "chm_ok m" "user_key (operand x)" for m x
    using chm_call_total [OF that, of w] by auto
qed

subsection \<open>The empty map and sizes\<close>

lemma map_new_ok:
  assumes "0 < unat n" "unat n < 2 ^ 31"
  shows "chm_ok (ConcurrentHashMap_new n)" "chm_keys (ConcurrentHashMap_new n) = {}"
  using assms new_quiet
  by (auto simp: chm_ok_def chm_keys_def ConcurrentHashMap_new_def array_inv_def array_elems_def)

lemma spine_inner_keys:
  assumes wf: "list_wf h" and a: "a \<in> set (spine h)" "a \<noteq> 0" "a \<noteq> 1"
  shows "user_key (key (h ! a))"
proof -
  let ?A = "set (spine h)" and ?k = "\<lambda>a. key (h ! a)"
  have "Max (?k ` ?A) \<in> ?k ` ?A" using a(1) by (intro Max_in) auto
  then obtain m where m: "m \<in> ?A" "?k m = Max (?k ` ?A)" by auto
  have top: "?k b \<le> ?k m" if "b \<in> ?A" for b using that by (simp add: m(2))
  have "m = 1"
  proof (rule ccontr)
    assume "m \<noteq> 1"
    then obtain b where b: "next (h ! m) = Some b" "?k m < ?k b"
      using wf_D(5) [OF wf wf_D(7) [OF wf m(1)]] by (auto simp: climbs_def split: option.splits)
    with top [OF spine_adjacent(1) [OF wf m(1) b(1)]] show False by simp
  qed
  with top [OF a(1)] m(1) spine_key_inj [OF wf a(1), of 1] a(3) have "?k a < ?k 1" by force
  moreover have "?k 0 < ?k a" using a(1,2) spine_sorted [OF wf] spine_Cons [OF wf] by auto
  ultimately show ?thesis using wf_D(3,4) [OF wf] by (simp add: user_key_def)
qed

lemma list_size_keys:
  assumes "list_quiet h"
  shows "LazyList_size h = int (card (list_keys h))"
proof -
  have wf: "list_wf h" and um: "\<forall>a\<in>set (spine h). \<not> marked (h ! a)" using assms by (auto simp: list_quiet_def)
  let ?A = "set (spine h)"
  have sent: "0 \<in> ?A" "1 \<in> ?A" using wf_D(8) [OF wf] wf_D(1,2,9,10) [OF wf] by auto
  have "list_keys h = (\<lambda>a. key (h ! a)) ` (?A - {0, 1})"
    using um wf_D(3,4) [OF wf] spine_inner_keys [OF wf] unfolding list_keys_def
    by (auto simp: user_key_def)
  moreover have "inj_on (\<lambda>a. key (h ! a)) (?A - {0, 1})"
    using spine_key_inj [OF wf] by (auto intro: inj_onI)
  moreover have "card ?A = length (spine h)"
    by (rule distinct_card [OF sorted_wrt_key_distinct [OF spine_sorted [OF wf]]])
  moreover have "card {0, 1 :: nat} \<le> card ?A" using sent by (intro card_mono) auto
  ultimately show ?thesis
    using sent by (simp add: LazyList_size_def card_image card_Diff_subset)
qed

lemma finite_list_keys: "finite (list_keys h)"
  by (simp add: list_keys_def)

lemma map_size_keys:
  assumes "chm_ok m"
  shows "ConcurrentHashMap_size m = int (card (chm_keys m))"
proof -
  let ?ms = "chm_map m" and ?n = "length (chm_map m)"
  have q: "i < ?n \<Longrightarrow> list_quiet (?ms ! i)" "i < ?n \<Longrightarrow> v \<in> list_keys (?ms ! i) \<Longrightarrow> bucket_index (chm_buckets m) v = i"
    for i v using assms by (auto simp: chm_ok_def array_inv_def)
  have "card (chm_keys m) = (\<Sum>i<?n. card (list_keys (?ms ! i)))"
    unfolding chm_keys_def array_elems_nth
  proof (rule card_UN_disjoint)
    show "\<forall>i\<in>{..<?n}. \<forall>j\<in>{..<?n}. i \<noteq> j \<longrightarrow> list_keys (?ms ! i) \<inter> list_keys (?ms ! j) = {}"
      using q(2) by (metis disjoint_iff lessThan_iff)
  qed (simp_all add: finite_list_keys)
  moreover have "ConcurrentHashMap_size m = (\<Sum>i<?n. LazyList_size (?ms ! i))"
    by (simp add: ConcurrentHashMap_size_def sum_list_sum_nth atLeast0LessThan)
  ultimately show ?thesis using q(1) by (simp add: list_size_keys)
qed

end
