(* ===== verification/Store.thy ===== *)
theory Store
  imports Protocol HashMap
begin

text \<open>
  The distributed store end to end: \<open>handleMessage\<close> and \<open>connection_handler\<close> of
  DistributedKeyValueStore/Persistence/Server.cpp over the hash map, and \<open>get\<close> and \<open>insert\<close> of
  App/Remote.cpp, which pick a server by \<open>key % nodes.size()\<close>, send a message and read the answer.

  The network is a parameter: \<open>deliver s\<close> are the results of the receiver's \<open>read\<close> calls for the
  bytes \<open>s\<close> that the sender wrote.  What is relied on is that a stream socket delivers the bytes
  in order and complete, if with interrupted reads in between (\<open>delivers\<close>).
\<close>

fun result_code :: "RESULT \<Rightarrow> int" where
  "result_code FALSE = 0"
| "result_code TRUE = 1"
| "result_code ABORT_FAILURE = -1"

definition code_result :: "int \<Rightarrow> RESULT option" where
  "code_result i = (if i = 0 then Some FALSE else if i = 1 then Some TRUE
     else if i = -1 then Some ABORT_FAILURE else None)"

subsection \<open>The server\<close>

definition handle_store :: "chm \<Rightarrow> message \<Rightarrow> (RESULT \<times> chm) option" where
  "handle_store store m =
     (if protocol m = GET then ConcurrentHashMap_contains store (msg_key m)
      else if protocol m = PUT then ConcurrentHashMap_add store (msg_key m) (msg_val m)
      else Some (ABORT_FAILURE, store))"

definition handleMessage :: "chm \<Rightarrow> read_result list \<Rightarrow> (string \<times> chm \<times> read_result list) option" where
  "handleMessage store rs =
     do { (ob, rest) \<leftarrow> socket_get_line rs;
          if \<not> verify ob then Some (send_response (result_code ABORT_FAILURE), store, rest)
          else (case ob of
             None \<Rightarrow> None
           | Some b \<Rightarrow>
               do { m \<leftarrow> deserialize b;
                    (result, store') \<leftarrow> handle_store store m;
                    Some (send_response (result_code result), store', rest) }) }"

text \<open>The \<open>while (1)\<close> of \<open>connection_handler\<close>, for the number of messages that arrive.\<close>

fun handle_messages :: "nat \<Rightarrow> chm \<Rightarrow> read_result list \<Rightarrow> (string \<times> chm \<times> read_result list) option" where
  "handle_messages 0 store rs = Some ([], store, rs)"
| "handle_messages (Suc n) store rs =
     do { (out, store', rs') \<leftarrow> handleMessage store rs;
          (outs, store'', rs'') \<leftarrow> handle_messages n store' rs';
          Some (out @ outs, store'', rs'') }"

definition send_initialization :: string where
  "send_initialization = ''BEGIN'' @ [newline]"

definition connection_handler ::
  "bool \<Rightarrow> nat \<Rightarrow> chm \<Rightarrow> read_result list \<Rightarrow> (string \<times> chm \<times> read_result list) option" where
  "connection_handler isMaster n store rs =
     map_option (\<lambda>(out, store', rs'). ((if isMaster then send_initialization else []) @ out, store', rs'))
       (handle_messages n store rs)"

subsection \<open>The client\<close>

definition Remote_hash :: "nat \<Rightarrow> int \<Rightarrow> u32 option" where
  "Remote_hash n k = (if n = 0 then None else Some (ucast (word_of_int k mod (of_nat n :: u64))))"

definition awaitMaster :: "read_result list \<Rightarrow> (int + unit) option" where
  "awaitMaster rs = do { (ob, rest) \<leftarrow> socket_get_line rs; Some (case ob of None \<Rightarrow> Inl 0 | Some b \<Rightarrow> Inr ()) }"

definition remote_request :: "(string \<Rightarrow> read_result list) \<Rightarrow> chm list \<Rightarrow> message \<Rightarrow> (RESULT \<times> chm list) option" where
  "remote_request deliver servers m =
     do { i \<leftarrow> Remote_hash (length servers) (msg_key m);
          store \<leftarrow> at servers (uint i);
          (out, store', rest) \<leftarrow> handleMessage store (deliver (sendMessage m));
          servers' \<leftarrow> upd servers (uint i) store';
          (ob, rest') \<leftarrow> socket_get_line (deliver out);
          code \<leftarrow> awaitResponse ob;
          r \<leftarrow> code_result code;
          Some (r, servers') }"

definition Remote_get :: "(string \<Rightarrow> read_result list) \<Rightarrow> chm list \<Rightarrow> int \<Rightarrow> (RESULT \<times> chm list) option" where
  "Remote_get deliver servers k =
     remote_request deliver servers \<lparr>protocol = GET, msg_key = k, msg_val = 0\<rparr>"

definition Remote_insert :: "(string \<Rightarrow> read_result list) \<Rightarrow> chm list \<Rightarrow> int \<Rightarrow> int \<Rightarrow> (RESULT \<times> chm list) option" where
  "Remote_insert deliver servers k v =
     remote_request deliver servers \<lparr>protocol = PUT, msg_key = k, msg_val = v\<rparr>"

subsection \<open>Lines arrive complete\<close>

definition delivers :: "(string \<Rightarrow> read_result list) \<Rightarrow> bool" where
  "delivers deliver \<longleftrightarrow> (\<forall>s. clean (deliver s) \<and> bytes_of (deliver s) = s)"

lemma length_dec_nat: "n < 10 ^ k \<Longrightarrow> 0 < k \<Longrightarrow> length (dec_nat n) \<le> k"
proof (induction n arbitrary: k rule: dec_nat.induct)
  case (1 n)
  show ?case
  proof (cases "n < 10")
    case True
    with "1.prems" show ?thesis by (subst dec_nat.simps) simp
  next
    case False
    then obtain j where k: "k = Suc j" "0 < j" using "1.prems" by (cases k; cases "k - 1") auto
    with "1.prems" have "n div 10 < 10 ^ j" by (simp add: less_mult_imp_div_less mult.commute)
    with "1.IH" [OF False] k False show ?thesis by (subst dec_nat.simps) auto
  qed
qed

lemma dec_readable:
  assumes "readable i"
  shows "length (dec i) \<le> 10" "newline \<notin> set (dec i)"
proof -
  have d: "dec i = dec_nat (nat i)" "nat i < 10 ^ 10"
    using assms by (auto simp: dec_def readable_def int_max_def nat_less_iff)
  show "length (dec i) \<le> 10" using length_dec_nat [OF d(2)] by (simp add: d(1))
  show "newline \<notin> set (dec i)" using digits_dec_nat is_digit_neq by (auto simp: d(1))
qed

lemma get_line_ok:
  assumes "clean rs" "bytes_of rs = l @ [newline]" "newline \<notin> set l" "length l < 2148794367"
  shows "\<exists>b rest. socket_get_line (rs @ later) = Some (Some b, rest @ later) \<and> buf_holds b (l @ [newline])
           \<and> bytes_of rest = [] \<and> clean rest"
  using get_line_loop_ok [OF buf_holds_new buf_size_new assms(1-3), of later] assms(4)
  by (simp add: socket_get_line_def)

lemma sendMessage_line:
  assumes "readable (msg_key m)" "readable (msg_val m)"
  obtains l where "sendMessage m = l @ [newline]" "newline \<notin> set l" "length l < 2148794367"
proof
  let ?l = "(if protocol m = GET then ''GET'' else ''PUT'') @ '' '' @ dec (msg_key m) @ '','' @ dec (msg_val m)"
  show "sendMessage m = ?l @ [newline]" by (simp add: sendMessage_def)
  show "newline \<notin> set ?l" using dec_readable(2) [OF assms(1)] dec_readable(2) [OF assms(2)]
    by (auto simp: newline_def)
  show "length ?l < 2148794367" using dec_readable(1) [OF assms(1)] dec_readable(1) [OF assms(2)] by simp
qed

lemma send_response_line:
  obtains l where "send_response (result_code r) = l @ [newline]" "newline \<notin> set l" "length l < 2148794367"
proof
  show "send_response (result_code r) = dec (result_code r) @ [newline]" by (simp add: send_response_def)
  show "newline \<notin> set (dec (result_code r))" "length (dec (result_code r)) < 2148794367"
    by (cases r; simp add: dec_small newline_def)+
qed

subsection \<open>One request\<close>

lemma handleMessage_ok:
  assumes "clean rs" "bytes_of rs = sendMessage m"
    and "readable (msg_key m)" "readable (msg_val m)" "protocol m \<noteq> INVALID"
    and "handle_store store m = Some (r, store')"
  shows "\<exists>rest. handleMessage store (rs @ later) = Some (send_response (result_code r), store', rest @ later)
           \<and> bytes_of rest = [] \<and> clean rest"
proof -
  obtain l where l: "sendMessage m = l @ [newline]" "newline \<notin> set l" "length l < 2148794367"
    using sendMessage_line [OF assms(3,4)] .
  obtain b rest where b: "socket_get_line (rs @ later) = Some (Some b, rest @ later)"
    "buf_holds b (sendMessage m)" "bytes_of rest = []" "clean rest"
    using get_line_ok [OF assms(1) _ l(2,3)] assms(2) l(1) by metis
  from message_roundtrip [OF b(2) assms(3-5)] b assms(6) show ?thesis
    by (simp add: handleMessage_def)
qed

text \<open>What a connection makes of a sequence of messages.\<close>

fun serve :: "chm \<Rightarrow> message list \<Rightarrow> (RESULT list \<times> chm) option" where
  "serve store [] = Some ([], store)"
| "serve store (m # ms) =
     do { (r, store') \<leftarrow> handle_store store m; (rs, store'') \<leftarrow> serve store' ms; Some (r # rs, store'') }"

definition sendable :: "message \<Rightarrow> bool" where
  "sendable m \<longleftrightarrow> readable (msg_key m) \<and> readable (msg_val m) \<and> protocol m \<noteq> INVALID"

lemma handle_messages_ok:
  assumes "clean input" "bytes_of input = concat (map sendMessage ms)" "list_all sendable ms"
    and "serve store ms = Some (rs, store')"
  shows "\<exists>rest. handle_messages (length ms) store input =
     Some (concat (map (\<lambda>r. send_response (result_code r)) rs), store', rest)"
  using assms
proof (induction ms arbitrary: input store rs)
  case (Cons m ms)
  obtain i1 i2 where i: "input = i1 @ i2" "bytes_of i1 = sendMessage m" "bytes_of i2 = concat (map sendMessage ms)"
    using bytes_of_split [of input "sendMessage m"] Cons.prems(2) by auto
  obtain r store1 rs1 where r: "handle_store store m = Some (r, store1)" "serve store1 ms = Some (rs1, store')" "rs = r # rs1"
    using Cons.prems(4) by auto
  have c: "clean i1" "clean i2" using Cons.prems(1) by (auto simp: i(1) clean_def)
  have "readable (msg_key m)" "readable (msg_val m)" "protocol m \<noteq> INVALID"
    using Cons.prems(3) by (auto simp: sendable_def)
  from handleMessage_ok [OF c(1) i(2) this r(1), of i2] obtain rest
    where h: "handleMessage store input = Some (send_response (result_code r), store1, rest @ i2)"
      "bytes_of rest = []" "clean rest" by (auto simp: i(1))
  have "bytes_of (rest @ i2) = bytes_of i2" using h(2) by (induction rest rule: bytes_of.induct) auto
  moreover have "clean (rest @ i2)" using h(3) c(2) by (simp add: clean_def)
  ultimately show ?case using Cons.IH [of "rest @ i2" store1 rs1] Cons.prems(3) i(3) r h(1) by auto
qed simp

lemma answer_ok:
  assumes "delivers deliver"
  shows "\<exists>ob rest. socket_get_line (deliver (send_response (result_code r))) = Some (ob, rest)
           \<and> awaitResponse ob = Some (result_code r)"
proof -
  obtain l where l: "send_response (result_code r) = l @ [newline]" "newline \<notin> set l" "length l < 2148794367"
    using send_response_line .
  have "clean (deliver (send_response (result_code r)))"
    "bytes_of (deliver (send_response (result_code r))) = l @ [newline]"
    using assms l(1) by (simp_all add: delivers_def)
  from get_line_ok [OF this l(2,3), of "[]"] obtain b rest
    where "socket_get_line (deliver (send_response (result_code r))) = Some (Some b, rest)"
      "buf_holds b (send_response (result_code r))" by (auto simp: l(1))
  moreover have "result_code r \<in> {-1, 0, 1}" by (cases r) auto
  ultimately show ?thesis using answer_roundtrip by blast
qed

definition cluster_index :: "nat \<Rightarrow> int \<Rightarrow> nat" where
  "cluster_index n k = unat (word_of_int k mod (of_nat n :: u64))"

lemma cluster_index_range: "0 < n \<Longrightarrow> n < 2 ^ 32 \<Longrightarrow> cluster_index n k < n"
proof -
  assume n: "0 < n" "n < 2 ^ 32"
  have u: "unat (of_nat n :: u64) = n" using n by (simp add: unat_of_nat)
  show ?thesis unfolding cluster_index_def unat_mod_distrib u using n(1) by simp
qed

lemma Remote_hash_index:
  assumes "0 < n" "n < 2 ^ 32"
  shows "\<exists>i. Remote_hash n k = Some i \<and> uint i = int (cluster_index n k)"
proof -
  let ?w = "word_of_int k mod (of_nat n :: u64)"
  have "unat ?w < 2 ^ 32" using cluster_index_range [OF assms, of k] assms(2) by (simp only: cluster_index_def)
  then have "unat (ucast ?w :: u32) = unat ?w"
    by (subst unsigned_ucast_eq) (simp add: take_bit_eq_mod)
  then have "uint (ucast ?w :: u32) = int (cluster_index n k)"
    by (simp only: uint_nat cluster_index_def)
  then show ?thesis using assms(1) by (auto simp: Remote_hash_def)
qed

lemma remote_request_ok:
  assumes "delivers deliver" "readable (msg_key m)" "readable (msg_val m)" "protocol m \<noteq> INVALID"
    and "0 < length servers" "length servers < 2 ^ 32"
    and "handle_store (servers ! cluster_index (length servers) (msg_key m)) m = Some (r, store')"
  shows "remote_request deliver servers m =
     Some (r, servers[cluster_index (length servers) (msg_key m) := store'])"
proof -
  let ?i = "cluster_index (length servers) (msg_key m)"
  have lt: "?i < length servers" by (rule cluster_index_range [OF assms(5,6)])
  obtain i where i: "Remote_hash (length servers) (msg_key m) = Some i" "uint i = int ?i"
    using Remote_hash_index [OF assms(5,6)] by blast
  have "clean (deliver (sendMessage m))" "bytes_of (deliver (sendMessage m)) = sendMessage m"
    using assms(1) by (simp_all add: delivers_def)
  from handleMessage_ok [OF this assms(2-4,7), of "[]"] obtain rest
    where "handleMessage (servers ! ?i) (deliver (sendMessage m)) = Some (send_response (result_code r), store', rest)"
    by auto
  moreover obtain ob rest' where "socket_get_line (deliver (send_response (result_code r))) = Some (ob, rest')"
    "awaitResponse ob = Some (result_code r)" using answer_ok [OF assms(1)] by blast
  moreover have "code_result (result_code r) = Some r" by (cases r) (simp_all add: code_result_def)
  ultimately show ?thesis using i lt by (simp add: remote_request_def at_def upd_def)
qed

subsection \<open>The cluster as a set object\<close>

text \<open>The client offers \<open>get\<close> and \<open>insert\<close> only; \<open>w k\<close> is the value sent along with the key \<open>k\<close>.\<close>

fun remote_call :: "(string \<Rightarrow> read_result list) \<Rightarrow> (int \<Rightarrow> int) \<Rightarrow> chm list \<Rightarrow> int set_op \<Rightarrow> (bool \<times> chm list) option" where
  "remote_call deliver w servers (Contains k) =
     map_option (\<lambda>(r, ss). (r = TRUE, ss)) (Remote_get deliver servers k)"
| "remote_call deliver w servers (Insert k) =
     map_option (\<lambda>(r, ss). (r = TRUE, ss)) (Remote_insert deliver servers k (w k))"
| "remote_call deliver w servers (Remove k) = None"

fun offered :: "'v set_op \<Rightarrow> bool" where
  "offered (Remove k) \<longleftrightarrow> False"
| "offered x \<longleftrightarrow> True"

definition cluster_keys :: "chm list \<Rightarrow> int set" where
  "cluster_keys servers = array_elems chm_keys servers"

definition cluster_ok :: "(string \<Rightarrow> read_result list) \<Rightarrow> (int \<Rightarrow> int) \<Rightarrow> chm list \<Rightarrow> bool" where
  "cluster_ok deliver w servers \<longleftrightarrow> delivers deliver \<and> (\<forall>k. readable (w k))
     \<and> 0 < length servers \<and> length servers < 2 ^ 32
     \<and> array_inv chm_ok chm_keys (cluster_index (length servers)) (length servers) servers"

lemma readable_user_key: "readable k \<Longrightarrow> user_key k"
  by (simp add: readable_def user_key_def int_max_def INT_MIN_def INT_MAX_def)

lemma bucket_array_maps:
  "0 < n \<Longrightarrow> n < 2 ^ 32 \<Longrightarrow> bucket_array (chm_call w) chm_ok chm_keys user_key (cluster_index n) n"
  by unfold_locales (rule cluster_index_range)

lemma handle_store_call:
  "chm_call w m (Contains k) = Some (b, m') \<Longrightarrow>
     \<exists>r. handle_store m \<lparr>protocol = GET, msg_key = k, msg_val = v\<rparr> = Some (r, m') \<and> b = (r = TRUE)"
  "chm_call w m (Insert k) = Some (b, m') \<Longrightarrow>
     \<exists>r. handle_store m \<lparr>protocol = PUT, msg_key = k, msg_val = w k\<rparr> = Some (r, m') \<and> b = (r = TRUE)"
  by (auto simp: chm_call_def handle_store_def split: option.splits RESULT.splits prod.splits)

lemma remote_call_array:
  assumes ok: "cluster_ok deliver w servers" and x: "readable (operand x)" "offered x"
  shows "remote_call deliver w servers x = array_step (chm_call w) (cluster_index (length servers)) servers x"
proof -
  let ?i = "cluster_index (length servers) (operand x)"
  have n: "0 < length servers" "length servers < 2 ^ 32" and d: "delivers deliver" and w: "readable (w k)" for k
    using ok by (simp_all add: cluster_ok_def)
  have lt: "?i < length servers" by (rule cluster_index_range [OF n])
  then obtain b m' where c: "chm_call w (servers ! ?i) x = Some (b, m')"
    using chm_call_total [OF _ readable_user_key [OF x(1)], of "servers ! ?i" w] ok
    by (auto simp: cluster_ok_def array_inv_def)
  have z: "readable 0" by (simp add: readable_def int_max_def)
  show ?thesis
  proof (cases x)
    case (Insert k)
    obtain r where r: "handle_store (servers ! ?i) \<lparr>protocol = PUT, msg_key = k, msg_val = w k\<rparr> = Some (r, m')" "b = (r = TRUE)"
      using handle_store_call(2) c Insert by metis
    have "Remote_insert deliver servers k (w k) = Some (r, servers[?i := m'])"
      unfolding Remote_insert_def using remote_request_ok [OF d _ _ _ n, of "\<lparr>protocol = PUT, msg_key = k, msg_val = w k\<rparr>"]
        r(1) x(1) w Insert by simp
    with c r(2) lt Insert show ?thesis by (simp add: array_step_def)
  next
    case (Contains k)
    obtain r where r: "handle_store (servers ! ?i) \<lparr>protocol = GET, msg_key = k, msg_val = 0\<rparr> = Some (r, m')" "b = (r = TRUE)"
      using handle_store_call(1) c Contains by metis
    have "Remote_get deliver servers k = Some (r, servers[?i := m'])"
      unfolding Remote_get_def using remote_request_ok [OF d _ _ _ n, of "\<lparr>protocol = GET, msg_key = k, msg_val = 0\<rparr>"]
        r(1) x(1) z Contains by simp
    with c r(2) lt Contains show ?thesis by (simp add: array_step_def)
  qed (use x in simp)
qed

lemma remote_call_total:
  assumes ok: "cluster_ok deliver w servers" and x: "readable (operand x)" "offered x"
  shows "\<exists>b servers'. remote_call deliver w servers x = Some (b, servers') \<and> cluster_ok deliver w servers'
     \<and> (b, cluster_keys servers') = spec_op x (cluster_keys servers)"
proof -
  let ?n = "length servers"
  have n: "0 < ?n" "?n < 2 ^ 32" and arr: "array_inv chm_ok chm_keys (cluster_index ?n) ?n servers"
    using ok by (simp_all add: cluster_ok_def)
  note uk = readable_user_key [OF x(1)] and ba = bucket_array_maps [OF n, of w]
  obtain b ss where st: "array_step (chm_call w) (cluster_index ?n) servers x = Some (b, ss)"
    using bucket_array.array_step_total [OF ba arr uk] by auto
  have ref: "array_inv chm_ok chm_keys (cluster_index ?n) ?n ss"
    "(b, array_elems chm_keys ss) = spec_op x (array_elems chm_keys servers)"
    using bucket_array.array_step_refines [OF ba arr uk st] by auto
  have "length ss = ?n" using ref(1) by (simp add: array_inv_def)
  with ok ref st show ?thesis by (auto simp: remote_call_array [OF ok x] cluster_ok_def cluster_keys_def)
qed

interpretation cluster: set_object "remote_call deliver w" "cluster_ok deliver w" cluster_keys readable
proof unfold_locales
  fix servers x b servers'
  assume "cluster_ok deliver w servers" "readable (operand x)" "remote_call deliver w servers x = Some (b, servers')"
  moreover from this(3) have "offered x" by (cases x) auto
  ultimately show "cluster_ok deliver w servers' \<and> (b, cluster_keys servers') = spec_op x (cluster_keys servers)"
    using remote_call_total [of deliver w servers x] by auto
qed

lemma remote_run_total:
  assumes "cluster_ok deliver w servers" "\<forall>x\<in>set xs. readable (operand x) \<and> offered x"
  shows "\<exists>bs servers'. run_ops (remote_call deliver w) servers xs = Some (bs, servers')
     \<and> cluster_ok deliver w servers' \<and> (bs, cluster_keys servers') = spec_run xs (cluster_keys servers)"
proof -
  have "\<exists>bs servers'. run_ops (remote_call deliver w) servers xs = Some (bs, servers')"
    using assms
  proof (induction xs arbitrary: servers)
    case (Cons x xs)
    then obtain b s where "remote_call deliver w servers x = Some (b, s)" "cluster_ok deliver w s"
      using remote_call_total [of deliver w servers x] by auto
    moreover from this Cons obtain bs s' where "run_ops (remote_call deliver w) s xs = Some (bs, s')" by fastforce
    ultimately show ?case by simp
  qed simp
  then show ?thesis using cluster.run_refines [of deliver w servers xs] assms by blast
qed

end
