(* ===== verification/StoreCorrect.thy ===== *)
theory StoreCorrect
  imports Store
begin

text \<open>
  The guarantees of the distributed store, from the wire to the client: messages, answers and the
  environment file are read as they were printed within the stated bounds, the byte loops transmit
  everything or say so, a hash map counts its keys, and a cluster of servers answers its client as
  one set.
\<close>

definition two_servers :: "chm list" where
  "two_servers = [ConcurrentHashMap_new 4, ConcurrentHashMap_new 4]"

definition direct :: "string \<Rightarrow> read_result list" where
  "direct s = Read_interrupted # map Byte s"

lemma bytes_of_Byte [simp]: "bytes_of (map Byte s) = s"
  by (induction s) auto

lemma direct_delivers: "delivers direct"
  by (auto simp: delivers_def direct_def clean_def)

lemma two_servers_ok: "cluster_ok direct (\<lambda>_. 0) two_servers" "cluster_keys two_servers = {}"
proof -
  have "chm_ok (ConcurrentHashMap_new 4)" "chm_keys (ConcurrentHashMap_new 4) = {}"
    using map_new_ok [of 4] by simp_all
  then show "cluster_ok direct (\<lambda>_. 0) two_servers" "cluster_keys two_servers = {}"
    by (auto simp: cluster_ok_def direct_delivers readable_def int_max_def two_servers_def array_inv_def
        cluster_keys_def array_elems_def less_Suc_eq)
qed

subsection \<open>Properties\<close>



text \<open>C14: a message whose numbers lie between 0 and 2147483599 arrives as it was sent, however
  the reads are interrupted: the line that the server reads passes \<open>verify\<close>, and \<open>deserialize\<close> gives
  the type, key and value of the sender.\<close>

theorem message_received:
  assumes "clean rs" "bytes_of rs = sendMessage m"
    and "readable (msg_key m)" "readable (msg_val m)" "protocol m \<noteq> INVALID"
  shows "\<exists>b rest. socket_get_line rs = Some (Some b, rest) \<and> verify (Some b) \<and> deserialize b = Some m"
proof -
  obtain l where l: "sendMessage m = l @ [newline]" "newline \<notin> set l" "length l < 2148794367"
    using sendMessage_line [OF assms(3,4)] .
  obtain b rest where "socket_get_line (rs @ []) = Some (Some b, rest @ [])" "buf_holds b (sendMessage m)"
    using get_line_ok [OF assms(1) _ l(2,3), of "[]"] assms(2) l(1) by metis
  with message_roundtrip [OF _ assms(3-5)] show ?thesis by auto
qed

theorem message_received_witness:
  "\<exists>b rest. socket_get_line (direct (sendMessage \<lparr>protocol = PUT, msg_key = 12, msg_val = 2147483599\<rparr>)) = Some (Some b, rest)
     \<and> deserialize b = Some \<lparr>protocol = PUT, msg_key = 12, msg_val = 2147483599\<rparr>"
  using message_received [of "direct (sendMessage \<lparr>protocol = PUT, msg_key = 12, msg_val = 2147483599\<rparr>)"
      "\<lparr>protocol = PUT, msg_key = 12, msg_val = 2147483599\<rparr>"]
  by (auto simp: direct_def clean_def readable_def int_max_def)

text \<open>Outside these bounds the number reader fails the sender: a negative key is read as
  another key and value, and a key from 2147483600 on overflows a signed \<open>int\<close>.\<close>

theorem numbers_misread:
  "getTwoNumbers (map Some (''-5,7'' @ [NUL])) = Some (0, 467)
   \<and> getTwoNumbers (map Some (''2147483600,7'' @ [NUL])) = None"
  by code_simp

text \<open>C15: a byte can be appended to a line buffer as long as it holds fewer than 2148794367
  bytes, whatever its capacity, and then holds the bytes before and the new one.\<close>

theorem buffer_add_bounds:
  assumes "buf_holds b s" "buf_size_ok b" "length s < 2148794367"
  shows "\<exists>b'. Buffer_add b c = Some b' \<and> buf_holds b' (s @ [c]) \<and> buf_size_ok b'"
  by (rule buf_add [OF assms])

theorem buffer_add_bounds_witness:
  "\<exists>b'. Buffer_add (Buffer_new BUFFER_SIZE) CHR ''x'' = Some b' \<and> buf_holds b' ''x''"
  using buffer_add_bounds [OF buf_holds_new buf_size_new] by auto

text \<open>At 2148794367 bytes the 32-bit size of the grown buffer wraps to less than the content:
  the copy overruns the new allocation.\<close>

theorem buffer_overruns:
  assumes "currentSize b = 2148794367" "maxSize b = 2148794367"
  shows "Buffer_add b c = None"
  by (rule buf_add_overflow [OF assms])

text \<open>C16: \<open>stream_data\<close> returns as soon as the writes have covered the bytes, and when it returns
  it has sent all the bytes in order and says 0, or a proper prefix of them and says -1.\<close>

theorem stream_all_or_error:
  assumes "length bytes \<le> progress ws"
  shows "\<exists>r out. stream_data e bytes ws = Some (r, out)
     \<and> ((r = 0 \<and> out = bytes) \<or> (r = -1 \<and> (\<exists>k < length bytes. out = take k bytes)))"
proof -
  obtain r out where r: "stream_data e bytes ws = Some (r, out)"
    using stream_loop_returns [OF assms, of e "[]"] by (auto simp: stream_data_def)
  with stream_loop_ok [of e "[]" bytes ws r out] show ?thesis by (auto simp: stream_data_def)
qed

theorem stream_all_or_error_witness:
  "stream_data False ''hello'' [Sent 2, Write_interrupted, Sent 3] = Some (0, ''hello'')"
proof -
  obtain r out where "stream_data False ''hello'' [Sent 2, Write_interrupted, Sent 3] = Some (r, out)"
    "(r = 0 \<and> out = ''hello'') \<or> r = -1"
    using stream_all_or_error [of "''hello''" "[Sent 2, Write_interrupted, Sent 3]" False] by auto
  moreover have "map_option fst (stream_data False ''hello'' [Sent 2, Write_interrupted, Sent 3]) = Some 0"
    by code_simp
  ultimately show ?thesis by auto
qed

text \<open>\<open>parseNodes\<close> reads back every list of servers that is printed with some character
  after each port.\<close>

theorem environment_roundtrip:
  assumes "list_all node_ok ns" "\<not> is_digit sep"
  shows "parseNodes (print_nodes sep ns) = Some ns"
  using parse_print_nodes [of ns sep] assms by (simp add: parseNodes_def list_all_iff)

theorem environment_roundtrip_witness:
  "parseNodes ''sunlab:4000,io:80,'' = Some [\<lparr>server = ''sunlab'', port = 4000\<rparr>, \<lparr>server = ''io'', port = 80\<rparr>]"
proof -
  let ?ns = "[\<lparr>server = ''sunlab'', port = 4000\<rparr>, \<lparr>server = ''io'', port = 80\<rparr>]"
  have "print_nodes CHR '','' ?ns = ''sunlab:4000,io:80,''" by code_simp
  moreover have "parseNodes (print_nodes CHR '','' ?ns) = Some ?ns"
    by (rule environment_roundtrip) (simp_all add: node_ok_def readable_def int_max_def NUL_def is_digit_def)
  ultimately show ?thesis by (simp only:)
qed

text \<open>When the line ends directly after a port, the loop steps over the terminating zero and
  reads on.\<close>

theorem environment_overrun:
  assumes "node_ok n"
  shows "parseNodes (print_node n) = None"
  using parse_overruns [OF assms] by (simp add: parseNodes_def)

text \<open>\<open>size\<close> of a hash map in which no call is running is the number of its keys.\<close>

theorem map_size_counts:
  assumes "chm_ok m"
  shows "ConcurrentHashMap_size m = int (card (chm_keys m))"
  by (rule map_size_keys [OF assms])

text \<open>C13: a connection answers every message it receives, in order, with the result of executing
  it on the store as the messages before it left it; the master greets the client first.\<close>

theorem connection_answers:
  assumes "clean input" "bytes_of input = concat (map sendMessage ms)" "list_all sendable ms"
    and "serve store ms = Some (rs, store')"
  shows "\<exists>rest. connection_handler isMaster (length ms) store input =
     Some ((if isMaster then ''BEGIN'' @ [newline] else [])
       @ concat (map (\<lambda>r. send_response (result_code r)) rs), store', rest)"
  using handle_messages_ok [OF assms] by (auto simp: connection_handler_def send_initialization_def)

theorem connection_answers_witness:
  "\<exists>store' rest. connection_handler True 2 (ConcurrentHashMap_new 4)
     (direct (sendMessage \<lparr>protocol = PUT, msg_key = 6, msg_val = 1\<rparr> @ sendMessage \<lparr>protocol = GET, msg_key = 6, msg_val = 0\<rparr>))
     = Some (''BEGIN'' @ [newline] @ ''1'' @ [newline] @ ''1'' @ [newline], store', rest)"
proof -
  let ?ms = "[\<lparr>protocol = PUT, msg_key = 6, msg_val = 1\<rparr>, \<lparr>protocol = GET, msg_key = 6, msg_val = 0\<rparr>]"
  have "map_option fst (serve (ConcurrentHashMap_new 4) ?ms) = Some [TRUE, TRUE]" by code_simp
  then obtain store' where s: "serve (ConcurrentHashMap_new 4) ?ms = Some ([TRUE, TRUE], store')" by auto
  have c: "clean (direct (concat (map sendMessage ?ms)))" "bytes_of (direct (concat (map sendMessage ?ms))) = concat (map sendMessage ?ms)"
    using direct_delivers by (simp_all only: delivers_def)
  have "list_all sendable ?ms" by (simp add: sendable_def readable_def int_max_def)
  from connection_answers [OF c this s, of True] show ?thesis
    by (auto simp: send_response_def dec_small numeral_2_eq_2)
qed

end
