(* ===== verification/TMCuckoo.thy ===== *)
theory TMCuckoo
  imports CuckooInsert
begin

text \<open>
  The transactional cuckoo table, CuckooHash/TMCuckoo.hpp: the algorithm of Cuckoo.hpp with buckets
  of 50 slots, empty lock macros, and \<open>__transaction_atomic\<close> blocks around the test of the two
  buckets, the claim of a free slot and each displacement.  The search for a path, the reading of
  its cells and the final store of the inserted element are outside of every transaction.

  A thread is a program counter with local variables; one step is one transaction, one operation on
  the reader/writer lock, the final store, or the whole unprotected search.  What a search may see
  while other threads write is covered by a parameter of the step: \<open>None\<close> runs the code of \<open>search\<close>
  on the present state, \<open>Some p\<close> makes it come back with any path \<open>p\<close>.  A call that runs alone is the
  iteration of the steps.  The class has the fields of the locking one (its lock array is never
  allocated), so the record is shared.
\<close>

definition TM_WIDTH :: nat where "TM_WIDTH = 50"

interpretation tm_tables: two_tables TM_WIDTH
  by unfold_locales (simp add: TM_WIDTH_def)

abbreviation tm_shaped :: "cuckoo \<Rightarrow> bool" where "tm_shaped \<equiv> shaped_w TM_WIDTH"
abbreviation tm_wf :: "cuckoo \<Rightarrow> bool" where "tm_wf \<equiv> table_wf_w TM_WIDTH"
abbreviation tm_cell_ok :: "cuckoo \<Rightarrow> path_cell \<Rightarrow> bool" where "tm_cell_ok \<equiv> cell_ok_w TM_WIDTH"

subsection \<open>Table\<close>

definition TM_Table_new :: "nat \<Rightarrow> elements" where
  "TM_Table_new n = replicate n (replicate TM_WIDTH EMPTY)"

text \<open>The loop over the slots of a bucket, from slot \<open>TM_WIDTH - n\<close> on.\<close>

fun TM_slots :: "(u32 \<Rightarrow> bool) \<Rightarrow> u32 list \<Rightarrow> nat \<Rightarrow> int option" where
  "TM_slots p bucket 0 = Some (-1)"
| "TM_slots p bucket (Suc n) =
     do { x \<leftarrow> at bucket (int TM_WIDTH - int (Suc n));
          if p x then Some (int TM_WIDTH - int (Suc n)) else TM_slots p bucket n }"

definition TM_find :: "elements \<Rightarrow> u32 \<Rightarrow> int \<Rightarrow> bool option" where
  "TM_find t val idx =
     do { bucket \<leftarrow> at t idx; i \<leftarrow> TM_slots (\<lambda>x. x = val) bucket TM_WIDTH; Some (i \<noteq> -1) }"

definition TM_findSlot :: "elements \<Rightarrow> u32 \<Rightarrow> int \<Rightarrow> int option" where
  "TM_findSlot t val idx = do { bucket \<leftarrow> at t idx; TM_slots (\<lambda>x. x = val) bucket TM_WIDTH }"

definition TM_isAvailable :: "elements \<Rightarrow> int \<Rightarrow> int option" where
  "TM_isAvailable t idx = do { bucket \<leftarrow> at t idx; TM_slots (\<lambda>x. \<not> occupied x) bucket TM_WIDTH }"

subsection \<open>The object\<close>

definition TM_Cuckoo_new :: "u32 \<Rightarrow> rng \<Rightarrow> cuckoo" where
  "TM_Cuckoo_new n r =
     \<lparr>buckets = n, table1 = TM_Table_new (unat n), table2 = TM_Table_new (unat n),
      locks = [], readers = 0, writer = False, rng_state = r\<rparr>"

definition TM_hash :: "cuckoo \<Rightarrow> u32 \<Rightarrow> int \<Rightarrow> int option" where
  "TM_hash c val function =
     (if buckets c = 0 then None
      else if function = 1 then Some (sint (val mod buckets c))
      else if function = 2 then Some (sint ((val div buckets c) mod buckets c))
      else None)"

fun TM_size_slots :: "cuckoo \<Rightarrow> int \<Rightarrow> nat \<Rightarrow> int \<Rightarrow> int option" where
  "TM_size_slots c i 0 sz = Some sz"
| "TM_size_slots c i (Suc n) sz =
     do { o1 \<leftarrow> Table_isOccupied (table1 c) i (int TM_WIDTH - int (Suc n));
          o2 \<leftarrow> Table_isOccupied (table2 c) i (int TM_WIDTH - int (Suc n));
          TM_size_slots c i n (sz + of_bool o1 + of_bool o2) }"

fun TM_size_rows :: "cuckoo \<Rightarrow> int list \<Rightarrow> int \<Rightarrow> int option" where
  "TM_size_rows c [] sz = Some sz"
| "TM_size_rows c (i # is) sz = do { sz \<leftarrow> TM_size_slots c i TM_WIDTH sz; TM_size_rows c is sz }"

definition TM_size :: "cuckoo \<Rightarrow> int option" where
  "TM_size c = TM_size_rows c (map int [0..<unat (buckets c)]) 0"

subsection \<open>Search\<close>

definition TM_nextPoint :: "cuckoo \<Rightarrow> point \<Rightarrow> int \<Rightarrow> point option" where
  "TM_nextPoint c point slot =
     (if pt_table point = 1 then
        do { v \<leftarrow> Table_getElement (table1 c) (pt_index point) slot;
             idx \<leftarrow> TM_hash c v 2;
             m \<leftarrow> as_int (pt_pathcode point * int TM_WIDTH);
             pc \<leftarrow> as_int (m + slot);
             Some (Point 2 idx pc (pt_depth point + 1)) }
      else
        do { v \<leftarrow> Table_getElement (table2 c) (pt_index point) slot;
             idx \<leftarrow> TM_hash c v 1;
             m \<leftarrow> as_int (pt_pathcode point * int TM_WIDTH);
             pc \<leftarrow> as_int (m + slot);
             Some (Point 1 idx pc (pt_depth point + 1)) })"

definition TM_getBucket :: "cuckoo \<Rightarrow> point \<Rightarrow> u32 list option" where
  "TM_getBucket c point =
     (if pt_table point = 1 then at (table1 c) (pt_index point) else at (table2 c) (pt_index point))"

fun TM_scan :: "cuckoo \<Rightarrow> point \<Rightarrow> u32 list \<Rightarrow> int list \<Rightarrow> point list \<Rightarrow> scan_result option" where
  "TM_scan c p bucket [] acc = Some (Queue (rev acc))"
| "TM_scan c p bucket (slot # slots) acc =
     do { v \<leftarrow> at bucket slot;
          if \<not> occupied v then
            do { m \<leftarrow> as_int (pt_pathcode p * int TM_WIDTH);
                 pc \<leftarrow> as_int (m + slot);
                 Some (Found (p\<lparr>pt_pathcode := pc\<rparr>)) }
          else if pt_depth p < MAX_SEARCH_DEPTH - 1 then
            do { q \<leftarrow> TM_nextPoint c p slot; TM_scan c p bucket slots (q # acc) }
          else TM_scan c p bucket slots acc }"

definition TM_slot_sequence :: "int \<Rightarrow> int list" where
  "TM_slot_sequence start_slot = map (\<lambda>i. (start_slot + int i) mod int TM_WIDTH) [0..<TM_WIDTH]"

definition tm_weight :: "point \<Rightarrow> nat" where
  "tm_weight p = 51 ^ nat (MAX_SEARCH_DEPTH - pt_depth p)"

lemma TM_nextPoint_depth: "TM_nextPoint c p slot = Some q \<Longrightarrow> pt_depth q = pt_depth p + 1"
  by (auto simp: TM_nextPoint_def split: if_splits)

lemma TM_scan_depth:
  "TM_scan c p bucket slots acc = Some (Queue qs) \<Longrightarrow>
   \<forall>q\<in>set acc. pt_depth q = pt_depth p + 1 \<and> pt_depth p < MAX_SEARCH_DEPTH - 1 \<Longrightarrow>
   length qs \<le> length acc + length slots
   \<and> (\<forall>q\<in>set qs. pt_depth q = pt_depth p + 1 \<and> pt_depth p < MAX_SEARCH_DEPTH - 1)"
proof (induction slots arbitrary: acc)
  case (Cons slot slots)
  from Cons.prems(1) obtain v where v: "at bucket slot = Some v" "occupied v" by (auto split: if_splits)
  show ?case
  proof (cases "pt_depth p < MAX_SEARCH_DEPTH - 1")
    case True
    with Cons.prems(1) v obtain q where q: "TM_nextPoint c p slot = Some q"
      and rest: "TM_scan c p bucket slots (q # acc) = Some (Queue qs)" by auto
    have "\<forall>q\<in>set (q # acc). pt_depth q = pt_depth p + 1 \<and> pt_depth p < MAX_SEARCH_DEPTH - 1"
      using TM_nextPoint_depth [OF q] True Cons.prems(2) by auto
    from Cons.IH [OF rest this] show ?thesis by auto
  next
    case False
    with Cons.prems v have "TM_scan c p bucket slots acc = Some (Queue qs)" by auto
    from Cons.IH [OF this Cons.prems(2)] show ?thesis by auto
  qed
qed auto

lemma TM_scan_decreases:
  assumes "TM_scan c p bucket (TM_slot_sequence s) [] = Some (Queue qs)"
  shows "(\<Sum>q\<leftarrow>qs. tm_weight q) < tm_weight p"
proof (cases "qs = []")
  case False
  from TM_scan_depth [OF assms] have len: "length qs \<le> 50"
    and d: "\<forall>q\<in>set qs. pt_depth q = pt_depth p + 1" and lt: "pt_depth p < MAX_SEARCH_DEPTH - 1"
    using False by (auto simp: TM_slot_sequence_def TM_WIDTH_def neq_Nil_conv)
  have "(\<Sum>q\<leftarrow>qs. tm_weight q) = length qs * 51 ^ nat (MAX_SEARCH_DEPTH - (pt_depth p + 1))"
    using d by (induction qs) (auto simp: tm_weight_def)
  moreover have "nat (MAX_SEARCH_DEPTH - pt_depth p) = Suc (nat (MAX_SEARCH_DEPTH - (pt_depth p + 1)))"
    using lt by simp
  ultimately show ?thesis using len by (simp add: tm_weight_def)
qed (simp add: tm_weight_def)

function TM_search_loop :: "cuckoo \<Rightarrow> point list \<Rightarrow> u32 list \<Rightarrow> rng \<Rightarrow> (point \<times> rng) option" where
  "TM_search_loop c [] paths r = Some (no_point, r)"
| "TM_search_loop c (point # q) paths r =
     (case TM_getBucket c point of None \<Rightarrow> None | Some bucket \<Rightarrow>
      (case at bucket (pt_pathcode point mod int TM_WIDTH) of None \<Rightarrow> None | Some val \<Rightarrow>
       (if val \<in> set paths then Some (no_point, r)
        else case xorshf96 r of (z, r') \<Rightarrow>
          (case TM_scan c point bucket (TM_slot_sequence (uint (z mod of_nat TM_WIDTH))) [] of
             None \<Rightarrow> None
           | Some (Found p) \<Rightarrow> Some (p, r')
           | Some (Queue ps) \<Rightarrow> TM_search_loop c (q @ ps) (val # paths) r'))))"
  by pat_completeness auto
termination
proof (relation "measure (\<lambda>(c, q, paths, r). \<Sum>p\<leftarrow>q. tm_weight p)", goal_cases)
  case (2 c point q paths r bucket val z r' res ps)
  then show ?case using TM_scan_decreases by fastforce
qed simp

definition TM_search :: "cuckoo \<Rightarrow> int \<Rightarrow> int \<Rightarrow> (point \<times> cuckoo) option" where
  "TM_search c idx1 idx2 =
     do { (p, r) \<leftarrow> TM_search_loop c [Point 1 idx1 0 0, Point 2 idx2 1 0] [] (rng_state c);
          Some (p, c\<lparr>rng_state := r\<rparr>) }"

subsection \<open>The path\<close>

fun TM_decode_slots :: "nat \<Rightarrow> int \<Rightarrow> int list \<Rightarrow> int list \<times> int" where
  "TM_decode_slots 0 pathcode slots = (slots, pathcode)"
| "TM_decode_slots (Suc n) pathcode slots =
     TM_decode_slots n (pathcode div int TM_WIDTH) (pathcode mod int TM_WIDTH # slots)"

definition TM_decode_path :: "point \<Rightarrow> (int list \<times> int) option" where
  "TM_decode_path p =
     (if 0 \<le> pt_depth p \<and> pt_depth p < MAX_SEARCH_DEPTH
      then Some (TM_decode_slots (nat (pt_depth p + 1)) (pt_pathcode p) []) else None)"

fun TM_follow_path :: "cuckoo \<Rightarrow> int \<Rightarrow> int \<Rightarrow> int list \<Rightarrow> path_cell list option" where
  "TM_follow_path c t i [] = None"
| "TM_follow_path c t i (s # ss) =
     do { free \<leftarrow> Table_isAvailable_slot (table_of c t) i s;
          if free \<or> ss = [] then Some [(t, i, s)]
          else do { v \<leftarrow> Table_getElement (table_of c t) i s;
                    i' \<leftarrow> TM_hash c v (other t);
                    cs \<leftarrow> TM_follow_path c (other t) i' ss;
                    Some ((t, i, s) # cs) } }"

text \<open>Everything between the first transaction and the second: \<open>Some None\<close> asks for a resize.\<close>

definition TM_path :: "cuckoo \<Rightarrow> int \<Rightarrow> int \<Rightarrow> (path_cell list option \<times> cuckoo) option" where
  "TM_path c idx1 idx2 =
     do { (point, c) \<leftarrow> TM_search c idx1 idx2;
          if pt_pathcode point = -1 then Some (None, c)
          else do {
            (slots, rest) \<leftarrow> TM_decode_path point;
            path \<leftarrow> (if rest = 0 then TM_follow_path c 1 idx1 slots else TM_follow_path c 2 idx2 slots);
            Some (Some path, c) } }"

subsection \<open>The transactions\<close>

text \<open>The first transaction of the private \<open>insert\<close>; \<open>None\<close> inside: both buckets are full.\<close>

definition TM_test :: "cuckoo \<Rightarrow> u32 \<Rightarrow> int \<Rightarrow> int \<Rightarrow> result option option" where
  "TM_test c val idx1 idx2 =
     do { in1 \<leftarrow> TM_find (table1 c) val idx1;
          dup \<leftarrow> (if in1 then Some True else TM_find (table2 c) val idx2);
          if dup then Some (Some (Result DUPLICATE 0 0 0))
          else do {
          slot1 \<leftarrow> TM_isAvailable (table1 c) idx1;
          if slot1 \<noteq> -1 then Some (Some (Result SUCCESS 1 idx1 slot1))
          else do {
          slot2 \<leftarrow> TM_isAvailable (table2 c) idx2;
          if slot2 \<noteq> -1 then Some (Some (Result SUCCESS 2 idx2 slot2))
          else Some None } } }"

definition TM_claim :: "cuckoo \<Rightarrow> path_cell \<Rightarrow> result option" where
  "TM_claim c x = (case x of (t, i, s) \<Rightarrow>
     do { free \<leftarrow> Table_isAvailable_slot (table_of c t) i s;
          Some (if free then Result SUCCESS t i s else Result RETRY 0 0 0) })"

definition TM_displace :: "cuckoo \<Rightarrow> path_cell \<Rightarrow> path_cell \<Rightarrow> (bool \<times> cuckoo) option" where
  "TM_displace c to from =
     (case to of (_, ti, ts) \<Rightarrow> case from of (ft, fi, fs) \<Rightarrow>
      do { to_occupied \<leftarrow> Table_isOccupied (table_of c (other ft)) ti ts;
           stale \<leftarrow>
             (if to_occupied then Some True
              else do { from_occupied \<leftarrow> Table_isOccupied (table_of c ft) fi fs;
                        if \<not> from_occupied then Some True
                        else do { v \<leftarrow> Table_getElement (table_of c ft) fi fs;
                                  h \<leftarrow> TM_hash c v (other ft);
                                  Some (h \<noteq> ti) } });
           if stale then Some (False, c)
           else do { v \<leftarrow> Table_getElement (table_of c ft) fi fs;
                     c \<leftarrow> put_element c (other ft) ti ts v;
                     c \<leftarrow> put_element c ft fi fs EMPTY;
                     Some (True, c) } })"

definition TM_remove_txn :: "cuckoo \<Rightarrow> u32 \<Rightarrow> int \<Rightarrow> int \<Rightarrow> (bool \<times> cuckoo) option" where
  "TM_remove_txn c val idx1 idx2 =
     do { slot1 \<leftarrow> TM_findSlot (table1 c) val idx1;
          if slot1 \<noteq> -1 then do { c \<leftarrow> put_element c 1 idx1 slot1 EMPTY; Some (True, c) }
          else do { slot2 \<leftarrow> TM_findSlot (table2 c) val idx2;
                    if slot2 \<noteq> -1 then do { c \<leftarrow> put_element c 2 idx2 slot2 EMPTY; Some (True, c) }
                    else Some (False, c) } }"

definition TM_contains_txn :: "cuckoo \<Rightarrow> u32 \<Rightarrow> int \<Rightarrow> int \<Rightarrow> bool option" where
  "TM_contains_txn c val idx1 idx2 =
     do { in1 \<leftarrow> TM_find (table1 c) val idx1; if in1 then Some True else TM_find (table2 c) val idx2 }"

subsection \<open>Resize\<close>

definition TM_copy_element :: "cuckoo \<Rightarrow> int \<Rightarrow> elements \<Rightarrow> u32 \<Rightarrow> elements option" where
  "TM_copy_element c function t val =
     (if occupied val then
        do { idx \<leftarrow> TM_hash c val function; slot \<leftarrow> TM_isAvailable t idx; set2 t idx slot val }
      else Some t)"

fun TM_copy_slots :: "cuckoo \<Rightarrow> int \<Rightarrow> nat \<Rightarrow> elements \<Rightarrow> elements \<Rightarrow> (elements \<times> elements) option" where
  "TM_copy_slots c i 0 t1 t2 = Some (t1, t2)"
| "TM_copy_slots c i (Suc n) t1 t2 =
     do { v1 \<leftarrow> get2 (table1 c) i (int TM_WIDTH - int (Suc n));
          t1 \<leftarrow> TM_copy_element c 1 t1 v1;
          v2 \<leftarrow> get2 (table2 c) i (int TM_WIDTH - int (Suc n));
          t2 \<leftarrow> TM_copy_element c 2 t2 v2;
          TM_copy_slots c i n t1 t2 }"

fun TM_copy_rows :: "cuckoo \<Rightarrow> int list \<Rightarrow> elements \<Rightarrow> elements \<Rightarrow> (elements \<times> elements) option" where
  "TM_copy_rows c [] t1 t2 = Some (t1, t2)"
| "TM_copy_rows c (i # is) t1 t2 =
     do { (t1, t2) \<leftarrow> TM_copy_slots c i TM_WIDTH t1 t2; TM_copy_rows c is t1 t2 }"

text \<open>The body under the write lock.\<close>

definition TM_resize :: "u32 \<Rightarrow> cuckoo \<Rightarrow> cuckoo option" where
  "TM_resize old_capacity c =
     (if old_capacity \<noteq> buckets c then Some c
      else do {
        let c = c\<lparr>buckets := buckets c * 2\<rparr>;
        let n = unat (buckets c);
        (t1, t2) \<leftarrow> TM_copy_rows c (map int [0..<unat (buckets c div 4)]) (TM_Table_new n) (TM_Table_new n);
        Some (c\<lparr>table1 := t1, table2 := t2\<rparr>) })"

subsection \<open>Threads\<close>

datatype tm_op = T_insert (tm_arg: u32) | T_remove (tm_arg: u32) | T_contains (tm_arg: u32)

datatype tm_pc =
    T_idle
  | T_call tm_op
  | T_enter u32 int int
  | T_test u32 int int
  | T_search u32 int int
  | T_claim u32 int int path_cell
  | T_move u32 int int path_cell "path_cell list"
  | T_store u32 int int path_cell
  | T_txn tm_op int int
  | T_unlock tm_pc
  | T_resize u32 int int
  | T_grow u32 u32 int int
  | T_done bool
  | T_fault

fun T_path :: "u32 \<Rightarrow> int \<Rightarrow> int \<Rightarrow> path_cell list option \<Rightarrow> tm_pc" where
  "T_path v i1 i2 None = T_unlock (T_resize v i1 i2)"
| "T_path v i1 i2 (Some [x]) = T_claim v i1 i2 x"
| "T_path v i1 i2 (Some (x # y # zs)) = T_move v i1 i2 x (rev (x # y # zs))"
| "T_path v i1 i2 (Some []) = T_fault"

definition T_result :: "u32 \<Rightarrow> int \<Rightarrow> int \<Rightarrow> result \<Rightarrow> tm_pc" where
  "T_result v i1 i2 r = (case res_status r of
       DUPLICATE \<Rightarrow> T_unlock (T_done False)
     | RESIZE \<Rightarrow> T_unlock (T_resize v i1 i2)
     | RETRY \<Rightarrow> T_unlock (T_enter v i1 i2)
     | SUCCESS \<Rightarrow> T_store v i1 i2 (res_table r, res_index r, res_slot r))"

text \<open>A step from a lock that is not free leaves the thread where it is.\<close>

fun tm_step :: "path_cell list option \<Rightarrow> cuckoo \<Rightarrow> tm_pc \<Rightarrow> cuckoo \<times> tm_pc" where
  "tm_step ch c (T_call x) =
     (case x of
        T_insert v \<Rightarrow>
          (c, case (TM_hash c v 1, TM_hash c v 2) of (Some i1, Some i2) \<Rightarrow> T_enter v i1 i2 | _ \<Rightarrow> T_fault)
      | _ \<Rightarrow>
          (if writer c then (c, T_call x)
           else (c\<lparr>readers := Suc (readers c)\<rparr>,
                 case (TM_hash c (tm_arg x) 1, TM_hash c (tm_arg x) 2) of
                   (Some i1, Some i2) \<Rightarrow> T_txn x i1 i2 | _ \<Rightarrow> T_fault)))"
| "tm_step ch c (T_enter v i1 i2) =
     (if writer c then (c, T_enter v i1 i2) else (c\<lparr>readers := Suc (readers c)\<rparr>, T_test v i1 i2))"
| "tm_step ch c (T_test v i1 i2) =
     (c, case TM_test c v i1 i2 of
           None \<Rightarrow> T_fault | Some None \<Rightarrow> T_search v i1 i2 | Some (Some r) \<Rightarrow> T_result v i1 i2 r)"
| "tm_step ch c (T_search v i1 i2) =
     (case ch of
        Some p \<Rightarrow> (c, T_path v i1 i2 (Some p))
      | None \<Rightarrow> (case TM_path c i1 i2 of None \<Rightarrow> (c, T_fault) | Some (p, c') \<Rightarrow> (c', T_path v i1 i2 p)))"
| "tm_step ch c (T_claim v i1 i2 x) =
     (c, case TM_claim c x of None \<Rightarrow> T_fault | Some r \<Rightarrow> T_result v i1 i2 r)"
| "tm_step ch c (T_move v i1 i2 x (to # from # rest)) =
     (case TM_displace c to from of
        None \<Rightarrow> (c, T_fault)
      | Some (False, c') \<Rightarrow> (c', T_unlock (T_enter v i1 i2))
      | Some (True, c') \<Rightarrow> (c', T_move v i1 i2 x (from # rest)))"
| "tm_step ch c (T_move v i1 i2 x [y]) = (c, T_store v i1 i2 x)"
| "tm_step ch c (T_store v i1 i2 (t, i, s)) =
     (case put_element c t i s v of None \<Rightarrow> (c, T_fault) | Some c' \<Rightarrow> (c', T_unlock (T_done True)))"
| "tm_step ch c (T_txn x i1 i2) =
     (case x of
        T_remove v \<Rightarrow> (case TM_remove_txn c v i1 i2 of
                          None \<Rightarrow> (c, T_fault) | Some (b, c') \<Rightarrow> (c', T_unlock (T_done b)))
      | T_contains v \<Rightarrow> (c, case TM_contains_txn c v i1 i2 of None \<Rightarrow> T_fault | Some b \<Rightarrow> T_unlock (T_done b))
      | _ \<Rightarrow> (c, T_fault))"
| "tm_step ch c (T_unlock q) = (c\<lparr>readers := readers c - 1\<rparr>, q)"
| "tm_step ch c (T_resize v i1 i2) = (c, T_grow (buckets c) v i1 i2)"
| "tm_step ch c (T_grow old v i1 i2) =
     (if writer c \<or> readers c \<noteq> 0 then (c, T_grow old v i1 i2)
      else case TM_resize old c of None \<Rightarrow> (c, T_fault) | Some c' \<Rightarrow> (c', T_enter v i1 i2))"
| "tm_step ch c q = (c, q)"

end
