(* ===== verification/TMCuckooInv.thy ===== *)
theory TMCuckooInv
  imports TMCuckoo SetObject
begin

text \<open>
  The transactional cuckoo table under threads: whatever the interleaving and whatever the searches
  see, every stored element stays in one of its two buckets as long as no thread resizes.  A call
  that runs alone and does not resize is the operation on the set of stored elements.
\<close>

subsection \<open>What the operations compute on well-shaped tables\<close>

lemma TM_hash_eq [simp]: "TM_hash = hash"
  by (simp add: fun_eq_iff TM_hash_def hash_def)

lemma TM_slots_eq:
  assumes "length bucket = TM_WIDTH" "n \<le> TM_WIDTH"
  shows "TM_slots p bucket n = Some (slot_loop p (int (TM_WIDTH - n)) (drop (TM_WIDTH - n) bucket))"
  using assms(2)
proof (induction n)
  case (Suc n)
  let ?i = "TM_WIDTH - Suc n"
  have i: "?i < length bucket" "int TM_WIDTH - int (Suc n) = int ?i" "TM_WIDTH - n = Suc ?i"
    using Suc.prems assms(1) by auto
  have "drop ?i bucket = bucket ! ?i # drop (TM_WIDTH - n) bucket"
    using i(1,3) by (simp add: Cons_nth_drop_Suc)
  moreover have "int (TM_WIDTH - n) = int ?i + 1" using i(3) by simp
  moreover have "at bucket (int ?i) = Some (bucket ! ?i)" using i(1) by (simp add: at_def)
  ultimately show ?case using Suc by (simp only: TM_slots.simps i(2)) simp
qed (use assms(1) in simp)

lemma TM_rows [exec_simps]:
  assumes "tm_shaped c" "in_range i (capacity c)"
  shows "TM_find (table_of c t) v i = Some (v \<in> set (table_of c t ! nat i))"
    and "TM_findSlot (table_of c t) v i = Some (slot_of c t (\<lambda>x. x = v) i)"
    and "TM_isAvailable (table_of c t) i = Some (slot_of c t (\<lambda>x. \<not> occupied x) i)"
proof -
  have row: "length (table_of c t ! nat i) = TM_WIDTH" by (rule tm_tables.row_length [OF assms])
  have s: "TM_slots p (table_of c t ! nat i) TM_WIDTH = Some (slot_of c t p i)" for p
    using TM_slots_eq [OF row order_refl, of p] by (simp add: slot_of_def)
  show "TM_find (table_of c t) v i = Some (v \<in> set (table_of c t ! nat i))"
    using assms by (auto simp: TM_find_def exec_simps s slot_of_missing)
  show "TM_findSlot (table_of c t) v i = Some (slot_of c t (\<lambda>x. x = v) i)"
    and "TM_isAvailable (table_of c t) i = Some (slot_of c t (\<lambda>x. \<not> occupied x) i)"
    using assms by (simp_all add: TM_findSlot_def TM_isAvailable_def exec_simps s)
qed

lemma TM_displace_eq:
  assumes "tm_shaped c" "tm_cell_ok c to" "tm_cell_ok c from"
  shows "TM_displace c to from =
    Some (if movable c to from then (True, move_cell c to from) else (False, c))"
proof -
  obtain tt ti ts where t: "to = (tt, ti, ts)" by (cases to)
  obtain ft fi fs where f: "from = (ft, fi, fs)" by (cases "from")
  have r: "in_range ti (capacity c)" "in_range ts TM_WIDTH" "ft \<in> {1, 2}"
    "in_range fi (capacity c)" "in_range fs TM_WIDTH"
    using assms(2,3) by (auto simp: t f cell_ok_w_def)
  have h: "hash c v (other ft) = Some (home c (other ft) v)" for v
    using assms(1) other_in [of ft] by (subst tm_tables.hash_home) simp_all
  show ?thesis
    using assms(1) r by (auto simp: TM_displace_def movable_def move_cell_def t f exec_simps h)
qed

lemma TM_follow_path_eq: "TM_follow_path c t i ss = follow_path c t i ss"
  by (induction ss arbitrary: t i) (simp_all cong: if_cong)

definition start_cell :: "cuckoo \<Rightarrow> int \<Rightarrow> int \<Rightarrow> path_cell \<Rightarrow> bool" where
  "start_cell c i1 i2 x \<longleftrightarrow> tm_cell_ok c x \<and> (fst x, fst (snd x)) \<in> {(1, i1), (2, i2)}"

definition path_ok :: "cuckoo \<Rightarrow> int \<Rightarrow> int \<Rightarrow> path_cell list \<Rightarrow> bool" where
  "path_ok c i1 i2 p \<longleftrightarrow> p \<noteq> [] \<and> start_cell c i1 i2 (hd p) \<and> list_all (tm_cell_ok c) p"

lemma TM_decode_range: "TM_decode_slots n pc acc = (ss, r) \<Longrightarrow> \<forall>s\<in>set acc. in_range s TM_WIDTH \<Longrightarrow>
   (\<forall>s\<in>set ss. in_range s TM_WIDTH) \<and> length ss = n + length acc"
proof (induction n arbitrary: pc acc)
  case (Suc n)
  have d: "TM_decode_slots n (pc div int TM_WIDTH) (pc mod int TM_WIDTH # acc) = (ss, r)"
    using Suc.prems(1) by simp
  have "\<forall>s\<in>set (pc mod int TM_WIDTH # acc). in_range s TM_WIDTH"
    using Suc.prems(2) by (simp add: TM_WIDTH_def)
  from Suc.IH [OF d this] show ?case by simp
qed simp

lemma path_ok_rng [simp]: "path_ok (c\<lparr>rng_state := r\<rparr>) i1 i2 p = path_ok c i1 i2 p"
  by (simp add: path_ok_def start_cell_def cell_ok_w_def)

lemma TM_path_ok:
  assumes sh: "tm_shaped c" and i: "in_range i1 (capacity c)" "in_range i2 (capacity c)"
    and "TM_path c i1 i2 = Some (p, c')"
  shows "(\<exists>r. c' = c\<lparr>rng_state := r\<rparr>) \<and> (\<forall>cs. p = Some cs \<longrightarrow> path_ok c i1 i2 cs)"
proof -
  obtain pt r where s: "TM_search_loop c [Point 1 i1 0 0, Point 2 i2 1 0] [] (rng_state c) = Some (pt, r)"
    and c': "c' = c\<lparr>rng_state := r\<rparr>"
    using assms(4) by (auto simp: TM_path_def TM_search_def split: if_splits)
  show ?thesis
  proof (cases p)
    case (Some cs)
    with assms(4) s c' obtain ss rest where d: "TM_decode_path pt = Some (ss, rest)"
      and f: "(if rest = 0 then follow_path c 1 i1 ss else follow_path c 2 i2 ss) = Some cs"
      by (auto simp: TM_path_def TM_search_def TM_follow_path_eq split: if_splits)
    then obtain n where "TM_decode_slots (Suc n) (pt_pathcode pt) [] = (ss, rest)"
      by (auto simp: TM_decode_path_def nat_add_distrib split: if_splits)
    from TM_decode_range [OF this] have ss: "\<forall>s\<in>set ss. in_range s TM_WIDTH" "ss \<noteq> []" by auto
    define t k where "t = (if rest = 0 then 1 else 2 :: int)" and "k = (if rest = 0 then i1 else i2)"
    have tk: "t \<in> {1, 2}" "in_range k (capacity c)" "(t, k) \<in> {(1, i1), (2, i2)}"
      using i by (auto simp: t_def k_def)
    have "follow_path c t k ss = Some cs" using f by (simp add: t_def k_def split: if_splits)
    with tm_tables.follow_path_ok [OF sh tk(1,2) ss(2,1)] tk(3) have "path_ok c i1 i2 cs"
      by (auto simp: path_ok_def start_cell_def list_all_iff)
    with Some c' show ?thesis by (intro conjI exI [of _ r]) auto
  qed (use c' in \<open>intro conjI exI [of _ r], auto\<close>)
qed

subsection \<open>Placement under every interleaving\<close>

abbreviation homes :: "cuckoo \<Rightarrow> u32 \<Rightarrow> int \<Rightarrow> int \<Rightarrow> bool" where
  "homes c v i1 i2 \<equiv> i1 = home c 1 v \<and> i2 = home c 2 v"

fun tm_pc_ok :: "cuckoo \<Rightarrow> tm_pc \<Rightarrow> bool" where
  "tm_pc_ok c (T_enter v i1 i2) \<longleftrightarrow> homes c v i1 i2"
| "tm_pc_ok c (T_test v i1 i2) \<longleftrightarrow> homes c v i1 i2"
| "tm_pc_ok c (T_search v i1 i2) \<longleftrightarrow> homes c v i1 i2"
| "tm_pc_ok c (T_claim v i1 i2 x) \<longleftrightarrow> homes c v i1 i2 \<and> start_cell c i1 i2 x"
| "tm_pc_ok c (T_move v i1 i2 x cs) \<longleftrightarrow> homes c v i1 i2 \<and> start_cell c i1 i2 x
     \<and> cs \<noteq> [] \<and> list_all (tm_cell_ok c) cs \<and> List.last cs = x"
| "tm_pc_ok c (T_store v i1 i2 x) \<longleftrightarrow> homes c v i1 i2 \<and> start_cell c i1 i2 x"
| "tm_pc_ok c (T_txn x i1 i2) \<longleftrightarrow> homes c (tm_arg x) i1 i2"
| "tm_pc_ok c (T_unlock q) \<longleftrightarrow> tm_pc_ok c q"
| "tm_pc_ok c (T_resize v i1 i2) \<longleftrightarrow> homes c v i1 i2"
| "tm_pc_ok c (T_grow old v i1 i2) \<longleftrightarrow> homes c v i1 i2"
| "tm_pc_ok c _ \<longleftrightarrow> True"

lemma tm_pc_ok_cong: "buckets c' = buckets c \<Longrightarrow> tm_pc_ok c' q = tm_pc_ok c q"
proof (induction q)
  case (T_unlock q)
  then show ?case by simp
qed (simp_all add: home_cong [of c' c] start_cell_def cell_ok_w_def capacity_def)

lemma T_path_ok: "homes c v i1 i2 \<Longrightarrow> path_ok c i1 i2 p \<Longrightarrow> tm_pc_ok c (T_path v i1 i2 (Some p))"
  by (cases p rule: list.exhaust [case_product list.exhaust [of "tl p"]])
     (auto simp: path_ok_def neq_Nil_conv list_all_iff)

lemma TM_test_ok:
  assumes "tm_shaped c"
  shows "TM_test c v (home c 1 v) (home c 2 v) = Some (
    if v \<in> set (table_of c 1 ! nat (home c 1 v)) \<or> v \<in> set (table_of c 2 ! nat (home c 2 v))
    then Some (Result DUPLICATE 0 0 0)
    else if free_slot c 1 (home c 1 v) \<noteq> -1 then Some (Result SUCCESS 1 (home c 1 v) (free_slot c 1 (home c 1 v)))
    else if free_slot c 2 (home c 2 v) \<noteq> -1 then Some (Result SUCCESS 2 (home c 2 v) (free_slot c 2 (home c 2 v)))
    else None)"
  using assms by (auto simp: TM_test_def table_of_12 exec_simps)

lemma free_slot_cell:
  assumes "tm_shaped c" "free_slot c t (home c t v) \<noteq> -1" "t \<in> {1, 2}"
  shows "start_cell c (home c 1 v) (home c 2 v) (t, home c t v, free_slot c t (home c t v))"
    and "free_cell c (t, home c t v, free_slot c t (home c t v))"
  using assms tm_tables.slot_of_found [OF assms(1) _ assms(2)]
  by (auto simp: start_cell_def cell_ok_w_def free_cell_def occupied_def)

lemma TM_remove_txn_ok:
  assumes "tm_shaped c"
  shows "TM_remove_txn c v (home c 1 v) (home c 2 v) = Some (
    if v \<in> set (table_of c 1 ! nat (home c 1 v)) \<or> v \<in> set (table_of c 2 ! nat (home c 2 v))
    then (True, put c (match_table c v) (home c (match_table c v) v) (match_slot c v) EMPTY)
    else (False, c))"
    and "v \<in> set (table_of c 1 ! nat (home c 1 v)) \<or> v \<in> set (table_of c 2 ! nat (home c 2 v)) \<Longrightarrow>
      in_range (match_slot c v) TM_WIDTH
      \<and> cell c (match_table c v) (home c (match_table c v) v) (match_slot c v) = v"
proof -
  let ?s = "\<lambda>t. slot_of c t (\<lambda>x. x = v) (home c t v)"
  have miss: "?s t = -1 \<longleftrightarrow> v \<notin> set (table_of c t ! nat (home c t v))" for t
    by (auto simp: slot_of_missing)
  have found: "?s t \<noteq> -1 \<Longrightarrow> in_range (?s t) TM_WIDTH \<and> cell c t (home c t v) (?s t) = v" for t
    using tm_tables.slot_of_found [of c "home c t v" t "\<lambda>x. x = v"] assms by auto
  show "in_range (match_slot c v) TM_WIDTH
      \<and> cell c (match_table c v) (home c (match_table c v) v) (match_slot c v) = v"
    if "v \<in> set (table_of c 1 ! nat (home c 1 v)) \<or> v \<in> set (table_of c 2 ! nat (home c 2 v))"
    using that found [of 1] found [of 2] miss by (auto simp: match_slot_def match_table_def)
  show "TM_remove_txn c v (home c 1 v) (home c 2 v) = Some (
    if v \<in> set (table_of c 1 ! nat (home c 1 v)) \<or> v \<in> set (table_of c 2 ! nat (home c 2 v))
    then (True, put c (match_table c v) (home c (match_table c v) v) (match_slot c v) EMPTY)
    else (False, c))"
    using assms miss [of 1] miss [of 2] found [of 1] found [of 2]
    by (cases "?s 1 = -1"; cases "?s 2 = -1")
       (auto simp: TM_remove_txn_def table_of_12 exec_simps match_slot_def match_table_def)
qed

lemma homes_range: "tm_shaped c \<Longrightarrow> homes c v i1 i2 \<Longrightarrow> in_range i1 (capacity c) \<and> in_range i2 (capacity c)"
  by simp

lemma T_result_ok:
  "homes c v i1 i2 \<Longrightarrow> (res_status r = SUCCESS \<Longrightarrow> start_cell c i1 i2 (res_table r, res_index r, res_slot r)) \<Longrightarrow>
   tm_pc_ok c (T_result v i1 i2 r)"
  by (cases "res_status r") (simp_all add: T_result_def)

lemma tm_wf_remove:
  assumes "tm_wf c"
  shows "\<exists>b c'. TM_remove_txn c v (home c 1 v) (home c 2 v) = Some (b, c') \<and> tm_wf c' \<and> buckets c' = buckets c
     \<and> writer c' = writer c \<and> (v \<noteq> EMPTY \<longrightarrow> b = (v \<in># contents c) \<and> contents c' = contents c - {#v#})"
proof -
  note sh = table_wf_D(1) [OF assms]
  let ?in = "v \<in> set (table_of c 1 ! nat (home c 1 v)) \<or> v \<in> set (table_of c 2 ! nat (home c 2 v))"
  let ?t = "match_table c v" and ?j = "match_slot c v"
  have iff: "v \<noteq> EMPTY \<Longrightarrow> ?in = (v \<in># contents c)"
    using tm_tables.in_contents_home [OF assms] by (simp add: table_of_12)
  have t: "?t \<in> {1, 2}" by (simp add: match_table_def)
  show ?thesis
  proof (cases ?in)
    case True
    note m = TM_remove_txn_ok(2) [OF sh True]
    have "tm_wf (put c ?t (home c ?t v) ?j EMPTY)"
      using assms sh t m by (intro tm_tables.table_wf_put) auto
    moreover have "v \<noteq> EMPTY \<Longrightarrow> contents (put c ?t (home c ?t v) ?j EMPTY) = contents c - {#v#}"
      using tm_tables.contents_clear [of c ?t "home c ?t v" ?j] sh t m by simp
    ultimately show ?thesis using TM_remove_txn_ok(1) [OF sh, of v] True iff by (intro exI [of _ True]) auto
  next
    case False
    then show ?thesis using TM_remove_txn_ok(1) [OF sh, of v] assms iff
      by (intro exI [of _ False]) (auto simp: diff_single_trivial)
  qed
qed

text \<open>A step without a resize, by a thread whose variables fit, keeps the placement and the fit.\<close>

definition keeps :: "cuckoo \<Rightarrow> cuckoo \<Rightarrow> tm_pc \<Rightarrow> bool" where
  "keeps c c' q \<longleftrightarrow> tm_wf c' \<and> buckets c' = buckets c \<and> writer c' = writer c \<and> tm_pc_ok c' q"

lemma keeps_same [simp]: "keeps c c q \<longleftrightarrow> tm_wf c \<and> tm_pc_ok c q"
  by (simp add: keeps_def)

lemma keepsI: "tm_wf c' \<Longrightarrow> buckets c' = buckets c \<Longrightarrow> writer c' = writer c \<Longrightarrow> tm_pc_ok c q \<Longrightarrow> keeps c c' q"
  using tm_pc_ok_cong [of c' c] by (simp add: keeps_def)

lemma keeps_call:
  assumes "tm_wf c" "tm_step ch c (T_call x) = (c', q')"
  shows "keeps c c' q'"
proof -
  have h: "hash c v 1 = Some (home c 1 v)" "hash c v 2 = Some (home c 2 v)" for v
    using table_wf_D(1) [OF assms(1)] by (simp_all add: tm_tables.hash_home)
  show ?thesis using assms by (cases x) (auto simp: h intro!: keepsI split: if_splits)
qed

lemma keeps_search:
  assumes "tm_wf c" "homes c v i1 i2" "tm_step ch c (T_search v i1 i2) = (c', q')"
    and "\<And>p. ch = Some p \<Longrightarrow> path_ok c i1 i2 p"
  shows "keeps c c' q'"
proof (cases ch)
  case None
  note sh = table_wf_D(1) [OF assms(1)]
  show ?thesis
  proof (cases "TM_path c i1 i2")
    case N: None
    with assms None show ?thesis by simp
  next
    case (Some a)
    then obtain p c1 where p: "TM_path c i1 i2 = Some (p, c1)" by (cases a) auto
    from TM_path_ok [OF sh _ _ p] homes_range [OF sh assms(2)] obtain r
      where r: "c1 = c\<lparr>rng_state := r\<rparr>" "\<And>cs. p = Some cs \<Longrightarrow> path_ok c i1 i2 cs" by auto
    have "tm_pc_ok c (T_path v i1 i2 p)"
      using T_path_ok [OF assms(2)] r(2) assms(2) by (cases p) auto
    with assms(1,3) None p r(1) show ?thesis by (auto intro!: keepsI)
  qed
next
  case (Some p)
  with assms T_path_ok show ?thesis by auto
qed

lemma keeps_move:
  assumes "tm_wf c" "tm_pc_ok c (T_move v i1 i2 x cs)" "tm_step ch c (T_move v i1 i2 x cs) = (c', q')"
  shows "keeps c c' q'"
proof (cases cs rule: list.exhaust [case_product list.exhaust [of "tl cs"]])
  case (Cons_Cons to cs' from' rest)
  then obtain f rs where cs: "cs = to # f # rs" by (cases "tl cs") auto
  have ok: "tm_cell_ok c to" "tm_cell_ok c f" using assms(2) by (auto simp: cs)
  note d = TM_displace_eq [OF table_wf_D(1) [OF assms(1)] ok]
  show ?thesis
  proof (cases "movable c to f")
    case True
    note k = tm_tables.move_cell_keeps(1) [OF table_wf_D(1) [OF assms(1)] ok True]
    have "tm_wf (move_cell c to f)" "buckets (move_cell c to f) = buckets c"
      "writer (move_cell c to f) = writer c"
      using k assms(1) by (auto simp: same_elements_w_def table_wf_w_def)
    with assms(2,3) d True show ?thesis by (auto simp: cs intro!: keepsI)
  next
    case False
    with assms d show ?thesis by (auto simp: cs)
  qed
next
  case (Cons_Nil to cs')
  then obtain y where "cs = [y]" by (cases cs) auto
  with assms show ?thesis by auto
qed (use assms in auto)

lemma keeps_store:
  assumes "tm_wf c" "homes c v i1 i2" "start_cell c i1 i2 x" "tm_step ch c (T_store v i1 i2 x) = (c', q')"
  shows "keeps c c' q'"
proof -
  obtain t i s where x: "x = (t, i, s)" by (cases x)
  have r: "t \<in> {1, 2}" "in_range i (capacity c)" "in_range s TM_WIDTH" "home c t v = i"
    using assms(2,3) by (auto simp: start_cell_def x cell_ok_w_def)
  have "put_element c t i s v = Some (put c t i s v)"
    using r table_wf_D(1) [OF assms(1)] by (simp add: exec_simps)
  moreover have "tm_wf (put c t i s v)"
    using assms(1) r by (intro tm_tables.table_wf_put) auto
  ultimately show ?thesis using assms(4) by (auto simp: x intro!: keepsI)
qed

lemma tm_step_keeps:
  assumes wf: "tm_wf c" and ok: "tm_pc_ok c q" and st: "tm_step ch c q = (c', q')"
    and "\<And>old v i1 i2. q \<noteq> T_grow old v i1 i2"
    and ch: "\<And>v i1 i2 p. q = T_search v i1 i2 \<Longrightarrow> ch = Some p \<Longrightarrow> path_ok c i1 i2 p"
  shows "keeps c c' q'"
proof -
  note sh = table_wf_D(1) [OF wf]
  show ?thesis
  proof (cases q)
    case (T_call x)
    with keeps_call [OF wf] st show ?thesis by simp
  next
    case (T_test v i1 i2)
    with ok st wf TM_test_ok [OF sh, of v] free_slot_cell [OF sh, of _ v] show ?thesis
      by (auto intro!: T_result_ok split: if_splits)
  next
    case (T_search v i1 i2)
    with keeps_search [OF wf _ _ ch] ok st show ?thesis by simp
  next
    case (T_claim v i1 i2 x)
    obtain t i s where x: "x = (t, i, s)" by (cases x)
    with T_claim ok have "TM_claim c x = Some (if cell c t i s = EMPTY then Result SUCCESS t i s else Result RETRY 0 0 0)"
      using sh by (auto simp: TM_claim_def start_cell_def cell_ok_w_def exec_simps)
    with T_claim ok st wf x show ?thesis by (auto intro!: T_result_ok)
  next
    case (T_move v i1 i2 x cs)
    show ?thesis by (rule keeps_move [OF wf ok [unfolded T_move] st [unfolded T_move]])
  next
    case (T_store v i1 i2 x)
    with ok have "homes c v i1 i2" "start_cell c i1 i2 x" by auto
    then show ?thesis by (rule keeps_store [OF wf _ _ st [unfolded T_store]])
  next
    case (T_txn x i1 i2)
    show ?thesis
    proof (cases x)
      case (T_remove v)
      obtain b d where "TM_remove_txn c v (home c 1 v) (home c 2 v) = Some (b, d)" "tm_wf d" "buckets d = buckets c"
        "writer d = writer c"
        using tm_wf_remove [OF wf, of v] by blast
      with T_remove T_txn ok st show ?thesis by (auto intro!: keepsI)
    qed (use T_txn ok st wf in \<open>auto split: option.splits\<close>)
  next
    case (T_unlock p)
    with ok st wf show ?thesis by (auto intro!: keepsI)
  next
    case (T_enter v i1 i2)
    with ok st wf show ?thesis by (auto intro!: keepsI split: if_splits)
  qed (use assms in auto)
qed

subsection \<open>Threads\<close>

record tms =
  tm_state :: cuckoo
  tm_pcs :: "nat \<Rightarrow> tm_pc"
  tm_answers :: "(nat \<times> tm_op \<times> bool) list"
  tm_ops :: "nat \<Rightarrow> tm_op"

definition tms_new :: "u32 \<Rightarrow> rng \<Rightarrow> tms" where
  "tms_new n r = \<lparr>tm_state = TM_Cuckoo_new n r, tm_pcs = (\<lambda>_. T_idle), tm_answers = [], tm_ops = (\<lambda>_. T_contains 0)\<rparr>"

datatype tm_event = T_invoke nat tm_op | T_turn nat "path_cell list option" | T_growth nat

text \<open>A resize is an event of its own; a path that a search cannot come back with is no event.\<close>

definition tm_turn :: "tms \<Rightarrow> nat \<Rightarrow> path_cell list option \<Rightarrow> tms" where
  "tm_turn s t ch = (case tm_step ch (tm_state s) (tm_pcs s t) of
     (c, q) \<Rightarrow> s\<lparr>tm_state := c, tm_pcs := (tm_pcs s)(t := q)\<rparr>)"

fun tm_next :: "tms \<Rightarrow> tm_event \<Rightarrow> tms" where
  "tm_next s (T_invoke t x) =
     (if tm_pcs s t = T_idle
      then s\<lparr>tm_pcs := (tm_pcs s)(t := T_call x), tm_ops := (tm_ops s)(t := x)\<rparr> else s)"
| "tm_next s (T_turn t ch) =
     (case tm_pcs s t of
        T_grow old v i1 i2 \<Rightarrow> s
      | T_done b \<Rightarrow> s\<lparr>tm_pcs := (tm_pcs s)(t := T_idle), tm_answers := (t, tm_ops s t, b) # tm_answers s\<rparr>
      | T_search v i1 i2 \<Rightarrow>
          (case ch of None \<Rightarrow> tm_turn s t None
           | Some p \<Rightarrow> if path_ok (tm_state s) i1 i2 p then tm_turn s t ch else s)
      | _ \<Rightarrow> tm_turn s t ch)"
| "tm_next s (T_growth t) =
     (case tm_pcs s t of T_grow old v i1 i2 \<Rightarrow> tm_turn s t None | _ \<Rightarrow> s)"

definition tm_exec :: "tms \<Rightarrow> tm_event list \<Rightarrow> tms" where
  "tm_exec = foldl tm_next"

fun no_growth :: "tm_event \<Rightarrow> bool" where
  "no_growth (T_growth t) \<longleftrightarrow> False"
| "no_growth e \<longleftrightarrow> True"

definition tm_inv :: "u32 \<Rightarrow> tms \<Rightarrow> bool" where
  "tm_inv n s \<longleftrightarrow> tm_wf (tm_state s) \<and> buckets (tm_state s) = n \<and> (\<forall>t. tm_pc_ok (tm_state s) (tm_pcs s t))"

lemma tm_turn_inv:
  assumes "tm_inv n s" "\<And>old v i1 i2. tm_pcs s t \<noteq> T_grow old v i1 i2"
    and "\<And>v i1 i2 p. tm_pcs s t = T_search v i1 i2 \<Longrightarrow> ch = Some p \<Longrightarrow> path_ok (tm_state s) i1 i2 p"
  shows "tm_inv n (tm_turn s t ch)"
proof -
  obtain c q where st: "tm_step ch (tm_state s) (tm_pcs s t) = (c, q)" by (meson surj_pair)
  have k: "keeps (tm_state s) c q"
    using assms by (intro tm_step_keeps [OF _ _ st]) (auto simp: tm_inv_def)
  with assms(1) tm_pc_ok_cong [of c "tm_state s"] show ?thesis
    by (auto simp: tm_inv_def tm_turn_def st keeps_def)
qed

lemma tm_next_inv: "tm_inv n s \<Longrightarrow> no_growth e \<Longrightarrow> tm_inv n (tm_next s e)"
proof (cases e)
  case (T_turn t ch)
  assume inv: "tm_inv n s"
  show ?thesis
  proof (cases "tm_pcs s t")
    case (T_search v i1 i2)
    with T_turn inv tm_turn_inv [OF inv, of t ch] show ?thesis by (auto split: option.split)
  next
    case (T_done b)
    with T_turn inv show ?thesis by (auto simp: tm_inv_def)
  qed (use T_turn inv tm_turn_inv [OF inv, of t ch] in auto)
qed (auto simp: tm_inv_def)

lemma tm_exec_inv: "tm_inv n s \<Longrightarrow> list_all no_growth es \<Longrightarrow> tm_inv n (tm_exec s es)"
  by (induction es arbitrary: s) (auto simp: tm_exec_def tm_next_inv)

lemma tm_new_wf:
  assumes "0 < unat n" "unat n < 2 ^ 31"
  shows "tm_wf (TM_Cuckoo_new n r)" "contents (TM_Cuckoo_new n r) = {#}"
proof -
  let ?c = "TM_Cuckoo_new n r"
  have sh: "tm_shaped ?c" using assms by (simp add: shaped_w_def capacity_def TM_Cuckoo_new_def TM_Table_new_def)
  have "cell ?c t i j = EMPTY" if "in_range i (capacity ?c)" "in_range j TM_WIDTH" for t i j
    using that by (auto simp: cell_def table_of_def TM_Cuckoo_new_def TM_Table_new_def capacity_def nat_less_iff)
  with sh show "tm_wf ?c" by (simp add: table_wf_w_def placed_w_def)
  show "contents ?c = {#}" by (simp add: contents_def TM_Cuckoo_new_def TM_Table_new_def EMPTY_def)
qed

lemma tms_new_inv: "0 < unat n \<Longrightarrow> unat n < 2 ^ 31 \<Longrightarrow> tm_inv n (tms_new n r)"
  using tm_new_wf(1) [of n r] by (simp add: tm_inv_def tms_new_def) (simp add: TM_Cuckoo_new_def)

subsection \<open>Size\<close>

lemma TM_size_slots_eq:
  assumes "tm_shaped c" "i < capacity c" "n \<le> TM_WIDTH"
  shows "TM_size_slots c (int i) n k =
    Some (size_row (drop (TM_WIDTH - n) (table1 c ! i)) (drop (TM_WIDTH - n) (table2 c ! i)) k)"
  using assms(3)
proof (induction n arbitrary: k)
  case 0
  have "length (table1 c ! i) = TM_WIDTH" "length (table2 c ! i) = TM_WIDTH"
    using assms by (auto simp: shaped_w_def rect_def)
  then show ?case by simp
next
  case (Suc n)
  let ?j = "TM_WIDTH - Suc n"
  have len: "length (table1 c ! i) = TM_WIDTH" "length (table2 c ! i) = TM_WIDTH"
    using assms by (auto simp: shaped_w_def rect_def)
  have j: "?j < TM_WIDTH" "int TM_WIDTH - int (Suc n) = int ?j" "TM_WIDTH - n = Suc ?j" using Suc.prems by auto
  have drops: "drop ?j (table1 c ! i) = table1 c ! i ! ?j # drop (TM_WIDTH - n) (table1 c ! i)"
    "drop ?j (table2 c ! i) = table2 c ! i ! ?j # drop (TM_WIDTH - n) (table2 c ! i)"
    using j(1,3) len by (simp_all add: Cons_nth_drop_Suc)
  have "Table_isOccupied (table_of c t) (int i) (int ?j) = Some (table_of c t ! i ! ?j \<noteq> EMPTY)" for t
    using assms(1,2) j(1) by (simp add: exec_simps cell_def)
  then have o: "Table_isOccupied (table1 c) (int i) (int ?j) = Some (occupied (table1 c ! i ! ?j))"
    "Table_isOccupied (table2 c) (int i) (int ?j) = Some (occupied (table2 c ! i ! ?j))"
    by (simp_all add: table_of_12 occupied_def)
  show ?case using Suc by (simp only: TM_size_slots.simps j(2) o drops) (simp add: add.assoc)
qed

lemma size_rows_foldl:
  "length as = length bs \<Longrightarrow> size_rows as bs k = foldl (\<lambda>k i. size_row (as ! i) (bs ! i) k) k [0..<length as]"
proof (induction as bs arbitrary: k rule: list_induct2)
  case (Cons a as b bs)
  have "foldl (\<lambda>k i. size_row ((a # as) ! i) ((b # bs) ! i) k) k [0..<length (a # as)] =
      foldl (\<lambda>k i. size_row ((a # as) ! i) ((b # bs) ! i) k) (size_row a b k) (map Suc [0..<length as])"
    by (simp only: map_Suc_upt upt_conv_Cons length_Cons foldl.simps nth_Cons_0 zero_less_Suc)
  also have "\<dots> = foldl (\<lambda>k i. size_row (as ! i) (bs ! i) k) (size_row a b k) [0..<length as]"
    by (simp add: foldl_map)
  finally show ?case using Cons.IH by simp
qed simp

lemma TM_size_eq:
  assumes "tm_shaped c"
  shows "TM_size c = Some (int (size (contents c)))"
proof -
  have "TM_size_rows c (map int is) k = Some (foldl (\<lambda>k i. size_row (table1 c ! i) (table2 c ! i) k) k is)"
    if "\<forall>i\<in>set is. i < capacity c" for "is" k
    using that by (induction "is" arbitrary: k) (simp_all add: TM_size_slots_eq [OF assms])
  moreover have "length (table1 c) = capacity c" "length (table2 c) = capacity c"
    using assms by (auto simp: shaped_w_def rect_def)
  ultimately show ?thesis
    by (simp add: TM_size_def capacity_def [symmetric] size_correct [OF assms, symmetric] Cuckoo_size_def size_rows_foldl)
qed

end
