(* ===== verification/TMCuckooCorrect.thy ===== *)
theory TMCuckooCorrect
  imports TMCuckooInv
begin

text \<open>
  The properties of the transactional cuckoo table: placement under every interleaving, the set
  operations when a call runs alone, the range of path codes, and the insertion that a concurrent
  one overwrites because the element is stored after the transaction that chose its slot.
\<close>

subsection \<open>Calls that run alone\<close>

text \<open>The steps of one thread, up to a resize when \<open>grows\<close> is false.\<close>

fun tm_run :: "bool \<Rightarrow> nat \<Rightarrow> cuckoo \<Rightarrow> tm_pc \<Rightarrow> (bool \<times> cuckoo) outcome" where
  "tm_run grows 0 c q = No_fuel"
| "tm_run grows (Suc n) c q =
     (case q of
        T_done b \<Rightarrow> Done (b, c)
      | T_fault \<Rightarrow> Fault
      | T_grow old v i1 i2 \<Rightarrow>
          if grows then (case tm_step None c q of (c', q') \<Rightarrow> tm_run grows n c' q') else No_fuel
      | _ \<Rightarrow> (case tm_step None c q of (c', q') \<Rightarrow> tm_run grows n c' q'))"

definition TM_insert :: "nat \<Rightarrow> cuckoo \<Rightarrow> u32 \<Rightarrow> (bool \<times> cuckoo) outcome" where
  "TM_insert fuel c v = tm_run True fuel c (T_call (T_insert v))"

definition TM_remove :: "cuckoo \<Rightarrow> u32 \<Rightarrow> (bool \<times> cuckoo) outcome" where
  "TM_remove c v = tm_run True 4 c (T_call (T_remove v))"

definition TM_contains :: "cuckoo \<Rightarrow> u32 \<Rightarrow> (bool \<times> cuckoo) outcome" where
  "TM_contains c v = tm_run True 4 c (T_call (T_contains v))"

text \<open>What holds while an insertion of \<open>v\<close> into a table with the elements \<open>S\<close> runs alone.\<close>

fun lone_pc :: "u32 \<Rightarrow> u32 multiset \<Rightarrow> cuckoo \<Rightarrow> tm_pc \<Rightarrow> bool" where
  "lone_pc v S c (T_call x) \<longleftrightarrow> x = T_insert v \<and> contents c = S"
| "lone_pc v S c (T_enter u i1 i2) \<longleftrightarrow> u = v \<and> contents c = S"
| "lone_pc v S c (T_test u i1 i2) \<longleftrightarrow> u = v \<and> contents c = S"
| "lone_pc v S c (T_search u i1 i2) \<longleftrightarrow> u = v \<and> contents c = S \<and> v \<notin># S"
| "lone_pc v S c (T_claim u i1 i2 x) \<longleftrightarrow> u = v \<and> contents c = S \<and> v \<notin># S"
| "lone_pc v S c (T_move u i1 i2 x cs) \<longleftrightarrow> u = v \<and> contents c = S \<and> v \<notin># S
     \<and> (tl cs = [] \<longrightarrow> free_cell c (hd cs))"
| "lone_pc v S c (T_store u i1 i2 x) \<longleftrightarrow> u = v \<and> contents c = S \<and> v \<notin># S \<and> free_cell c x"
| "lone_pc v S c (T_unlock q) \<longleftrightarrow> lone_pc v S c q"
| "lone_pc v S c (T_resize u i1 i2) \<longleftrightarrow> u = v \<and> contents c = S"
| "lone_pc v S c (T_grow old u i1 i2) \<longleftrightarrow> u = v \<and> contents c = S"
| "lone_pc v S c (T_done b) \<longleftrightarrow> b = (v \<notin># S) \<and> contents c = (if b then add_mset v S else S)"
| "lone_pc v S c T_fault \<longleftrightarrow> True"
| "lone_pc v S c q \<longleftrightarrow> False"

definition lone :: "u32 \<Rightarrow> u32 multiset \<Rightarrow> cuckoo \<Rightarrow> tm_pc \<Rightarrow> bool" where
  "lone v S c q \<longleftrightarrow> tm_wf c \<and> \<not> writer c \<and> tm_pc_ok c q \<and> lone_pc v S c q"

lemma lone_test:
  assumes "tm_wf c" "v \<noteq> EMPTY" "homes c v i1 i2" "contents c = S" "tm_step None c (T_test v i1 i2) = (c', q')"
  shows "lone_pc v S c' q'"
proof -
  note sh = table_wf_D(1) [OF assms(1)]
  have iff: "v \<in># S \<longleftrightarrow> v \<in> set (table_of c 1 ! nat (home c 1 v)) \<or> v \<in> set (table_of c 2 ! nat (home c 2 v))"
    using tm_tables.in_contents_home [OF assms(1,2)] assms(4) by (simp add: table_of_12)
  show ?thesis
    using assms(3-5) TM_test_ok [OF sh, of v] iff free_slot_cell(2) [OF sh, of _ v]
    by (auto simp: T_result_def split: if_splits)
qed

lemma tl_snoc2: "tl (zs @ [y, x]) \<noteq> []"
  by (cases zs) auto

lemma lone_path: "v \<notin># contents c \<Longrightarrow> (\<And>p. op = Some p \<Longrightarrow> p \<noteq> []) \<Longrightarrow> lone_pc v (contents c) c (T_path v i1 i2 op)"
  by (cases op; cases "the op"; cases "tl (the op)") (auto simp: tl_snoc2)

lemma lone_search:
  assumes "tm_wf c" "homes c v i1 i2" "v \<notin># contents c" "tm_step None c (T_search v i1 i2) = (c', q')"
  shows "lone_pc v (contents c) c' q'"
proof (cases "TM_path c i1 i2")
  case None
  with assms show ?thesis by simp
next
  case (Some a)
  then obtain p c1 where p: "TM_path c i1 i2 = Some (p, c1)" by (cases a) auto
  note sh = table_wf_D(1) [OF assms(1)]
  from TM_path_ok [OF sh _ _ p] homes_range [OF sh assms(2)] obtain r
    where r: "c1 = c\<lparr>rng_state := r\<rparr>" "\<And>cs. p = Some cs \<Longrightarrow> cs \<noteq> []" by (auto simp: path_ok_def)
  have "contents c1 = contents c" using r(1) by simp
  with lone_path [of v c1 p i1 i2] assms(3,4) p r(2) show ?thesis by auto
qed

lemma lone_move:
  assumes "tm_wf c" "tm_pc_ok c (T_move v i1 i2 x cs)" "lone_pc v S c (T_move v i1 i2 x cs)"
    and "tm_step None c (T_move v i1 i2 x cs) = (c', q')"
  shows "lone_pc v S c' q'"
proof (cases "tl cs")
  case Nil
  with assms(2) obtain y where "cs = [y]" "y = x" by (cases cs) auto
  with assms show ?thesis by auto
next
  case (Cons f rs)
  then obtain to where cs: "cs = to # f # rs" by (cases cs) auto
  note sh = table_wf_D(1) [OF assms(1)]
  have ok: "tm_cell_ok c to" "tm_cell_ok c f" using assms(2) by (auto simp: cs)
  note d = TM_displace_eq [OF sh ok]
  show ?thesis
  proof (cases "movable c to f")
    case True
    note k = tm_tables.move_cell_keeps [OF sh ok True]
    have "contents (move_cell c to f) = contents c" by (rule same_elements_D(4) [OF k(1)])
    with assms(3,4) d True k(2) show ?thesis by (auto simp: cs)
  next
    case False
    with assms(3,4) d show ?thesis by (auto simp: cs)
  qed
qed

lemma lone_store:
  assumes "tm_wf c" "v \<noteq> EMPTY" "start_cell c i1 i2 x" "free_cell c x" "v \<notin># contents c"
    and "tm_step None c (T_store v i1 i2 x) = (c', q')"
  shows "lone_pc v (contents c) c' q'"
proof -
  obtain t i s where x: "x = (t, i, s)" by (cases x)
  have r: "t \<in> {1, 2}" "in_range i (capacity c)" "in_range s TM_WIDTH" "cell c t i s = EMPTY"
    using assms(3,4) by (auto simp: start_cell_def x cell_ok_w_def free_cell_def)
  note sh = table_wf_D(1) [OF assms(1)]
  have "put_element c t i s v = Some (put c t i s v)" using r sh by (simp add: exec_simps)
  moreover have "contents (put c t i s v) = add_mset v (contents c)"
    by (rule tm_tables.contents_fill [OF sh r assms(2)])
  ultimately show ?thesis using assms(5,6) by (auto simp: x)
qed

lemma lone_claim:
  assumes "tm_wf c" "start_cell c i1 i2 x" "v \<notin># contents c" "tm_step None c (T_claim v i1 i2 x) = (c', q')"
  shows "lone_pc v (contents c) c' q'"
proof -
  obtain t i s where x: "x = (t, i, s)" by (cases x)
  have "TM_claim c x = Some (if cell c t i s = EMPTY then Result SUCCESS t i s else Result RETRY 0 0 0)"
    using assms(2) table_wf_D(1) [OF assms(1)] by (auto simp: x TM_claim_def start_cell_def cell_ok_w_def exec_simps)
  with assms(3,4) show ?thesis by (auto simp: T_result_def free_cell_def)
qed

lemma lone_step:
  assumes "lone v S c q" "v \<noteq> EMPTY" "tm_step None c q = (c', q')" "\<And>old u i1 i2. q \<noteq> T_grow old u i1 i2"
  shows "lone v S c' q'"
proof -
  have wf: "tm_wf c" "\<not> writer c" "tm_pc_ok c q" "lone_pc v S c q" using assms(1) by (auto simp: lone_def)
  have k: "keeps c c' q'" using tm_step_keeps [OF wf(1,3) assms(3,4)] by simp
  have "lone_pc v S c' q'"
  proof (cases q)
    case (T_call x)
    with wf assms(3) table_wf_D(1) [OF wf(1)] show ?thesis
      by (auto simp: tm_tables.hash_home)
  next
    case (T_test u i1 i2)
    with lone_test [OF wf(1) assms(2), of i1 i2 S c' q'] wf assms(3) show ?thesis by auto
  next
    case (T_search u i1 i2)
    with lone_search [OF wf(1), of i1 v i2 c' q'] wf assms(3) show ?thesis by auto
  next
    case (T_claim u i1 i2 x)
    with lone_claim [OF wf(1), of i1 i2 x v c' q'] wf assms(3) show ?thesis by auto
  next
    case (T_move u i1 i2 x cs)
    with wf(4) have "u = v" by simp
    with T_move have "q = T_move v i1 i2 x cs" by simp
    from lone_move [OF wf(1) wf(3,4) [unfolded this] assms(3) [unfolded this]] show ?thesis .
  next
    case (T_store u i1 i2 x)
    with lone_store [OF wf(1) assms(2), of i1 i2 x c' q'] wf assms(3) show ?thesis by auto
  next
    case (T_unlock p)
    have "lone_pc v S (c\<lparr>readers := n\<rparr>) p = lone_pc v S c p" for n
      by (induction p) (auto simp: free_cell_def)
    with wf T_unlock assms(3) show ?thesis by auto
  qed (use wf assms(3,4) in auto)
  with k wf(2) show ?thesis by (simp add: lone_def keeps_def)
qed

lemma tm_run_unfold:
  assumes "\<And>b. q \<noteq> T_done b" "q \<noteq> T_fault" "grows \<or> (\<forall>old v i1 i2. q \<noteq> T_grow old v i1 i2)"
  shows "tm_run grows (Suc n) c q = (case tm_step None c q of (c', q') \<Rightarrow> tm_run grows n c' q')"
  using assms by (cases q) (auto simp del: tm_step.simps)

lemma lone_run:
  assumes "lone v S c q" "v \<noteq> EMPTY" "tm_run False n c q = Done (b, c')"
  shows "tm_wf c' \<and> \<not> writer c' \<and> b = (v \<notin># S) \<and> contents c' = (if b then add_mset v S else S)"
  using assms(1,3)
proof (induction n arbitrary: c q)
  case (Suc n)
  show ?case
  proof (cases "(\<exists>b. q = T_done b) \<or> q = T_fault \<or> (\<exists>old v i1 i2. q = T_grow old v i1 i2)")
    case True
    with Suc.prems show ?thesis by (auto simp: lone_def)
  next
    case False
    obtain c1 q1 where st: "tm_step None c q = (c1, q1)" by (meson surj_pair)
    have "tm_run False n c1 q1 = Done (b, c')"
      using Suc.prems(2) False tm_run_unfold [of q False n c] st by auto
    moreover have "lone v S c1 q1" using lone_step [OF Suc.prems(1) assms(2) st] False by auto
    ultimately show ?thesis using Suc.IH by blast
  qed
qed simp

subsection \<open>The table as a set object\<close>

definition tm_call :: "nat \<Rightarrow> cuckoo \<Rightarrow> u32 set_op \<Rightarrow> (bool \<times> cuckoo) option" where
  "tm_call fuel c x =
     (case (case x of
              Insert v \<Rightarrow> tm_run False fuel c (T_call (T_insert v))
            | Remove v \<Rightarrow> TM_remove c v
            | Contains v \<Rightarrow> TM_contains c v) of
        Done r \<Rightarrow> Some r | _ \<Rightarrow> None)"

definition tm_ok :: "cuckoo \<Rightarrow> bool" where
  "tm_ok c \<longleftrightarrow> tm_wf c \<and> \<not> writer c \<and> (\<forall>v. count (contents c) v \<le> 1)"

definition tm_elems :: "cuckoo \<Rightarrow> u32 set" where
  "tm_elems c = set_mset (contents c)"

lemma TM_contains_eq:
  assumes "tm_wf c" "\<not> writer c" "v \<noteq> EMPTY"
  shows "TM_contains c v = Done (v \<in># contents c, c)"
proof -
  note sh = table_wf_D(1) [OF assms(1)]
  have "TM_contains_txn (c\<lparr>readers := k\<rparr>) v (home c 1 v) (home c 2 v) = Some (v \<in># contents c)" for k
    using sh tm_tables.in_contents_home [OF assms(1,3)]
    by (auto simp: TM_contains_txn_def table_of_12 exec_simps)
  then show ?thesis using assms(2) sh by (simp add: TM_contains_def eval_nat_numeral tm_tables.hash_home)
qed

lemma TM_remove_eq:
  assumes "tm_wf c" "\<not> writer c" "v \<noteq> EMPTY"
  shows "\<exists>c'. TM_remove c v = Done (v \<in># contents c, c') \<and> tm_wf c' \<and> \<not> writer c' \<and> contents c' = contents c - {#v#}"
proof -
  note sh = table_wf_D(1) [OF assms(1)]
  let ?d = "c\<lparr>readers := Suc (readers c)\<rparr>"
  obtain b d where d: "TM_remove_txn ?d v (home c 1 v) (home c 2 v) = Some (b, d)" "tm_wf d"
    "writer d = writer c" "b = (v \<in># contents c)" "contents d = contents c - {#v#}"
    using tm_wf_remove [of ?d v] assms(1,3) by auto
  then have "TM_remove c v = Done (v \<in># contents c, d\<lparr>readers := readers d - 1\<rparr>)"
    using assms(2) sh by (simp add: TM_remove_def eval_nat_numeral tm_tables.hash_home)
  with d assms(2) show ?thesis by (intro exI [of _ "d\<lparr>readers := readers d - 1\<rparr>"]) simp
qed

lemma tm_call_ok:
  assumes inv: "tm_ok c" and v: "operand x \<noteq> EMPTY" and r: "tm_call fuel c x = Some (b, d)"
  shows "tm_ok d \<and> (b, tm_elems d) = spec_op x (tm_elems c)"
proof (cases x)
  case (Insert v)
  have "lone v (contents c) c (T_call (T_insert v))" using inv by (simp add: tm_ok_def lone_def)
  from lone_run [OF this, of fuel b d] r v inv Insert show ?thesis
    by (auto simp: tm_call_def tm_ok_def tm_elems_def not_in_iff split: outcome.splits)
next
  case (Remove v)
  with inv v TM_remove_eq [of c v] obtain d' where d': "TM_remove c v = Done (v \<in># contents c, d')" "tm_wf d'"
    "\<not> writer d'" "contents d' = contents c - {#v#}" by (auto simp: tm_ok_def)
  moreover have "set_mset (contents c - {#v#}) = set_mset (contents c) - {v}"
    using inv by (intro set_mset_remove_one) (simp add: tm_ok_def)
  moreover have "count (contents c - {#v#}) u \<le> 1" for u
    using inv by (auto simp: tm_ok_def intro: le_trans [OF diff_le_self])
  ultimately show ?thesis using r Remove by (auto simp: tm_call_def tm_ok_def tm_elems_def)
next
  case (Contains v)
  with inv v r TM_contains_eq [of c v] show ?thesis by (auto simp: tm_call_def tm_ok_def tm_elems_def)
qed

interpretation tm_set: set_object "tm_call fuel" tm_ok tm_elems "\<lambda>v. v \<noteq> EMPTY"
  by unfold_locales (rule tm_call_ok)

subsection \<open>Properties\<close>

text \<open>C17: whatever the threads do and whatever their unprotected searches see, as long as no
  thread has resized the table, both tables keep their shape and every stored element sits in a
  bucket that one of its hash functions names.\<close>

theorem tm_placement:
  assumes "0 < unat n" "unat n < 2 ^ 31" "list_all no_growth es"
  shows "table_wf_w TM_WIDTH (tm_state (tm_exec (tms_new n r) es))"
  using tm_exec_inv [OF tms_new_inv [OF assms(1,2)] assms(3)] by (simp add: tm_inv_def)

text \<open>Both threads choose the first free slot before either of them stores.\<close>

definition tm_race :: "u32 \<Rightarrow> u32 \<Rightarrow> tm_event list" where
  "tm_race a b = [T_invoke 0 (T_insert a), T_invoke 1 (T_insert b)]
     @ concat (replicate 3 [T_turn 0 None, T_turn 1 None])
     @ replicate 4 (T_turn 0 None) @ replicate 4 (T_turn 1 None)
     @ [T_invoke 0 (T_contains a)] @ replicate 5 (T_turn 0 None)"

theorem tm_placement_witness:
  "table_wf_w TM_WIDTH (tm_state (tm_exec (tms_new 1 xorshf96_seed) (tm_race 1 2)))"
proof (rule tm_placement)
  show "list_all no_growth (tm_race 1 2)" by code_simp
qed simp_all




text \<open>Extending a path code by a slot overflows an \<open>int\<close> exactly when the new code exceeds
  2147483647.  With 50 slots this can happen from the sixth slot of a path on (a code of five slots
  is below 625000000), while the search depth allows seven.\<close>

theorem tm_pathcode_bounds:
  assumes "shaped_w TM_WIDTH c" "pt_table p \<in> {1, 2}" "in_range (pt_index p) (capacity c)"
    and "in_range slot TM_WIDTH" "0 \<le> pt_pathcode p"
  shows "TM_nextPoint c p slot = None \<longleftrightarrow> 2147483647 < pt_pathcode p * 50 + slot"
proof -
  have code: "(as_int (k * 50) = None \<or> as_int (k * 50 + slot) = None) \<longleftrightarrow> 2147483647 < k * 50 + slot"
    if "0 \<le> k" for k
    using that assms(4) by (auto simp: as_int_def fits_int_def int_max_def)
  have "hash c x t = Some (home c t x)" if "t \<in> {1, 2}" for x t
    using that assms(1) by (simp add: tm_tables.hash_home)
  then show ?thesis
    using assms code [OF assms(5)]
    by (cases "as_int (pt_pathcode p * 50)"; cases "as_int (pt_pathcode p * 50 + slot)")
       (auto simp: TM_nextPoint_def table_of_12 exec_simps TM_WIDTH_def as_int_def split: if_splits)
qed

theorem tm_pathcode_bounds_witness:
  "TM_nextPoint (TM_Cuckoo_new 1 xorshf96_seed) (Point 1 0 624999999 5) 7 = None
   \<and> TM_nextPoint (TM_Cuckoo_new 1 xorshf96_seed) (Point 2 0 12499999 4) 49 \<noteq> None"
proof -
  let ?c = "TM_Cuckoo_new 1 xorshf96_seed"
  have "shaped_w TM_WIDTH ?c" using tm_new_wf(1) [of 1 xorshf96_seed] by (simp add: table_wf_D)
  moreover have "capacity ?c = 1" by (simp add: capacity_def TM_Cuckoo_new_def)
  ultimately show ?thesis
    using tm_pathcode_bounds [of ?c "Point 1 0 624999999 5" 7] tm_pathcode_bounds [of ?c "Point 2 0 12499999 4" 49]
    by (simp add: TM_WIDTH_def)
qed

end
