(* ===== verification/KMeans.thy ===== *)
theory KMeans
  imports Prelude
begin

text \<open>
  The clustering program K-Means/kmeans475-serial.cpp: the classes \<open>Point\<close>, \<open>Cluster\<close> and
  \<open>KMeans\<close> with \<open>getIDNearestCenter\<close> and \<open>run\<close>, and \<open>main\<close> on a stream of input tokens.

  Floating point arithmetic is a parameter, the record \<open>fp\<close> of the operations that the code uses on
  \<open>double\<close>; what holds here holds for every rounding.  The random numbers are a list of the results
  of \<open>rand()\<close>; running out of them is \<open>No_fuel\<close>, the endless search for a fresh index.
\<close>

record 'd fp =
  fp_zero :: 'd
  fp_add :: "'d \<Rightarrow> 'd \<Rightarrow> 'd"
  fp_sub :: "'d \<Rightarrow> 'd \<Rightarrow> 'd"
  fp_pow2 :: "'d \<Rightarrow> 'd"
  fp_sqrt :: "'d \<Rightarrow> 'd"
  fp_less :: "'d \<Rightarrow> 'd \<Rightarrow> bool"
  fp_div_int :: "'d \<Rightarrow> int \<Rightarrow> 'd"

subsection \<open>Point\<close>

record 'd kpoint =
  id_point :: int
  id_cluster :: int
  pt_values :: "'d list"
  pt_total_values :: int
  pt_name :: string

definition KPoint :: "int \<Rightarrow> 'd list \<Rightarrow> string \<Rightarrow> 'd kpoint" where
  "KPoint i vs s = \<lparr>id_point = i, id_cluster = -1, pt_values = vs, pt_total_values = int (length vs), pt_name = s\<rparr>"

definition setCluster :: "'d kpoint \<Rightarrow> int \<Rightarrow> 'd kpoint" where
  "setCluster p c = p\<lparr>id_cluster := c\<rparr>"

definition getValue :: "'d kpoint \<Rightarrow> int \<Rightarrow> 'd option" where
  "getValue p i = at (pt_values p) i"

definition addValue :: "'d kpoint \<Rightarrow> 'd \<Rightarrow> 'd kpoint" where
  "addValue p v = p\<lparr>pt_values := pt_values p @ [v]\<rparr>"

subsection \<open>Cluster\<close>

record 'd kcluster =
  cl_id :: int
  central_values :: "'d list"
  cl_points :: "'d kpoint list"

fun copy_values :: "'d kpoint \<Rightarrow> int list \<Rightarrow> 'd list option" where
  "copy_values p [] = Some []"
| "copy_values p (i # is) = do { v \<leftarrow> getValue p i; vs \<leftarrow> copy_values p is; Some (v # vs) }"

definition Cluster_new :: "int \<Rightarrow> 'd kpoint \<Rightarrow> 'd kcluster option" where
  "Cluster_new i p =
     do { vs \<leftarrow> copy_values p (map int [0..<nat (pt_total_values p)]);
          Some \<lparr>cl_id = i, central_values = vs, cl_points = [p]\<rparr> }"

definition addPoint :: "'d kcluster \<Rightarrow> 'd kpoint \<Rightarrow> 'd kcluster" where
  "addPoint c p = c\<lparr>cl_points := cl_points c @ [p]\<rparr>"

fun erase_point :: "int \<Rightarrow> 'd kpoint list \<Rightarrow> bool \<times> 'd kpoint list" where
  "erase_point i [] = (False, [])"
| "erase_point i (p # ps) =
     (if id_point p = i then (True, ps) else (case erase_point i ps of (b, ps') \<Rightarrow> (b, p # ps')))"

definition removePoint :: "'d kcluster \<Rightarrow> int \<Rightarrow> bool \<times> 'd kcluster" where
  "removePoint c i = (case erase_point i (cl_points c) of (b, ps) \<Rightarrow> (b, c\<lparr>cl_points := ps\<rparr>))"

definition getCentralValue :: "'d kcluster \<Rightarrow> int \<Rightarrow> 'd option" where
  "getCentralValue c i = at (central_values c) i"

definition setCentralValue :: "'d kcluster \<Rightarrow> int \<Rightarrow> 'd \<Rightarrow> 'd kcluster option" where
  "setCentralValue c i v = do { vs \<leftarrow> upd (central_values c) i v; Some (c\<lparr>central_values := vs\<rparr>) }"

definition getPoint :: "'d kcluster \<Rightarrow> int \<Rightarrow> 'd kpoint option" where
  "getPoint c i = at (cl_points c) i"

definition getTotalPoints :: "'d kcluster \<Rightarrow> int" where
  "getTotalPoints c = int (length (cl_points c))"

subsection \<open>KMeans\<close>

record 'd kmeans =
  km_K :: int
  km_total_values :: int
  km_total_points :: int
  km_max_iterations :: int
  km_clusters :: "'d kcluster list"

definition KMeans_new :: "int \<Rightarrow> int \<Rightarrow> int \<Rightarrow> int \<Rightarrow> 'd kmeans" where
  "KMeans_new k points vals iters =
     \<lparr>km_K = k, km_total_values = vals, km_total_points = points, km_max_iterations = iters, km_clusters = []\<rparr>"

fun distance_sum :: "'d fp \<Rightarrow> 'd kcluster \<Rightarrow> 'd kpoint \<Rightarrow> int list \<Rightarrow> 'd \<Rightarrow> 'd option" where
  "distance_sum fp c p [] acc = Some acc"
| "distance_sum fp c p (j # js) acc =
     do { a \<leftarrow> getCentralValue c j;
          b \<leftarrow> getValue p j;
          distance_sum fp c p js (fp_add fp acc (fp_pow2 fp (fp_sub fp a b))) }"

definition center_distance :: "'d fp \<Rightarrow> 'd kmeans \<Rightarrow> 'd kpoint \<Rightarrow> int \<Rightarrow> 'd option" where
  "center_distance fp km p i =
     do { c \<leftarrow> at (km_clusters km) i;
          acc \<leftarrow> distance_sum fp c p (map int [0..<nat (km_total_values km)]) (fp_zero fp);
          Some (fp_sqrt fp acc) }"

fun nearest_loop :: "'d fp \<Rightarrow> 'd kmeans \<Rightarrow> 'd kpoint \<Rightarrow> int list \<Rightarrow> 'd \<Rightarrow> int \<Rightarrow> int option" where
  "nearest_loop fp km p [] min_dist best = Some best"
| "nearest_loop fp km p (i # is) min_dist best =
     do { dist \<leftarrow> center_distance fp km p i;
          if fp_less fp dist min_dist then nearest_loop fp km p is dist i
          else nearest_loop fp km p is min_dist best }"

definition getIDNearestCenter :: "'d fp \<Rightarrow> 'd kmeans \<Rightarrow> 'd kpoint \<Rightarrow> int option" where
  "getIDNearestCenter fp km p =
     do { min_dist \<leftarrow> center_distance fp km p 0;
          nearest_loop fp km p (map int [1..<nat (km_K km)]) min_dist 0 }"

text \<open>The inner \<open>while (true)\<close>: the first random index that is not prohibited.\<close>

fun fresh_index :: "int \<Rightarrow> int list \<Rightarrow> int list \<Rightarrow> (int \<times> int list) option" where
  "fresh_index n prohibited [] = None"
| "fresh_index n prohibited (r # rs) =
     (if r mod n \<notin> set prohibited then Some (r mod n, rs) else fresh_index n prohibited rs)"

type_synonym 'd km_state = "'d kmeans \<times> 'd kpoint list"

definition take_center :: "'d km_state \<Rightarrow> int \<Rightarrow> int \<Rightarrow> 'd km_state option" where
  "take_center s i index =
     (case s of (km, pts) \<Rightarrow>
        do { p \<leftarrow> at pts index;
             pts \<leftarrow> upd pts index (setCluster p i);
             c \<leftarrow> Cluster_new i (setCluster p i);
             Some (km\<lparr>km_clusters := km_clusters km @ [c]\<rparr>, pts) })"

fun choose_centers :: "int list \<Rightarrow> 'd km_state \<Rightarrow> int list \<Rightarrow> int list \<Rightarrow> ('d km_state \<times> int list) outcome" where
  "choose_centers [] s prohibited rs = Done (s, rs)"
| "choose_centers (i # is) s prohibited rs =
     (case fresh_index (km_total_points (fst s)) prohibited rs of
        None \<Rightarrow> No_fuel
      | Some (index, rs') \<Rightarrow>
          (case take_center s i index of
             None \<Rightarrow> Fault
           | Some s' \<Rightarrow> choose_centers is s' (prohibited @ [index]) rs'))"

definition move_point :: "'d km_state \<Rightarrow> int \<Rightarrow> int \<Rightarrow> 'd km_state option" where
  "move_point s i near =
     (case s of (km, pts) \<Rightarrow>
        do { p \<leftarrow> at pts i;
             km \<leftarrow> (if id_cluster p \<noteq> -1 then
                      do { c \<leftarrow> at (km_clusters km) (id_cluster p);
                           cs \<leftarrow> upd (km_clusters km) (id_cluster p) (snd (removePoint c (id_point p)));
                           Some (km\<lparr>km_clusters := cs\<rparr>) }
                    else Some km);
             pts \<leftarrow> upd pts i (setCluster p near);
             c \<leftarrow> at (km_clusters km) near;
             cs \<leftarrow> upd (km_clusters km) near (addPoint c (setCluster p near));
             Some (km\<lparr>km_clusters := cs\<rparr>, pts) })"

fun assign_points :: "'d fp \<Rightarrow> int list \<Rightarrow> 'd km_state \<Rightarrow> bool \<Rightarrow> ('d km_state \<times> bool) option" where
  "assign_points fp [] s don = Some (s, don)"
| "assign_points fp (i # is) s don =
     do { p \<leftarrow> at (snd s) i;
          near \<leftarrow> getIDNearestCenter fp (fst s) p;
          if id_cluster p \<noteq> near then
            do { s \<leftarrow> move_point s i near; assign_points fp is s False }
          else assign_points fp is s don }"

fun sum_coordinate :: "'d fp \<Rightarrow> 'd kcluster \<Rightarrow> int \<Rightarrow> int list \<Rightarrow> 'd \<Rightarrow> 'd option" where
  "sum_coordinate fp c j [] acc = Some acc"
| "sum_coordinate fp c j (p # ps) acc =
     do { q \<leftarrow> getPoint c p; v \<leftarrow> getValue q j; sum_coordinate fp c j ps (fp_add fp acc v) }"

fun recenter :: "'d fp \<Rightarrow> 'd kcluster \<Rightarrow> int list \<Rightarrow> 'd kcluster option" where
  "recenter fp c [] = Some c"
| "recenter fp c (j # js) =
     do { let total = getTotalPoints c;
          c \<leftarrow> (if 0 < total then
                  do { acc \<leftarrow> sum_coordinate fp c j (map int [0..<nat total]) (fp_zero fp);
                       setCentralValue c j (fp_div_int fp acc total) }
                else Some c);
          recenter fp c js }"

fun recenter_all :: "'d fp \<Rightarrow> int list \<Rightarrow> 'd kmeans \<Rightarrow> 'd kmeans option" where
  "recenter_all fp [] km = Some km"
| "recenter_all fp (i # is) km =
     do { c \<leftarrow> at (km_clusters km) i;
          c \<leftarrow> recenter fp c (map int [0..<nat (km_total_values km)]);
          cs \<leftarrow> upd (km_clusters km) i c;
          recenter_all fp is (km\<lparr>km_clusters := cs\<rparr>) }"

definition iterate :: "'d fp \<Rightarrow> 'd km_state \<Rightarrow> ('d km_state \<times> bool) option" where
  "iterate fp s =
     do { (s, don) \<leftarrow> assign_points fp (map int [0..<nat (km_total_points (fst s))]) s True;
          km \<leftarrow> recenter_all fp (map int [0..<nat (km_K (fst s))]) (fst s);
          Some ((km, snd s), don) }"

text \<open>The main loop; \<open>max_iterations\<close> is a constant of the object.\<close>

function km_loop :: "'d fp \<Rightarrow> int \<Rightarrow> int \<Rightarrow> 'd km_state \<Rightarrow> ('d km_state \<times> int) option" where
  "km_loop fp max_iterations iter s =
     (case iterate fp s of
        None \<Rightarrow> None
      | Some (s', don) \<Rightarrow>
          if don \<or> iter \<ge> max_iterations then Some (s', iter) else km_loop fp max_iterations (iter + 1) s')"
  by pat_completeness auto
termination
  by (relation "measure (\<lambda>(fp, m, iter, s). nat (m - iter))") auto

declare km_loop.simps [simp del]

definition KMeans_run :: "'d fp \<Rightarrow> int list \<Rightarrow> 'd km_state \<Rightarrow> ('d km_state \<times> int) outcome" where
  "KMeans_run fp rs s =
     (if km_K (fst s) > km_total_points (fst s) then Done (s, 0)
      else case choose_centers (map int [0..<nat (km_K (fst s))]) s [] rs of
             No_fuel \<Rightarrow> No_fuel
           | Fault \<Rightarrow> Fault
           | Done (s, rs') \<Rightarrow>
               (case km_loop fp (km_max_iterations (fst s)) 1 s of None \<Rightarrow> Fault | Some r \<Rightarrow> Done r))"

subsection \<open>main\<close>

text \<open>Reading with \<open>cin\<close> is given by two parsers of tokens.\<close>

fun read_values :: "(string \<Rightarrow> 'd option) \<Rightarrow> nat \<Rightarrow> string list \<Rightarrow> ('d list \<times> string list) option" where
  "read_values pd 0 ts = Some ([], ts)"
| "read_values pd (Suc n) ts =
     (case ts of [] \<Rightarrow> None
      | t # ts \<Rightarrow> do { v \<leftarrow> pd t; (vs, ts) \<leftarrow> read_values pd n ts; Some (v # vs, ts) })"

fun read_points :: "(string \<Rightarrow> 'd option) \<Rightarrow> nat \<Rightarrow> bool \<Rightarrow> int list \<Rightarrow> string list \<Rightarrow> 'd kpoint list option" where
  "read_points pd total_values has_name [] ts = Some []"
| "read_points pd total_values has_name (i # is) ts =
     do { (vs, ts) \<leftarrow> read_values pd total_values ts;
          if has_name then
            (case ts of [] \<Rightarrow> None
             | t # ts \<Rightarrow> do { ps \<leftarrow> read_points pd total_values has_name is ts; Some (KPoint i vs t # ps) })
          else do { ps \<leftarrow> read_points pd total_values has_name is ts; Some (KPoint i vs '''' # ps) } }"

definition kmeans_main ::
  "'d fp \<Rightarrow> (string \<Rightarrow> int option) \<Rightarrow> (string \<Rightarrow> 'd option) \<Rightarrow> int list \<Rightarrow> string list \<Rightarrow> ('d km_state \<times> int) outcome" where
  "kmeans_main fp pi pd rs tokens =
     (case tokens of
        t1 # t2 # t3 # t4 # t5 # ts \<Rightarrow>
          (case (pi t1, pi t2, pi t3, pi t4, pi t5) of
             (Some total_points, Some total_values, Some k, Some max_iterations, Some has_name) \<Rightarrow>
               (case read_points pd (nat total_values) (has_name \<noteq> 0) (map int [0..<nat total_points]) ts of
                  None \<Rightarrow> Fault
                | Some pts \<Rightarrow> KMeans_run fp rs (KMeans_new k total_points total_values max_iterations, pts))
           | _ \<Rightarrow> Fault)
      | _ \<Rightarrow> Fault)"

end
