(* ===== verification/KMeansInv.thy ===== *)
theory KMeansInv
  imports KMeans
begin

text \<open>
  The clusters partition the points: the invariant that every operation of the clustering program
  keeps, for any floating point arithmetic, and that \<open>run\<close> always returns once the random numbers
  name enough different points.
\<close>

definition ids :: "'d kcluster \<Rightarrow> int multiset" where
  "ids c = mset (map id_point (cl_points c))"

definition members :: "'d kpoint list \<Rightarrow> int \<Rightarrow> int multiset" where
  "members pts k = mset (map id_point (filter (\<lambda>p. id_cluster p = k) pts))"

definition point_dims :: "nat \<Rightarrow> 'd kpoint \<Rightarrow> bool" where
  "point_dims d p \<longleftrightarrow> length (pt_values p) = d \<and> pt_total_values p = int d"

definition cluster_dims :: "nat \<Rightarrow> 'd kcluster \<Rightarrow> bool" where
  "cluster_dims d c \<longleftrightarrow> length (central_values c) = d \<and> (\<forall>p\<in>set (cl_points c). point_dims d p)"

definition km_dims :: "nat \<Rightarrow> 'd km_state \<Rightarrow> bool" where
  "km_dims d s \<longleftrightarrow> km_total_values (fst s) = int d \<and> km_total_points (fst s) = int (length (snd s))
     \<and> (\<forall>p\<in>set (snd s). point_dims d p) \<and> (\<forall>c\<in>set (km_clusters (fst s)). cluster_dims d c)"

definition km_part :: "'d km_state \<Rightarrow> bool" where
  "km_part s \<longleftrightarrow>
     (\<forall>i < length (km_clusters (fst s)). ids (km_clusters (fst s) ! i) = members (snd s) (int i))
     \<and> (\<forall>p\<in>set (snd s). -1 \<le> id_cluster p \<and> id_cluster p < int (length (km_clusters (fst s))))"

definition km_inv :: "nat \<Rightarrow> 'd km_state \<Rightarrow> bool" where
  "km_inv d s \<longleftrightarrow> km_dims d s \<and> km_part s"

text \<open>What the phases leave alone.\<close>

definition km_frame :: "'d km_state \<Rightarrow> 'd km_state \<Rightarrow> bool" where
  "km_frame s s' \<longleftrightarrow> km_K (fst s') = km_K (fst s) \<and> km_total_values (fst s') = km_total_values (fst s)
     \<and> km_total_points (fst s') = km_total_points (fst s) \<and> km_max_iterations (fst s') = km_max_iterations (fst s)
     \<and> map id_point (snd s') = map id_point (snd s) \<and> map pt_values (snd s') = map pt_values (snd s)"

lemma km_frame_refl [simp]: "km_frame s s"
  by (simp add: km_frame_def)

lemma km_frame_trans: "km_frame s t \<Longrightarrow> km_frame t u \<Longrightarrow> km_frame s u"
  by (simp add: km_frame_def)

lemma km_frame_length: "km_frame s s' \<Longrightarrow> length (snd s') = length (snd s)"
  unfolding km_frame_def by (metis length_map)

subsection \<open>Members\<close>

lemma members_mset: "members pts k = image_mset id_point (filter_mset (\<lambda>p. id_cluster p = k) (mset pts))"
  by (simp add: members_def)

lemma members_update:
  assumes "i < length pts"
  shows "members (pts[i := q]) k + (if id_cluster (pts ! i) = k then {#id_point (pts ! i)#} else {#}) =
   members pts k + (if id_cluster q = k then {#id_point q#} else {#})"
proof -
  have "mset (pts[i := q]) + {#pts ! i#} = mset pts + {#q#}" by (rule mset_update_nth [OF assms])
  then have "image_mset id_point (filter_mset (\<lambda>p. id_cluster p = k) (mset (pts[i := q]) + {#pts ! i#})) =
      image_mset id_point (filter_mset (\<lambda>p. id_cluster p = k) (mset pts + {#q#}))" by simp
  then show ?thesis by (simp add: members_mset split: if_splits)
qed

lemma members_move:
  assumes "i < length pts" "id_cluster (pts ! i) \<noteq> near"
  shows "members (pts[i := setCluster (pts ! i) near]) k =
    (if k = near then add_mset (id_point (pts ! i)) (members pts k)
     else if k = id_cluster (pts ! i) then members pts k - {#id_point (pts ! i)#} else members pts k)"
proof -
  note u = members_update [OF assms(1), of "setCluster (pts ! i) near" k]
  consider "k = near" | "k = id_cluster (pts ! i)" | "k \<noteq> near" "k \<noteq> id_cluster (pts ! i)" by blast
  then show ?thesis
  proof cases
    case 2
    with u assms(2) have "members pts k =
        add_mset (id_point (pts ! i)) (members (pts[i := setCluster (pts ! i) near]) k)"
      by (simp add: setCluster_def)
    with 2 assms(2) show ?thesis by simp
  qed (use u assms(2) in \<open>simp_all add: setCluster_def\<close>)
qed

lemma member_in: "i < length pts \<Longrightarrow> id_point (pts ! i) \<in># members pts (id_cluster (pts ! i))"
  by (auto simp: members_def)

lemma erase_point_ids:
  "erase_point i ps = (b, ps') \<Longrightarrow> mset (map id_point ps') = mset (map id_point ps) - {#i#} \<and> set ps' \<subseteq> set ps"
proof (induction ps arbitrary: b ps')
  case (Cons p ps)
  show ?case
  proof (cases "id_point p = i")
    case False
    with Cons.prems obtain qs where q: "erase_point i ps = (b, qs)" "ps' = p # qs" by (auto split: prod.splits)
    from Cons.IH [OF q(1)] q(2) False show ?thesis by (auto simp: add_mset_commute diff_add_mset_swap)
  qed (use Cons.prems in auto)
qed simp

lemma removePoint_ids: "removePoint c i = (b, c') \<Longrightarrow>
   ids c' = ids c - {#i#} \<and> central_values c' = central_values c \<and> set (cl_points c') \<subseteq> set (cl_points c)"
  using erase_point_ids [of i "cl_points c"] by (auto simp: removePoint_def ids_def split: prod.splits)

lemma addPoint_ids: "ids (addPoint c p) = add_mset (id_point p) (ids c)"
  by (simp add: ids_def addPoint_def)

subsection \<open>The nearest center exists\<close>

lemma distance_sum_total:
  "cluster_dims d c \<Longrightarrow> point_dims d p \<Longrightarrow> \<forall>j\<in>set js. in_range j d \<Longrightarrow> \<exists>x. distance_sum fp c p js acc = Some x"
  by (induction js arbitrary: acc)
     (auto simp: getCentralValue_def getValue_def cluster_dims_def point_dims_def at_def)

lemma center_distance_total:
  assumes "km_dims d s" "point_dims d p" "in_range i (length (km_clusters (fst s)))"
  shows "\<exists>x. center_distance fp (fst s) p i = Some x"
proof -
  have "cluster_dims d (km_clusters (fst s) ! nat i)" using assms by (simp add: km_dims_def nat_less_iff)
  from distance_sum_total [OF this assms(2), of "map int [0..<d]"] assms show ?thesis
    by (auto simp: center_distance_def at_def km_dims_def)
qed

lemma nearest_loop_total:
  "\<forall>i\<in>set is. \<exists>x. center_distance fp km p i = Some x \<Longrightarrow>
   \<exists>r. nearest_loop fp km p is m best = Some r \<and> (r = best \<or> r \<in> set is)"
proof (induction "is" arbitrary: m best)
  case (Cons i "is")
  then obtain x where "center_distance fp km p i = Some x" by auto
  with Cons.IH [of x i] Cons.IH [of m best] Cons.prems show ?case by auto
qed simp

lemma nearest_total:
  assumes "km_dims d s" "point_dims d p" "length (km_clusters (fst s)) = nat (km_K (fst s))" "0 < km_K (fst s)"
  shows "\<exists>r. getIDNearestCenter fp (fst s) p = Some r \<and> 0 \<le> r \<and> r < km_K (fst s)"
proof -
  have tot: "\<exists>x. center_distance fp (fst s) p i = Some x" if "0 \<le> i" "i < km_K (fst s)" for i
    using center_distance_total [OF assms(1,2)] assms(3) that by simp
  obtain x where "center_distance fp (fst s) p 0 = Some x" using tot [of 0] assms(4) by auto
  moreover have "\<forall>i\<in>set (map int [1..<nat (km_K (fst s))]). \<exists>x. center_distance fp (fst s) p i = Some x"
    using tot by auto
  from nearest_loop_total [OF this, of x 0] obtain r
    where "nearest_loop fp (fst s) p (map int [1..<nat (km_K (fst s))]) x 0 = Some r"
      "r = 0 \<or> r \<in> set (map int [1..<nat (km_K (fst s))])" by blast
  ultimately show ?thesis using assms(4) by (auto simp: getIDNearestCenter_def)
qed

subsection \<open>Moving a point\<close>

lemma move_point_ok:
  assumes inv: "km_inv d s" and i: "i < length (snd s)" and near: "0 \<le> near" "near < int (length (km_clusters (fst s)))"
    and ne: "id_cluster (snd s ! i) \<noteq> near"
  shows "\<exists>s'. move_point s (int i) near = Some s' \<and> km_inv d s' \<and> km_frame s s'
     \<and> snd s' = (snd s)[i := setCluster (snd s ! i) near]
     \<and> map central_values (km_clusters (fst s')) = map central_values (km_clusters (fst s))"
proof -
  obtain km pts where s: "s = (km, pts)" by (cases s)
  let ?p = "pts ! i" and ?cs = "km_clusters km"
  let ?q = "setCluster ?p near" and ?old = "id_cluster ?p"
  define cs1 where "cs1 = (if ?old \<noteq> -1 then ?cs[nat ?old := snd (removePoint (?cs ! nat ?old) (id_point ?p))] else ?cs)"
  define cs2 where "cs2 = cs1[nat near := addPoint (cs1 ! nat near) ?q]"
  have pts: "i < length pts" and part: "\<And>k. k < length ?cs \<Longrightarrow> ids (?cs ! k) = members pts (int k)"
    and old: "-1 \<le> ?old" "?old < int (length ?cs)"
    using inv i by (auto simp: s km_inv_def km_part_def)
  have pd: "point_dims d ?q" using inv pts by (auto simp: s km_inv_def km_dims_def setCluster_def point_dims_def)
  have cd: "cluster_dims d (?cs ! k)" if "k < length ?cs" for k using inv that by (auto simp: s km_inv_def km_dims_def)
  have len: "length cs1 = length ?cs" "length cs2 = length ?cs" by (auto simp: cs1_def cs2_def)
  have mv: "move_point s (int i) near = Some (km\<lparr>km_clusters := cs2\<rparr>, pts[i := ?q])"
    using pts old near by (auto simp: s move_point_def at_def upd_def cs1_def cs2_def nat_less_iff)
  have rem: "ids (snd (removePoint c x)) = ids c - {#x#}" "central_values (snd (removePoint c x)) = central_values c"
    "set (cl_points (snd (removePoint c x))) \<subseteq> set (cl_points c)" for c :: "'a kcluster" and x
    using removePoint_ids [of c x] by (metis prod.collapse)+
  have c1: "ids (cs1 ! k) = (if int k = ?old then members pts (int k) - {#id_point ?p#} else members pts (int k))"
    "cluster_dims d (cs1 ! k)" "central_values (cs1 ! k) = central_values (?cs ! k)" if "k < length ?cs" for k
    using that old part [of k] cd [of k] rem(3) [of "?cs ! k" "id_point ?p"]
    by (auto simp: cs1_def nth_list_update rem(1,2) cluster_dims_def)
  have c2: "ids (cs2 ! k) = members (pts[i := ?q]) (int k)"
    "cluster_dims d (cs2 ! k)" "central_values (cs2 ! k) = central_values (?cs ! k)" if "k < length ?cs" for k
    using that near c1 [of k] members_move [OF pts, of near "int k"] ne pd len(1)
    by (auto simp: s cs2_def nth_list_update addPoint_ids cluster_dims_def setCluster_def)
       (auto simp: addPoint_def)
  have "map central_values cs2 = map central_values ?cs"
    using c2(3) len(2) by (intro nth_equalityI) auto
  moreover have "map f (pts[i := ?q]) = map f pts" if "f ?q = f ?p" for f :: "'a kpoint \<Rightarrow> 'b"
    using that pts by (simp add: map_update) (metis list_update_id nth_map)
  from this [of id_point] have "map id_point (pts[i := ?q]) = map id_point pts" by (simp add: setCluster_def)
  moreover have "map pt_values (pts[i := ?q]) = map pt_values pts"
    using pts by (simp add: map_update setCluster_def) (metis list_update_id nth_map)
  moreover have "\<forall>c\<in>set cs2. cluster_dims d c" using c2(2) len(2) by (auto simp: in_set_conv_nth)
  moreover have "\<forall>p\<in>set (pts[i := ?q]). point_dims d p \<and> -1 \<le> id_cluster p \<and> id_cluster p < int (length ?cs)"
    using inv near pd by (auto simp: s km_inv_def km_dims_def km_part_def setCluster_def
        dest!: set_update_subset_insert [THEN subsetD])
  ultimately show ?thesis
    using inv mv c2(1) len(2) by (auto simp: s km_inv_def km_dims_def km_part_def km_frame_def)
qed

subsection \<open>Assigning all points\<close>

lemma distance_sum_cong:
  "central_values c' = central_values c \<Longrightarrow> pt_values p' = pt_values p \<Longrightarrow>
   distance_sum fp c' p' js acc = distance_sum fp c p js acc"
proof (induction js arbitrary: acc)
  case (Cons j js)
  then have "distance_sum fp c' p' js = distance_sum fp c p js" by (simp add: fun_eq_iff)
  with Cons.prems show ?case by (simp add: getCentralValue_def getValue_def)
qed simp

lemma center_distance_cong:
  assumes "map central_values (km_clusters km') = map central_values (km_clusters km)"
    and "km_total_values km' = km_total_values km" "pt_values p' = pt_values p"
  shows "center_distance fp km' p' i = center_distance fp km p i"
proof -
  have len: "length (km_clusters km') = length (km_clusters km)" using assms(1) by (metis length_map)
  have "central_values (km_clusters km' ! nat i) = central_values (km_clusters km ! nat i)"
    if "in_range i (length (km_clusters km))" using assms(1) len that by (metis nth_map nat_less_iff)
  with len assms(2,3) distance_sum_cong [of "km_clusters km' ! nat i" "km_clusters km ! nat i" p' p]
  show ?thesis by (auto simp: center_distance_def at_def)
qed

lemma nearest_cong:
  assumes "map central_values (km_clusters km') = map central_values (km_clusters km)"
    and "km_total_values km' = km_total_values km" "pt_values p' = pt_values p" "km_K km' = km_K km"
  shows "getIDNearestCenter fp km' p' = getIDNearestCenter fp km p"
proof -
  have d: "center_distance fp km' p' i = center_distance fp km p i" for i
    by (rule center_distance_cong [OF assms(1-3)])
  have "nearest_loop fp km' p' is m b = nearest_loop fp km p is m b" for "is" m b
    by (induction "is" arbitrary: m b) (simp_all add: d cong: if_cong)
  with d assms(4) show ?thesis by (simp add: getIDNearestCenter_def)
qed

definition centers_full :: "'d km_state \<Rightarrow> bool" where
  "centers_full s \<longleftrightarrow> 0 < km_K (fst s) \<and> length (km_clusters (fst s)) = nat (km_K (fst s))"

definition same_centers :: "'d km_state \<Rightarrow> 'd km_state \<Rightarrow> bool" where
  "same_centers s s' \<longleftrightarrow> map central_values (km_clusters (fst s')) = map central_values (km_clusters (fst s))"

lemma full_frame: "centers_full s \<Longrightarrow> km_frame s s' \<Longrightarrow> same_centers s s' \<Longrightarrow> centers_full s'"
  unfolding centers_full_def km_frame_def same_centers_def by (metis length_map)

text \<open>Each point processed is in the cluster of its nearest center, the others are untouched.\<close>

definition assigned :: "'d fp \<Rightarrow> nat list \<Rightarrow> 'd km_state \<Rightarrow> 'd km_state \<Rightarrow> bool" where
  "assigned fp is s s' \<longleftrightarrow>
     (\<forall>i\<in>set is. getIDNearestCenter fp (fst s) (snd s ! i) = Some (id_cluster (snd s' ! i)))
     \<and> (\<forall>i < length (snd s). i \<notin> set is \<longrightarrow> snd s' ! i = snd s ! i)"

lemma frame_values: "km_frame s s' \<Longrightarrow> i < length (snd s) \<Longrightarrow> pt_values (snd s' ! i) = pt_values (snd s ! i)"
  using km_frame_length [of s s'] unfolding km_frame_def by (metis nth_map)

lemma nearest_frame:
  assumes "km_frame s s'" "same_centers s s'" "i < length (snd s)"
  shows "getIDNearestCenter fp (fst s') (snd s' ! i) = getIDNearestCenter fp (fst s) (snd s ! i)"
  using assms frame_values [OF assms(1,3)] by (intro nearest_cong) (auto simp: km_frame_def same_centers_def)

lemma assign_points_ok:
  assumes "km_inv d s" "centers_full s" "\<forall>i\<in>set is. i < length (snd s)"
  shows "\<exists>s' don'. assign_points fp (map int is) s don = Some (s', don') \<and> km_inv d s' \<and> km_frame s s'
     \<and> same_centers s s' \<and> assigned fp is s s' \<and> (don' \<longrightarrow> don \<and> s' = s)"
  using assms
proof (induction "is" arbitrary: s don)
  case Nil
  then show ?case by (simp add: same_centers_def assigned_def)
next
  case (Cons i "is")
  have i: "i < length (snd s)" using Cons.prems(3) by simp
  have at: "at (snd s) (int i) = Some (snd s ! i)" using i by (simp add: at_def)
  have pd: "point_dims d (snd s ! i)" and dims: "km_dims d s"
    using Cons.prems(1) i by (auto simp: km_inv_def km_dims_def)
  obtain r where r: "getIDNearestCenter fp (fst s) (snd s ! i) = Some r" "0 \<le> r" "r < km_K (fst s)"
    using nearest_total [OF dims pd] Cons.prems(2) by (auto simp: centers_full_def)
  show ?case
  proof (cases "id_cluster (snd s ! i) = r")
    case True
    from Cons.IH [OF Cons.prems(1,2)] Cons.prems(3) obtain s' don'
      where IH: "assign_points fp (map int is) s don = Some (s', don')" "km_inv d s'" "km_frame s s'"
        "same_centers s s'" "assigned fp is s s'" "don' \<longrightarrow> don \<and> s' = s" by fastforce
    have "assigned fp (i # is) s s'"
      using IH(5) r(1) True i by (cases "i \<in> set is") (auto simp: assigned_def)
    with IH at r(1) True show ?thesis by simp
  next
    case False
    have lenc: "r < int (length (km_clusters (fst s)))" using r Cons.prems(2) by (simp add: centers_full_def)
    obtain s1 where s1: "move_point s (int i) r = Some s1" "km_inv d s1" "km_frame s s1"
      "snd s1 = (snd s)[i := setCluster (snd s ! i) r]" "same_centers s s1"
      using move_point_ok [OF Cons.prems(1) i r(2) lenc False] by (auto simp: same_centers_def)
    have len1: "length (snd s1) = length (snd s)" by (simp add: s1(4))
    from Cons.IH [OF s1(2) full_frame [OF Cons.prems(2) s1(3,5)], of False] Cons.prems(3) len1 obtain s' don'
      where IH: "assign_points fp (map int is) s1 False = Some (s', don')" "km_inv d s'" "km_frame s1 s'"
        "same_centers s1 s'" "assigned fp is s1 s'" "don' \<longrightarrow> False \<and> s' = s1" by auto
    have "assigned fp (i # is) s s'"
      unfolding assigned_def
    proof (intro conjI ballI allI impI)
      fix k assume k: "k \<in> set (i # is)"
      then have kl: "k < length (snd s)" using Cons.prems(3) by auto
      show "getIDNearestCenter fp (fst s) (snd s ! k) = Some (id_cluster (snd s' ! k))"
      proof (cases "k \<in> set is")
        case True
        with IH(5) nearest_frame [OF s1(3,5) kl, of fp] show ?thesis by (auto simp: assigned_def)
      next
        case False
        with k have "k = i" by simp
        with False IH(5) i len1 r(1) s1(4) show ?thesis by (simp add: assigned_def setCluster_def)
      qed
    next
      fix k assume "k < length (snd s)" "k \<notin> set (i # is)"
      with IH(5) len1 s1(4) show "snd s' ! k = snd s ! k" by (simp add: assigned_def)
    qed
    moreover have "km_frame s s'" by (rule km_frame_trans [OF s1(3) IH(3)])
    moreover have "same_centers s s'" using s1(5) IH(4) by (simp add: same_centers_def)
    ultimately show ?thesis using IH at r(1) False s1(1) by (intro exI [of _ s'] exI [of _ False]) simp
  qed
qed

subsection \<open>New centers\<close>

definition mean :: "'d fp \<Rightarrow> 'd kcluster \<Rightarrow> nat \<Rightarrow> 'd" where
  "mean fp c j = fp_div_int fp (foldl (fp_add fp) (fp_zero fp) (map (\<lambda>p. pt_values p ! j) (cl_points c)))
     (getTotalPoints c)"

lemma sum_coordinate_eq:
  assumes "\<forall>p\<in>set (cl_points c). length (pt_values p) = d" "j < d" "\<forall>k\<in>set ks. k < length (cl_points c)"
  shows "sum_coordinate fp c (int j) (map int ks) acc =
    Some (foldl (fp_add fp) acc (map (\<lambda>k. pt_values (cl_points c ! k) ! j) ks))"
  using assms(3)
proof (induction ks arbitrary: acc)
  case (Cons k ks)
  have "length (pt_values (cl_points c ! k)) = d" using assms(1) Cons.prems by auto
  with Cons assms(2) show ?case by (simp add: getPoint_def getValue_def at_def)
qed simp

lemma recenter_ok:
  assumes "cluster_dims d c" "\<forall>j\<in>set js. j < d"
  shows "\<exists>c'. recenter fp c (map int js) = Some c' \<and> cluster_dims d c' \<and> cl_points c' = cl_points c
     \<and> (cl_points c \<noteq> [] \<longrightarrow> (\<forall>j < d. central_values c' ! j = (if j \<in> set js then mean fp c j else central_values c ! j)))"
  using assms
proof (induction js arbitrary: c)
  case (Cons j js)
  show ?case
  proof (cases "cl_points c = []")
    case True
    then have "recenter fp c (map int (j # js)) = recenter fp c (map int js)" by (simp add: getTotalPoints_def)
    with Cons.IH [OF Cons.prems(1)] Cons.prems(2) True show ?thesis by auto
  next
    case False
    let ?v = "mean fp c j" and ?c = "c\<lparr>central_values := (central_values c)[j := mean fp c j]\<rparr>"
    have j: "j < d" "length (central_values c) = d" using Cons.prems by (auto simp: cluster_dims_def)
    have "map (\<lambda>k. pt_values (cl_points c ! k) ! j) [0..<length (cl_points c)] = map (\<lambda>p. pt_values p ! j) (cl_points c)"
      by (rule nth_equalityI) auto
    then have "sum_coordinate fp c (int j) (map int [0..<nat (getTotalPoints c)]) (fp_zero fp) =
        Some (foldl (fp_add fp) (fp_zero fp) (map (\<lambda>p. pt_values p ! j) (cl_points c)))"
      using sum_coordinate_eq [of c d j "[0..<length (cl_points c)]" fp "fp_zero fp"] Cons.prems j(1)
      by (simp add: getTotalPoints_def cluster_dims_def point_dims_def)
    then have step: "recenter fp c (map int (j # js)) = recenter fp ?c (map int js)"
      using False j by (simp add: getTotalPoints_def setCentralValue_def upd_def mean_def)
    have "cluster_dims d ?c" using Cons.prems(1) by (simp add: cluster_dims_def)
    moreover have "mean fp ?c k = mean fp c k" for k by (simp add: mean_def getTotalPoints_def)
    ultimately show ?thesis
      using Cons.IH [of ?c] Cons.prems(2) False j step by (auto simp: nth_list_update)
  qed
qed simp

definition recentered :: "'d fp \<Rightarrow> nat \<Rightarrow> 'd kcluster \<Rightarrow> 'd kcluster \<Rightarrow> bool" where
  "recentered fp d c c' \<longleftrightarrow> cl_points c' = cl_points c
     \<and> (cl_points c \<noteq> [] \<longrightarrow> central_values c' = map (mean fp c) [0..<d])"

lemma recenter_all_ok:
  assumes "\<forall>c\<in>set (km_clusters km). cluster_dims d c" "km_total_values km = int d"
    and "distinct is" "\<forall>i\<in>set is. i < length (km_clusters km)"
  shows "\<exists>km'. recenter_all fp (map int is) km = Some km' \<and> (\<exists>cs. km' = km\<lparr>km_clusters := cs\<rparr>)
     \<and> (\<forall>c\<in>set (km_clusters km'). cluster_dims d c) \<and> length (km_clusters km') = length (km_clusters km)
     \<and> (\<forall>i < length (km_clusters km). if i \<in> set is then recentered fp d (km_clusters km ! i) (km_clusters km' ! i)
          else km_clusters km' ! i = km_clusters km ! i)"
  using assms
proof (induction "is" arbitrary: km)
  case Nil
  then show ?case by (simp, intro exI [of _ "km_clusters km"]) simp
next
  case (Cons i "is")
  let ?c = "km_clusters km ! i"
  have i: "i < length (km_clusters km)" using Cons.prems by simp
  have cd: "cluster_dims d ?c" using Cons.prems(1) i by simp
  obtain c' where c': "recenter fp ?c (map int [0..<d]) = Some c'" "cluster_dims d c'" "cl_points c' = cl_points ?c"
    "cl_points ?c \<noteq> [] \<longrightarrow> (\<forall>j < d. central_values c' ! j = mean fp ?c j)"
    using recenter_ok [OF cd, of "[0..<d]" fp] by auto
  have rec: "recentered fp d ?c c'"
    using c' by (auto simp: recentered_def cluster_dims_def intro!: nth_equalityI)
  let ?km = "km\<lparr>km_clusters := (km_clusters km)[i := c']\<rparr>"
  have "\<forall>c\<in>set (km_clusters ?km). cluster_dims d c"
    using Cons.prems(1) c'(2) by (auto dest!: set_update_subset_insert [THEN subsetD])
  from Cons.IH [OF this] Cons.prems obtain km' cs where IH: "recenter_all fp (map int is) ?km = Some km'"
    "km' = km\<lparr>km_clusters := cs\<rparr>" "\<forall>c\<in>set (km_clusters km'). cluster_dims d c"
    "length (km_clusters km') = length (km_clusters km)"
    "\<forall>k < length (km_clusters km). if k \<in> set is then recentered fp d (km_clusters ?km ! k) (km_clusters km' ! k)
        else km_clusters km' ! k = km_clusters ?km ! k" by auto
  have "recenter_all fp (map int (i # is)) km = Some km'"
    using IH(1) c'(1) i Cons.prems(2) by (simp add: at_def upd_def)
  moreover have "\<forall>k < length (km_clusters km). if k \<in> set (i # is) then recentered fp d (km_clusters km ! k) (km_clusters km' ! k)
        else km_clusters km' ! k = km_clusters km ! k"
  proof (intro allI impI)
    fix k assume "k < length (km_clusters km)"
    with IH(5) Cons.prems(3) rec i show "if k \<in> set (i # is) then recentered fp d (km_clusters km ! k) (km_clusters km' ! k)
        else km_clusters km' ! k = km_clusters km ! k" by (cases "k = i") auto
  qed
  ultimately show ?case using IH(2-4) by blast
qed

subsection \<open>The main loop\<close>

lemma recentered_ids: "recentered fp d c c' \<Longrightarrow> ids c' = ids c"
  by (simp add: recentered_def ids_def)

lemma iterate_ok:
  assumes inv: "km_inv d s" and full: "centers_full s"
  shows "\<exists>s' don. iterate fp s = Some (s', don) \<and> km_inv d s' \<and> km_frame s s' \<and> centers_full s'
     \<and> (\<forall>i < length (snd s). getIDNearestCenter fp (fst s) (snd s ! i) = Some (id_cluster (snd s' ! i)))
     \<and> (\<forall>c\<in>set (km_clusters (fst s')). cl_points c \<noteq> [] \<longrightarrow> central_values c = map (mean fp c) [0..<d])
     \<and> (don \<longrightarrow> snd s' = snd s)"
proof -
  have n: "nat (km_total_points (fst s)) = length (snd s)" using inv by (simp add: km_inv_def km_dims_def)
  obtain t don where t: "assign_points fp (map int [0..<length (snd s)]) s True = Some (t, don)" "km_inv d t" "km_frame s t"
    "same_centers s t" "assigned fp [0..<length (snd s)] s t" "don \<longrightarrow> t = s"
    using assign_points_ok [OF inv full, of "[0..<length (snd s)]" fp True] by auto
  have full': "centers_full t" by (rule full_frame [OF full t(3,4)])
  then have lk: "length (km_clusters (fst t)) = nat (km_K (fst t))" by (simp add: centers_full_def)
  obtain km cs where km: "recenter_all fp (map int [0..<nat (km_K (fst t))]) (fst t) = Some km"
    "km = (fst t)\<lparr>km_clusters := cs\<rparr>" "\<forall>c\<in>set cs. cluster_dims d c"
    "length cs = length (km_clusters (fst t))"
    "\<forall>i < length cs. recentered fp d (km_clusters (fst t) ! i) (cs ! i)"
    using recenter_all_ok [of "fst t" d "[0..<nat (km_K (fst t))]" fp] t(2) lk
    by (auto simp: km_inv_def km_dims_def)
  have it: "iterate fp s = Some ((km, snd t), don)" by (simp add: iterate_def n t(1) km(1))
  have "km_inv d (km, snd t)"
    using t(2) km recentered_ids by (fastforce simp: km_inv_def km_dims_def km_part_def)
  moreover have "km_frame s (km, snd t)" using t(3) km(2) by (simp add: km_frame_def)
  moreover have "centers_full (km, snd t)" using full' km by (simp add: centers_full_def)
  moreover have "central_values c = map (mean fp c) [0..<d]" if mem: "c \<in> set cs" and ne: "cl_points c \<noteq> []" for c
  proof -
    obtain i where i: "i < length cs" "c = cs ! i" using mem by (auto simp: in_set_conv_nth)
    with km(5) have r: "recentered fp d (km_clusters (fst t) ! i) c" by auto
    then have "mean fp (km_clusters (fst t) ! i) = mean fp c"
      by (simp add: recentered_def mean_def fun_eq_iff getTotalPoints_def)
    with r ne show ?thesis by (simp add: recentered_def)
  qed
  ultimately show ?thesis
    using it t(5,6) km(2) by (intro exI [of _ "(km, snd t)"] exI [of _ don]) (auto simp: assigned_def)
qed

lemma km_loop_ok:
  assumes "km_inv d s" "centers_full s"
  shows "\<exists>s' iter'. km_loop fp m iter s = Some (s', iter') \<and> km_inv d s' \<and> km_frame s s' \<and> centers_full s'
     \<and> (\<forall>p\<in>set (snd s'). 0 \<le> id_cluster p) \<and> iter \<le> iter' \<and> iter' \<le> max iter m"
  using assms
proof (induction fp m iter s rule: km_loop.induct)
  case (1 fp m iter s)
  obtain t don where t: "iterate fp s = Some (t, don)" "km_inv d t" "km_frame s t" "centers_full t"
    "\<And>i. i < length (snd s) \<Longrightarrow> getIDNearestCenter fp (fst s) (snd s ! i) = Some (id_cluster (snd t ! i))"
    using iterate_ok [OF "1.prems", of fp] by auto
  have pos: "0 \<le> id_cluster (snd t ! i)" if "i < length (snd s)" for i
    using nearest_total [of d s "snd s ! i" fp] t(5) [OF that] "1.prems" that
    by (auto simp: km_inv_def km_dims_def centers_full_def)
  show ?case
  proof (cases "don \<or> iter \<ge> m")
    case True
    with t pos km_frame_length [OF t(3)] show ?thesis
      by (subst km_loop.simps) (auto simp: in_set_conv_nth)
  next
    case False
    from "1.IH" [OF t(1) refl _ t(2,4)] False obtain u k where u: "km_loop fp m (iter + 1) t = Some (u, k)" "km_inv d u"
      "km_frame t u" "centers_full u" "\<forall>p\<in>set (snd u). 0 \<le> id_cluster p" "iter + 1 \<le> k" "k \<le> max (iter + 1) m"
      by auto
    have "km_loop fp m iter s = Some (u, k)" using t(1) False u(1) by (subst km_loop.simps) simp
    with u False km_frame_trans [OF t(3) u(3)] show ?thesis by (intro exI [of _ u] exI [of _ k]) auto
  qed
qed

subsection \<open>Choosing the centers\<close>

definition residues :: "int \<Rightarrow> int list \<Rightarrow> int set" where
  "residues n rs = (\<lambda>r. r mod n) ` set rs"

lemma fresh_index_ok:
  assumes "residues n rs - set proh \<noteq> {}" "0 < n"
  shows "\<exists>k rs'. fresh_index n proh rs = Some (k, rs') \<and> k \<notin> set proh \<and> 0 \<le> k \<and> k < n
     \<and> residues n rs - set proh \<subseteq> insert k (residues n rs')"
  using assms(1)
proof (induction rs)
  case (Cons r rs)
  show ?case
  proof (cases "r mod n \<in> set proh")
    case True
    then have "residues n (r # rs) - set proh = residues n rs - set proh" by (auto simp: residues_def)
    with Cons True show ?thesis by auto
  next
    case False
    then have "fresh_index n proh (r # rs) = Some (r mod n, rs)" by simp
    moreover have "residues n (r # rs) - set proh \<subseteq> insert (r mod n) (residues n rs)" by (auto simp: residues_def)
    ultimately show ?thesis using False assms(2) by (intro exI [of _ "r mod n"] exI [of _ rs]) auto
  qed
qed (simp add: residues_def)

lemma copy_values_ok: "length (pt_values p) = d \<Longrightarrow> \<forall>i\<in>set is. i < d \<Longrightarrow> \<exists>vs. copy_values p (map int is) = Some vs \<and> length vs = length is"
  by (induction "is") (auto simp: getValue_def at_def)

lemma take_center_ok:
  assumes inv: "km_inv d s" and k: "in_range k (length (snd s))" "id_cluster (snd s ! nat k) = -1"
    and i: "i = length (km_clusters (fst s))"
  shows "\<exists>s'. take_center s (int i) k = Some s' \<and> km_inv d s' \<and> km_frame s s'
     \<and> length (km_clusters (fst s')) = Suc i \<and> snd s' = (snd s)[nat k := setCluster (snd s ! nat k) (int i)]"
proof -
  obtain km pts where s: "s = (km, pts)" by (cases s)
  let ?p = "pts ! nat k" and ?k = "nat k"
  let ?q = "setCluster ?p (int i)"
  have kl: "?k < length pts" using k by (auto simp: s nat_less_iff)
  have pd: "point_dims d ?q" using inv kl by (auto simp: s km_inv_def km_dims_def setCluster_def point_dims_def)
  obtain vs where vs: "copy_values ?q (map int [0..<d]) = Some vs" "length vs = d"
    using copy_values_ok [of ?q d "[0..<d]"] pd by (auto simp: point_dims_def)
  define c where "c = \<lparr>cl_id = int i, central_values = vs, cl_points = [?q]\<rparr>"
  have c: "Cluster_new (int i) ?q = Some c" using vs(1) pd by (simp add: Cluster_new_def point_dims_def c_def)
  have tc: "take_center s (int i) k = Some (km\<lparr>km_clusters := km_clusters km @ [c]\<rparr>, pts[?k := ?q])"
    using k(1) c by (simp add: s take_center_def at_def upd_def)
  have cd: "cluster_dims d c" using vs(2) pd by (simp add: cluster_dims_def c_def)
  have none: "members pts (int i) = {#}" using inv i by (auto simp: s km_inv_def km_part_def members_def filter_mset_eq_mempty_iff)
  have ne: "id_cluster ?p \<noteq> int i" using k(2) by (simp add: s)
  have mem: "members (pts[?k := ?q]) (int j) = (if j = i then {#id_point ?p#} else members pts (int j))" if "j \<le> i" for j
    using members_move [OF kl ne, of "int j"] none k(2) by (auto simp: s)
  have "ids ((km_clusters km @ [c]) ! j) = members (pts[?k := ?q]) (int j)" if "j < Suc i" for j
    using that inv i mem [of j] by (auto simp: s km_inv_def km_part_def nth_append less_Suc_eq ids_def c_def setCluster_def)
  moreover have "map id_point (pts[?k := ?q]) = map id_point pts" "map pt_values (pts[?k := ?q]) = map pt_values pts"
    using kl by (simp_all add: map_update setCluster_def) (metis list_update_id nth_map)+
  moreover have "point_dims d p \<and> -1 \<le> id_cluster p \<and> id_cluster p < int (Suc i)" if "p \<in> set (pts[?k := ?q])" for p
    using that inv pd i by (auto simp: s km_inv_def km_dims_def km_part_def setCluster_def
        dest!: set_update_subset_insert [THEN subsetD])
  ultimately show ?thesis
    using tc inv i cd by (auto simp: s km_inv_def km_dims_def km_part_def km_frame_def)
qed

lemma choose_centers_ok:
  assumes "km_inv d s" "0 < length (snd s)" "length (km_clusters (fst s)) = i" "i \<le> k"
    and "\<forall>j < length (snd s). int j \<notin> set proh \<longrightarrow> id_cluster (snd s ! j) = -1"
    and "k - i \<le> card (residues (int (length (snd s))) rs - set proh)"
  shows "\<exists>s' rs'. choose_centers (map int [i..<k]) s proh rs = Done (s', rs') \<and> km_inv d s' \<and> km_frame s s'
     \<and> length (km_clusters (fst s')) = k"
  using assms
proof (induction "k - i" arbitrary: s i proh rs)
  case 0
  then show ?case by simp
next
  case (Suc m)
  let ?n = "int (length (snd s))"
  have up: "[i..<k] = i # [Suc i..<k]" using Suc.hyps(2) by (simp add: upt_conv_Cons)
  have fin: "finite (residues ?n rs)" for rs by (simp add: residues_def)
  have "0 < card (residues ?n rs - set proh)" using Suc.prems(6) Suc.hyps(2) by simp
  then have "residues ?n rs - set proh \<noteq> {}" by (metis card.empty less_irrefl)
  from fresh_index_ok [OF this] Suc.prems(2) obtain x rs' where x: "fresh_index ?n proh rs = Some (x, rs')"
    "x \<notin> set proh" "0 \<le> x" "x < ?n" "residues ?n rs - set proh \<subseteq> insert x (residues ?n rs')" by auto
  have "id_cluster (snd s ! nat x) = -1" using Suc.prems(5) x(2-4) by (simp add: nat_less_iff)
  with take_center_ok [OF Suc.prems(1) _ _ Suc.prems(3) [symmetric], of x] x(3,4) obtain s1
    where s1: "take_center s (int i) x = Some s1" "km_inv d s1" "km_frame s s1" "length (km_clusters (fst s1)) = Suc i"
      "snd s1 = (snd s)[nat x := setCluster (snd s ! nat x) (int i)]" by auto
  have len: "length (snd s1) = length (snd s)" by (simp add: s1(5))
  have "residues ?n rs - set proh - {x} \<subseteq> residues ?n rs' - set (proh @ [x])" using x(5) by auto
  then have "card (residues ?n rs - set proh - {x}) \<le> card (residues ?n rs' - set (proh @ [x]))"
    using fin by (intro card_mono) auto
  moreover have "card (residues ?n rs - set proh) \<le> Suc (card (residues ?n rs - set proh - {x}))"
    using card_Suc_Diff1 [of "residues ?n rs - set proh" x] fin [of rs] by (cases "x \<in> residues ?n rs - set proh") auto
  ultimately have card: "k - Suc i \<le> card (residues ?n rs' - set (proh @ [x]))" using Suc.prems(6) by simp
  have "\<forall>j < length (snd s1). int j \<notin> set (proh @ [x]) \<longrightarrow> id_cluster (snd s1 ! j) = -1"
    using Suc.prems(5) x(3) len by (auto simp: s1(5) nth_list_update)
  moreover have "m = k - Suc i" "Suc i \<le> k" "0 < length (snd s1)" using Suc.hyps(2) Suc.prems(2) len by auto
  moreover have "k - Suc i \<le> card (residues (int (length (snd s1))) rs' - set (proh @ [x]))" using card by (simp only: len)
  ultimately obtain s' rs2
    where IH: "choose_centers (map int [Suc i..<k]) s1 (proh @ [x]) rs' = Done (s', rs2)" "km_inv d s'" "km_frame s1 s'"
      "length (km_clusters (fst s')) = k" using Suc.hyps(1) [OF _ s1(2) _ s1(4)] by blast
  have tp: "km_total_points (fst s) = ?n" using Suc.prems(1) by (simp add: km_inv_def km_dims_def)
  have "choose_centers (map int [i..<k]) s proh rs = Done (s', rs2)"
    unfolding up using x(1) s1(1) IH(1) tp by simp
  with IH km_frame_trans [OF s1(3) IH(3)] show ?case by auto
qed

subsection \<open>run\<close>

definition fresh_input :: "nat \<Rightarrow> 'd km_state \<Rightarrow> bool" where
  "fresh_input d s \<longleftrightarrow> km_dims d s \<and> km_clusters (fst s) = [] \<and> (\<forall>p\<in>set (snd s). id_cluster p = -1)"

lemma run_ok:
  assumes "fresh_input d s" "0 < km_K (fst s)" "km_K (fst s) \<le> km_total_points (fst s)"
    and "nat (km_K (fst s)) \<le> card (residues (km_total_points (fst s)) rs)"
  shows "\<exists>s' iter. KMeans_run fp rs s = Done (s', iter) \<and> km_inv d s' \<and> km_frame s s' \<and> centers_full s'
     \<and> (\<forall>p\<in>set (snd s'). 0 \<le> id_cluster p) \<and> 1 \<le> iter \<and> iter \<le> max 1 (km_max_iterations (fst s))"
proof -
  have inv: "km_inv d s" using assms(1) by (auto simp: fresh_input_def km_inv_def km_part_def)
  have tp: "km_total_points (fst s) = int (length (snd s))" using assms(1) by (simp add: fresh_input_def km_dims_def)
  have "\<exists>s' rs'. choose_centers (map int [0..<nat (km_K (fst s))]) s [] rs = Done (s', rs') \<and> km_inv d s' \<and> km_frame s s'
     \<and> length (km_clusters (fst s')) = nat (km_K (fst s))"
    using assms tp by (intro choose_centers_ok [OF inv]) (auto simp: fresh_input_def)
  then obtain t rs' where t: "choose_centers (map int [0..<nat (km_K (fst s))]) s [] rs = Done (t, rs')" "km_inv d t"
    "km_frame s t" "length (km_clusters (fst t)) = nat (km_K (fst s))" by blast
  have full: "centers_full t" using t(3,4) assms(2) by (simp add: centers_full_def km_frame_def)
  obtain u k where u: "km_loop fp (km_max_iterations (fst t)) 1 t = Some (u, k)" "km_inv d u" "km_frame t u" "centers_full u"
    "\<forall>p\<in>set (snd u). 0 \<le> id_cluster p" "1 \<le> k" "k \<le> max 1 (km_max_iterations (fst t))"
    using km_loop_ok [OF t(2) full, of fp "km_max_iterations (fst t)" 1] by auto
  have "km_max_iterations (fst t) = km_max_iterations (fst s)" using t(3) by (simp add: km_frame_def)
  with t(1) u assms(3) km_frame_trans [OF t(3) u(3)] show ?thesis by (auto simp: KMeans_run_def)
qed

end
