(* ===== verification/KMeansPar.thy ===== *)
theory KMeansPar
  imports KMeansInv
begin

text \<open>
  The parallel clustering program K-Means/kmeans475-paralell.cpp.  It differs from the serial one
  in the loop that chooses the centers (\<open>i--\<close> in place of an inner loop), in rounding differences
  and sums to \<open>int\<close>, and in the two parallel phases: \<open>parallel_for\<close> over the points, each moving
  itself under the locks of its old and its new cluster, and \<open>parallel_reduce\<close> over the points of a
  cluster, which adds up the sums of the ranges it split the points into.  A run of \<open>parallel_for\<close>
  is a schedule, the list of the points whose task takes the next step; a run of
  \<open>parallel_reduce\<close> is the list of the ranges.
\<close>

record 'd conv =
  fp_trunc :: "'d \<Rightarrow> int option"
  fp_of_int :: "int \<Rightarrow> 'd"

subsection \<open>The nearest center\<close>

fun par_distance_sum :: "'d fp \<Rightarrow> 'd conv \<Rightarrow> 'd kcluster \<Rightarrow> 'd kpoint \<Rightarrow> int list \<Rightarrow> 'd \<Rightarrow> 'd option" where
  "par_distance_sum fp cv c p [] acc = Some acc"
| "par_distance_sum fp cv c p (j # js) acc =
     do { a \<leftarrow> getCentralValue c j;
          b \<leftarrow> getValue p j;
          val \<leftarrow> fp_trunc cv (fp_sub fp a b);
          sq \<leftarrow> as_int (val * val);
          par_distance_sum fp cv c p js (fp_add fp acc (fp_of_int cv sq)) }"

definition par_center_distance :: "'d fp \<Rightarrow> 'd conv \<Rightarrow> 'd kmeans \<Rightarrow> 'd kpoint \<Rightarrow> int \<Rightarrow> 'd option" where
  "par_center_distance fp cv km p i =
     do { c \<leftarrow> at (km_clusters km) i;
          acc \<leftarrow> par_distance_sum fp cv c p (map int [0..<nat (km_total_values km)]) (fp_zero fp);
          Some (fp_sqrt fp acc) }"

fun par_nearest_loop :: "'d fp \<Rightarrow> 'd conv \<Rightarrow> 'd kmeans \<Rightarrow> 'd kpoint \<Rightarrow> int list \<Rightarrow> 'd \<Rightarrow> int \<Rightarrow> int option" where
  "par_nearest_loop fp cv km p [] min_dist best = Some best"
| "par_nearest_loop fp cv km p (i # is) min_dist best =
     do { dist \<leftarrow> par_center_distance fp cv km p i;
          if fp_less fp dist min_dist then par_nearest_loop fp cv km p is dist i
          else par_nearest_loop fp cv km p is min_dist best }"

definition par_getIDNearestCenter :: "'d fp \<Rightarrow> 'd conv \<Rightarrow> 'd kmeans \<Rightarrow> 'd kpoint \<Rightarrow> int option" where
  "par_getIDNearestCenter fp cv km p =
     do { min_dist \<leftarrow> par_center_distance fp cv km p 0;
          par_nearest_loop fp cv km p (map int [1..<nat (km_K km)]) min_dist 0 }"

subsection \<open>Choosing the centers\<close>

fun par_choose :: "int \<Rightarrow> 'd km_state \<Rightarrow> int list \<Rightarrow> int list \<Rightarrow> ('d km_state \<times> int list) outcome" where
  "par_choose i s prohibited [] = (if i < km_K (fst s) then No_fuel else Done (s, []))"
| "par_choose i s prohibited (r # rs) =
     (if i < km_K (fst s) then
        let index_point = r mod km_total_points (fst s) in
        if index_point \<notin> set prohibited then
          (case take_center s i index_point of
             None \<Rightarrow> Fault
           | Some s' \<Rightarrow> par_choose (i + 1) s' (prohibited @ [index_point]) rs)
        else par_choose i s prohibited rs
      else Done (s, r # rs))"

subsection \<open>parallel_for\<close>

datatype task = K_start | K_remove int int | K_add int | K_end

record 'd par_state =
  ps_km :: "'d kmeans"
  ps_points :: "'d kpoint list"
  ps_tasks :: "task list"
  ps_done :: bool

definition safeRemovePoint :: "'d kmeans \<Rightarrow> int \<Rightarrow> int \<Rightarrow> 'd kmeans option" where
  "safeRemovePoint km k x =
     do { c \<leftarrow> at (km_clusters km) k;
          cs \<leftarrow> upd (km_clusters km) k (snd (removePoint c x));
          Some (km\<lparr>km_clusters := cs\<rparr>) }"

definition safeAddPoint :: "'d kmeans \<Rightarrow> int \<Rightarrow> 'd kpoint \<Rightarrow> 'd kmeans option" where
  "safeAddPoint km k p =
     do { c \<leftarrow> at (km_clusters km) k;
          cs \<leftarrow> upd (km_clusters km) k (addPoint c p);
          Some (km\<lparr>km_clusters := cs\<rparr>) }"

definition task_step :: "'d fp \<Rightarrow> 'd conv \<Rightarrow> 'd par_state \<Rightarrow> nat \<Rightarrow> 'd par_state option" where
  "task_step fp cv s i =
     do { p \<leftarrow> at (ps_points s) (int i);
          q \<leftarrow> at (ps_tasks s) (int i);
          (case q of
             K_start \<Rightarrow>
               do { near \<leftarrow> par_getIDNearestCenter fp cv (ps_km s) p;
                    Some (s\<lparr>ps_tasks := (ps_tasks s)[i :=
                      (if id_cluster p = near then K_end
                       else if id_cluster p \<noteq> -1 then K_remove (id_cluster p) near else K_add near)]\<rparr>) }
           | K_remove old near \<Rightarrow>
               do { km \<leftarrow> safeRemovePoint (ps_km s) old (id_point p);
                    Some (s\<lparr>ps_km := km, ps_tasks := (ps_tasks s)[i := K_add near]\<rparr>) }
           | K_add near \<Rightarrow>
               do { km \<leftarrow> safeAddPoint (ps_km s) near (setCluster p near);
                    Some (s\<lparr>ps_km := km, ps_points := (ps_points s)[i := setCluster p near],
                            ps_tasks := (ps_tasks s)[i := K_end], ps_done := False\<rparr>) }
           | K_end \<Rightarrow> Some s) }"

fun run_schedule :: "'d fp \<Rightarrow> 'd conv \<Rightarrow> nat list \<Rightarrow> 'd par_state \<Rightarrow> 'd par_state option" where
  "run_schedule fp cv [] s = Some s"
| "run_schedule fp cv (i # is) s = do { s \<leftarrow> task_step fp cv s i; run_schedule fp cv is s }"

definition par_start :: "'d km_state \<Rightarrow> 'd par_state" where
  "par_start s = \<lparr>ps_km = fst s, ps_points = snd s, ps_tasks = replicate (length (snd s)) K_start, ps_done = True\<rparr>"

subsection \<open>parallel_reduce\<close>

fun sum_range :: "'d fp \<Rightarrow> 'd conv \<Rightarrow> 'd kcluster \<Rightarrow> int \<Rightarrow> int list \<Rightarrow> int \<Rightarrow> int option" where
  "sum_range fp cv c j [] running_total = Some running_total"
| "sum_range fp cv c j (p # ps) running_total =
     do { q \<leftarrow> getPoint c p;
          v \<leftarrow> getValue q j;
          t \<leftarrow> fp_trunc cv (fp_add fp (fp_of_int cv running_total) v);
          sum_range fp cv c j ps t }"

fun reduce :: "'d fp \<Rightarrow> 'd conv \<Rightarrow> 'd kcluster \<Rightarrow> int \<Rightarrow> int list list \<Rightarrow> int option" where
  "reduce fp cv c j [] = Some 0"
| "reduce fp cv c j (r # rs) =
     do { a \<leftarrow> sum_range fp cv c j r 0; b \<leftarrow> reduce fp cv c j rs; as_int (a + b) }"

definition c_div :: "int \<Rightarrow> int \<Rightarrow> int" where
  "c_div a b = (if 0 \<le> a then a div b else - ((- a) div b))"

fun par_recenter :: "'d fp \<Rightarrow> 'd conv \<Rightarrow> (int \<Rightarrow> int list list) \<Rightarrow> 'd kcluster \<Rightarrow> int list \<Rightarrow> 'd kcluster option" where
  "par_recenter fp cv split c [] = Some c"
| "par_recenter fp cv split c (j # js) =
     do { let total = getTotalPoints c;
          c \<leftarrow> (if 0 < total then
                  do { acc \<leftarrow> reduce fp cv c j (split j);
                       setCentralValue c j (fp_of_int cv (c_div acc total)) }
                else Some c);
          par_recenter fp cv split c js }"

fun par_recenter_all :: "'d fp \<Rightarrow> 'd conv \<Rightarrow> (int \<Rightarrow> int \<Rightarrow> int list list) \<Rightarrow> int list \<Rightarrow> 'd kmeans \<Rightarrow> 'd kmeans option" where
  "par_recenter_all fp cv split [] km = Some km"
| "par_recenter_all fp cv split (i # is) km =
     do { c \<leftarrow> at (km_clusters km) i;
          c \<leftarrow> par_recenter fp cv (split i) c (map int [0..<nat (km_total_values km)]);
          cs \<leftarrow> upd (km_clusters km) i c;
          par_recenter_all fp cv split is (km\<lparr>km_clusters := cs\<rparr>) }"

text \<open>One iteration, and the loop with the schedule and the ranges of each iteration.\<close>

definition par_iterate :: "'d fp \<Rightarrow> 'd conv \<Rightarrow> nat list \<Rightarrow> (int \<Rightarrow> int \<Rightarrow> int list list) \<Rightarrow> 'd km_state \<Rightarrow> ('d km_state \<times> bool) option" where
  "par_iterate fp cv sched split s =
     do { t \<leftarrow> run_schedule fp cv sched (par_start s);
          km \<leftarrow> par_recenter_all fp cv split (map int [0..<nat (km_K (ps_km t))]) (ps_km t);
          Some ((km, ps_points t), ps_done t) }"

function par_loop ::
  "'d fp \<Rightarrow> 'd conv \<Rightarrow> (int \<Rightarrow> nat list) \<Rightarrow> (int \<Rightarrow> int \<Rightarrow> int \<Rightarrow> int list list) \<Rightarrow> int \<Rightarrow> int \<Rightarrow> 'd km_state \<Rightarrow> ('d km_state \<times> int) option" where
  "par_loop fp cv sched split max_iterations iter s =
     (case par_iterate fp cv (sched iter) (split iter) s of
        None \<Rightarrow> None
      | Some (s', don) \<Rightarrow>
          if don \<or> iter \<ge> max_iterations then Some (s', iter)
          else par_loop fp cv sched split max_iterations (iter + 1) s')"
  by pat_completeness auto
termination
  by (relation "measure (\<lambda>(fp, cv, sched, split, m, iter, s). nat (m - iter))") auto

declare par_loop.simps [simp del]

definition par_run ::
  "'d fp \<Rightarrow> 'd conv \<Rightarrow> (int \<Rightarrow> nat list) \<Rightarrow> (int \<Rightarrow> int \<Rightarrow> int \<Rightarrow> int list list) \<Rightarrow> int list \<Rightarrow> 'd km_state \<Rightarrow> ('d km_state \<times> int) outcome" where
  "par_run fp cv sched split rs s =
     (if km_K (fst s) > km_total_points (fst s) then Done (s, 0)
      else case par_choose 0 s [] rs of
             No_fuel \<Rightarrow> No_fuel
           | Fault \<Rightarrow> Fault
           | Done (s, rs') \<Rightarrow>
               (case par_loop fp cv sched split (km_max_iterations (fst s)) 1 s of None \<Rightarrow> Fault | Some r \<Rightarrow> Done r))"

subsection \<open>The two ways of choosing centers agree\<close>

lemma take_center_frame: "take_center s i k = Some s' \<Longrightarrow>
   km_K (fst s') = km_K (fst s) \<and> km_total_points (fst s') = km_total_points (fst s)"
  by (cases s) (auto simp: take_center_def)

lemma choose_skip:
  "i < k \<Longrightarrow> r mod km_total_points (fst s) \<in> set proh \<Longrightarrow>
   choose_centers (map int [i..<k]) s proh (r # rs) = choose_centers (map int [i..<k]) s proh rs"
  by (simp add: upt_conv_Cons)

lemma par_choose_eq:
  "k = nat (km_K (fst s)) \<Longrightarrow> par_choose (int i) s proh rs = choose_centers (map int [i..<k]) s proh rs"
proof (induction rs arbitrary: i s proh)
  case Nil
  show ?case
  proof (cases "i < k")
    case True
    then show ?thesis using Nil by (simp add: upt_conv_Cons)
  qed (use Nil in auto)
next
  case (Cons r rs)
  let ?x = "r mod km_total_points (fst s)"
  show ?case
  proof (cases "i < k")
    case False
    with Cons.prems have "\<not> int i < km_K (fst s)" "map int [i..<k] = []" by auto
    then show ?thesis by (simp only: par_choose.simps choose_centers.simps if_False)
  next
    case True
    then have iK: "int i < km_K (fst s)" using Cons.prems by simp
    show ?thesis
    proof (cases "?x \<in> set proh")
      case p: True
      with iK Cons.IH [OF Cons.prems, of i proh] choose_skip [OF True p, of rs] show ?thesis
        by (simp add: Let_def del: choose_centers.simps)
    next
      case p: False
      have up: "[i..<k] = i # [Suc i..<k]" using True by (simp add: upt_conv_Cons)
      show ?thesis
      proof (cases "take_center s (int i) ?x")
        case None
        with p iK show ?thesis by (simp add: up Let_def)
      next
        case (Some s')
        with take_center_frame [OF Some] Cons.prems have "k = nat (km_K (fst s'))" by simp
        from Cons.IH [OF this, of "Suc i"] p iK Some show ?thesis by (simp add: up Let_def add.commute)
      qed
    qed
  qed
qed

subsection \<open>Every schedule assigns the points alike\<close>

lemma par_distance_sum_cong:
  "central_values c' = central_values c \<Longrightarrow> par_distance_sum fp cv c' p js acc = par_distance_sum fp cv c p js acc"
proof (induction js arbitrary: acc)
  case (Cons j js)
  then have "par_distance_sum fp cv c' p js = par_distance_sum fp cv c p js" by (simp add: fun_eq_iff)
  with Cons.prems show ?case by (simp add: getCentralValue_def)
qed simp

lemma par_nearest_cong:
  assumes "map central_values cs = map central_values (km_clusters km)"
  shows "par_getIDNearestCenter fp cv (km\<lparr>km_clusters := cs\<rparr>) p = par_getIDNearestCenter fp cv km p"
proof -
  have len: "length cs = length (km_clusters km)" using assms by (metis length_map)
  have "central_values (cs ! nat i) = central_values (km_clusters km ! nat i)"
    if "in_range i (length (km_clusters km))" for i using assms len that by (metis nth_map nat_less_iff)
  then have d: "par_center_distance fp cv (km\<lparr>km_clusters := cs\<rparr>) p i = par_center_distance fp cv km p i" for i
    using len par_distance_sum_cong [of "cs ! nat i" "km_clusters km ! nat i" fp cv p]
    by (auto simp: par_center_distance_def at_def)
  have "par_nearest_loop fp cv (km\<lparr>km_clusters := cs\<rparr>) p is m b = par_nearest_loop fp cv km p is m b" for "is" m b
    by (induction "is" arbitrary: m b) (simp_all add: d cong: if_cong)
  with d show ?thesis by (simp add: par_getIDNearestCenter_def)
qed

fun place :: "'d kpoint \<times> task \<Rightarrow> int" where
  "place (p, K_add near) = -1"
| "place (p, q) = id_cluster p"

definition held :: "('d kpoint \<times> task) list \<Rightarrow> int \<Rightarrow> int multiset" where
  "held xs k = image_mset (\<lambda>x. id_point (fst x)) (filter_mset (\<lambda>x. place x = k) (mset xs))"

lemma held_update:
  assumes "i < length xs"
  shows "held (xs[i := y]) k + (if place (xs ! i) = k then {#id_point (fst (xs ! i))#} else {#}) =
   held xs k + (if place y = k then {#id_point (fst y)#} else {#})"
proof -
  have "mset (xs[i := y]) + {#xs ! i#} = mset xs + {#y#}" by (rule mset_update_nth [OF assms])
  then have "image_mset (\<lambda>x. id_point (fst x)) (filter_mset (\<lambda>x. place x = k) (mset (xs[i := y]) + {#xs ! i#})) =
      image_mset (\<lambda>x. id_point (fst x)) (filter_mset (\<lambda>x. place x = k) (mset xs + {#y#}))" by simp
  then show ?thesis by (simp add: held_def split: if_splits)
qed

text \<open>The state of a task, with the point as it was and the nearest center of its point.\<close>

fun task_ok :: "'d kpoint \<Rightarrow> int \<Rightarrow> 'd kpoint \<Rightarrow> task \<Rightarrow> bool" where
  "task_ok p0 near p K_start \<longleftrightarrow> p = p0"
| "task_ok p0 near p (K_remove old k) \<longleftrightarrow> p = p0 \<and> old = id_cluster p0 \<and> old \<noteq> -1 \<and> k = near \<and> near \<noteq> old"
| "task_ok p0 near p (K_add k) \<longleftrightarrow> p = p0 \<and> k = near \<and> near \<noteq> id_cluster p0"
| "task_ok p0 near p K_end \<longleftrightarrow> p = setCluster p0 near"

definition par_inv :: "'d kmeans \<Rightarrow> 'd kpoint list \<Rightarrow> (nat \<Rightarrow> int) \<Rightarrow> 'd par_state \<Rightarrow> bool" where
  "par_inv km pts near s \<longleftrightarrow>
     (\<exists>cs. ps_km s = km\<lparr>km_clusters := cs\<rparr> \<and> map central_values cs = map central_values (km_clusters km)
        \<and> (\<forall>k < length cs. ids (cs ! k) = held (zip (ps_points s) (ps_tasks s)) (int k)))
     \<and> length (ps_points s) = length pts \<and> length (ps_tasks s) = length pts
     \<and> (\<forall>i < length pts. task_ok (pts ! i) (near i) (ps_points s ! i) (ps_tasks s ! i))
     \<and> (ps_done s \<longleftrightarrow> (\<forall>i < length pts. ps_tasks s ! i = K_end \<longrightarrow> id_cluster (pts ! i) = near i))"

definition near_ok :: "'d fp \<Rightarrow> 'd conv \<Rightarrow> 'd kmeans \<Rightarrow> 'd kpoint list \<Rightarrow> (nat \<Rightarrow> int) \<Rightarrow> bool" where
  "near_ok fp cv km pts near \<longleftrightarrow>
     (\<forall>i < length pts. par_getIDNearestCenter fp cv km (pts ! i) = Some (near i) \<and> 0 \<le> near i
        \<and> near i < int (length (km_clusters km)) \<and> -1 \<le> id_cluster (pts ! i)
        \<and> id_cluster (pts ! i) < int (length (km_clusters km)))"

lemma setCluster_same: "id_cluster p = k \<Longrightarrow> setCluster p k = p"
  by (simp add: setCluster_def)

lemma task_step_ok:
  assumes inv: "par_inv km pts near s" and near: "near_ok fp cv km pts near" and i: "i < length pts"
  shows "\<exists>s'. task_step fp cv s i = Some s' \<and> par_inv km pts near s'"
proof -
  obtain cs where cs: "ps_km s = km\<lparr>km_clusters := cs\<rparr>" "map central_values cs = map central_values (km_clusters km)"
    "\<And>k. k < length cs \<Longrightarrow> ids (cs ! k) = held (zip (ps_points s) (ps_tasks s)) (int k)"
    and len: "length (ps_points s) = length pts" "length (ps_tasks s) = length pts"
    and ok: "\<And>k. k < length pts \<Longrightarrow> task_ok (pts ! k) (near k) (ps_points s ! k) (ps_tasks s ! k)"
    and don: "ps_done s \<longleftrightarrow> (\<forall>k < length pts. ps_tasks s ! k = K_end \<longrightarrow> id_cluster (pts ! k) = near k)"
    using inv by (auto simp: par_inv_def)
  let ?p = "ps_points s ! i" and ?q = "ps_tasks s ! i" and ?xs = "zip (ps_points s) (ps_tasks s)"
  have lc: "length cs = length (km_clusters km)" using cs(2) by (metis length_map)
  have n: "par_getIDNearestCenter fp cv (ps_km s) (pts ! i) = Some (near i)" "0 \<le> near i" "near i < int (length cs)"
    "-1 \<le> id_cluster (pts ! i)" "id_cluster (pts ! i) < int (length cs)"
    using near i lc by (auto simp: near_ok_def cs(1) par_nearest_cong [OF cs(2)])
  have at: "at (ps_points s) (int i) = Some ?p" "at (ps_tasks s) (int i) = Some ?q" using i len by (auto simp: at_def)
  have xi: "?xs ! i = (?p, ?q)" "i < length ?xs" using i len by auto
  have hu: "held (zip ((ps_points s)[i := p]) ((ps_tasks s)[i := q])) k
      + (if place (?p, ?q) = k then {#id_point ?p#} else {#}) =
      held ?xs k + (if place (p, q) = k then {#id_point p#} else {#})" for p q k
    using held_update [OF xi(2), of "(p, q)" k] by (simp only: xi(1) update_zip fst_conv snd_conv)
  have hq: "held (zip (ps_points s) ((ps_tasks s)[i := q])) k
      + (if place (?p, ?q) = k then {#id_point ?p#} else {#}) =
      held ?xs k + (if place (?p, q) = k then {#id_point ?p#} else {#})" for q k
    using hu [of ?p q k] by simp
  show ?thesis
  proof (cases ?q)
    case K_start
    then have p: "?p = pts ! i" using ok [OF i] by simp
    define q where "q = (if id_cluster ?p = near i then K_end
                         else if id_cluster ?p \<noteq> -1 then K_remove (id_cluster ?p) (near i) else K_add (near i))"
    have "task_step fp cv s i = Some (s\<lparr>ps_tasks := (ps_tasks s)[i := q]\<rparr>)"
      using at K_start n(1) by (simp add: task_step_def p q_def)
    moreover have "held (zip (ps_points s) ((ps_tasks s)[i := q])) (int k) = held ?xs (int k)" for k
      using hq [of q "int k"] K_start by (auto simp: q_def split: if_splits)
    moreover have "task_ok (pts ! i) (near i) ?p q" using p by (auto simp: q_def setCluster_same)
    moreover have "((ps_tasks s)[i := q] ! k = K_end \<longrightarrow> id_cluster (pts ! k) = near k) \<longleftrightarrow>
        (ps_tasks s ! k = K_end \<longrightarrow> id_cluster (pts ! k) = near k)" if "k < length pts" for k
      using that i len K_start p by (cases "k = i") (auto simp: q_def)
    then have "ps_done s \<longleftrightarrow> (\<forall>k < length pts. (ps_tasks s)[i := q] ! k = K_end \<longrightarrow> id_cluster (pts ! k) = near k)"
      using don by blast
    moreover have "task_ok (pts ! k) (near k) (ps_points s ! k) ((ps_tasks s)[i := q] ! k)" if "k < length pts" for k
      using that i len ok calculation(3) by (cases "k = i") auto
    ultimately show ?thesis using cs len by (auto simp: par_inv_def)
  next
    case (K_remove old k)
    with ok [OF i] have p: "?p = pts ! i" "old = id_cluster ?p" "old \<noteq> -1" "k = near i" "near i \<noteq> old" by auto
    let ?cs = "cs[nat old := snd (removePoint (cs ! nat old) (id_point ?p))]"
    have o: "nat old < length cs" "int (nat old) = old" "in_range old (length cs)" using p n by auto
    have "task_step fp cv s i = Some (s\<lparr>ps_km := km\<lparr>km_clusters := ?cs\<rparr>, ps_tasks := (ps_tasks s)[i := K_add k]\<rparr>)"
      using at K_remove o by (simp add: task_step_def safeRemovePoint_def cs(1) exec_simps)
    moreover have rem: "ids (snd (removePoint c x)) = ids c - {#x#}" "central_values (snd (removePoint c x)) = central_values c"
      for c :: "'a kcluster" and x using removePoint_ids [of c x] by (metis prod.collapse)+
    moreover have "map central_values ?cs = map central_values cs"
      using o(1) by (simp add: map_update rem(2)) (metis list_update_id nth_map)
    moreover have "ids (?cs ! m) = held (zip (ps_points s) ((ps_tasks s)[i := K_add k])) (int m)" if "m < length cs" for m
    proof (cases "m = nat old")
      case True
      then have "held ?xs old = add_mset (id_point ?p) (held (zip (ps_points s) ((ps_tasks s)[i := K_add k])) old)"
        using hq [of "K_add k" old] K_remove p o by simp
      then have "ids (cs ! nat old) = add_mset (id_point ?p) (held (zip (ps_points s) ((ps_tasks s)[i := K_add k])) old)"
        using cs(3) [OF o(1)] o(2) by simp
      with True o(1,2) show ?thesis by (simp only: nth_list_update_eq rem(1) add_mset_remove_trivial)
    next
      case False
      then have "old \<noteq> int m" using o by auto
      with False that hq [of "K_add k" "int m"] K_remove p o cs(3) [of m] show ?thesis by simp
    qed
    moreover have "task_ok (pts ! m) (near m) (ps_points s ! m) ((ps_tasks s)[i := K_add k] ! m)" if "m < length pts" for m
      using that ok [OF that] i len K_remove p by (cases "m = i") auto
    moreover have "((ps_tasks s)[i := K_add k] ! m = K_end) \<longleftrightarrow> (ps_tasks s ! m = K_end)" if "m < length pts" for m
      using that i len K_remove by (cases "m = i") auto
    ultimately show ?thesis using cs(2) len don by (auto simp: par_inv_def)
  next
    case (K_add k)
    with ok [OF i] have p: "?p = pts ! i" "k = near i" "near i \<noteq> id_cluster ?p" by auto
    let ?p' = "setCluster ?p k"
    let ?cs = "cs[nat k := addPoint (cs ! nat k) ?p']"
    have o: "nat k < length cs" "int (nat k) = k" "in_range k (length cs)" using p n by auto
    have "task_step fp cv s i = Some (s\<lparr>ps_km := km\<lparr>km_clusters := ?cs\<rparr>, ps_points := (ps_points s)[i := ?p'],
        ps_tasks := (ps_tasks s)[i := K_end], ps_done := False\<rparr>)"
      using at K_add o by (simp add: task_step_def safeAddPoint_def cs(1) exec_simps)
    moreover have "map central_values ?cs = map central_values cs"
      using o(1) by (simp add: map_update addPoint_def) (metis list_update_id nth_map)
    moreover have "ids (?cs ! m) = held (zip ((ps_points s)[i := ?p']) ((ps_tasks s)[i := K_end])) (int m)"
      if "m < length cs" for m
      using that hu [of ?p' K_end "int m"] K_add o cs(3) [of m]
      by (cases "m = nat k") (auto simp: addPoint_ids setCluster_def)
    moreover have "task_ok (pts ! m) (near m) ((ps_points s)[i := ?p'] ! m) ((ps_tasks s)[i := K_end] ! m)"
      if "m < length pts" for m using that ok [OF that] i len p by (cases "m = i") auto
    moreover have "\<not> (\<forall>m < length pts. (ps_tasks s)[i := K_end] ! m = K_end \<longrightarrow> id_cluster (pts ! m) = near m)"
      using i len p by (auto intro!: exI [of _ i])
    ultimately show ?thesis using cs(2) len by (auto simp: par_inv_def)
  next
    case K_end
    with at inv show ?thesis by (simp add: task_step_def)
  qed
qed

fun rank :: "task \<Rightarrow> nat" where
  "rank K_start = 3"
| "rank (K_remove old near) = 2"
| "rank (K_add near) = 1"
| "rank K_end = 0"

lemma task_step_rank:
  assumes "task_step fp cv s i = Some s'" "i < length (ps_tasks s)"
  shows "rank (ps_tasks s' ! i) \<le> rank (ps_tasks s ! i) - 1 \<and> (\<forall>k. k \<noteq> i \<longrightarrow> ps_tasks s' ! k = ps_tasks s ! k)
     \<and> length (ps_tasks s') = length (ps_tasks s)"
proof -
  have "at (ps_tasks s) (int i) = Some (ps_tasks s ! i)" using assms(2) by (simp add: at_def)
  with assms show ?thesis by (cases "ps_tasks s ! i") (auto simp: task_step_def nth_list_update split: if_splits)
qed

lemma run_schedule_rank:
  "run_schedule fp cv is s = Some s' \<Longrightarrow> \<forall>i\<in>set is. i < length (ps_tasks s) \<Longrightarrow>
   rank (ps_tasks s' ! k) \<le> rank (ps_tasks s ! k) - count_list is k"
proof (induction "is" arbitrary: s)
  case (Cons i "is")
  from Cons.prems(1) obtain t where t: "task_step fp cv s i = Some t" "run_schedule fp cv is t = Some s'" by auto
  note r = task_step_rank [OF t(1)]
  have "rank (ps_tasks s' ! k) \<le> rank (ps_tasks t ! k) - count_list is k"
    using Cons.IH [OF t(2)] Cons.prems(2) r by auto
  moreover have "rank (ps_tasks t ! k) \<le> rank (ps_tasks s ! k) - (if k = i then 1 else 0)" using r Cons.prems(2) by auto
  ultimately show ?case by (auto split: if_splits)
qed simp

lemma run_schedule_ok:
  "par_inv km pts near s \<Longrightarrow> near_ok fp cv km pts near \<Longrightarrow> \<forall>i\<in>set is. i < length pts \<Longrightarrow>
   \<exists>s'. run_schedule fp cv is s = Some s' \<and> par_inv km pts near s'"
proof (induction "is" arbitrary: s)
  case (Cons i "is")
  then obtain t where "task_step fp cv s i = Some t" "par_inv km pts near t"
    using task_step_ok [of km pts near s fp cv i] by auto
  with Cons show ?case by auto
qed simp

lemma held_idle: "\<forall>x\<in>set xs. place x = id_cluster (fst x) \<Longrightarrow> held xs k = members (map fst xs) k"
  by (induction xs) (auto simp: held_def members_def)

lemma par_start_inv:
  assumes "\<forall>k < length (km_clusters (fst s)). ids (km_clusters (fst s) ! k) = members (snd s) (int k)"
  shows "par_inv (fst s) (snd s) near (par_start s)"
proof -
  let ?xs = "zip (snd s) (replicate (length (snd s)) K_start)"
  have "\<forall>x\<in>set ?xs. place x = id_cluster (fst x)" by (auto dest!: set_zip_rightD)
  then have "held ?xs k = members (snd s) k" for k using held_idle [of ?xs k] by simp
  with assms show ?thesis by (auto simp: par_inv_def par_start_def intro!: exI [of _ "km_clusters (fst s)"])
qed

text \<open>Three turns for every task are enough, whatever their order.\<close>

lemma schedule_result:
  assumes part: "km_part s" and near: "near_ok fp cv (fst s) (snd s) near"
    and sched: "\<forall>i\<in>set is. i < length (snd s)" "\<forall>i < length (snd s). 3 \<le> count_list is i"
  shows "\<exists>t. run_schedule fp cv is (par_start s) = Some t
     \<and> ps_points t = map (\<lambda>i. setCluster (snd s ! i) (near i)) [0..<length (snd s)]
     \<and> (\<forall>k < length (km_clusters (ps_km t)). ids (km_clusters (ps_km t) ! k) = members (ps_points t) (int k))
     \<and> map central_values (km_clusters (ps_km t)) = map central_values (km_clusters (fst s))
     \<and> (ps_done t \<longleftrightarrow> ps_points t = snd s)"
proof -
  have "par_inv (fst s) (snd s) near (par_start s)" using part by (intro par_start_inv) (simp add: km_part_def)
  from run_schedule_ok [OF this near sched(1)] obtain t
    where t: "run_schedule fp cv is (par_start s) = Some t" "par_inv (fst s) (snd s) near t" by blast
  obtain cs where cs: "ps_km t = (fst s)\<lparr>km_clusters := cs\<rparr>" "map central_values cs = map central_values (km_clusters (fst s))"
    "\<forall>k < length cs. ids (cs ! k) = held (zip (ps_points t) (ps_tasks t)) (int k)"
    and len: "length (ps_points t) = length (snd s)" "length (ps_tasks t) = length (snd s)"
    and ok: "\<And>k. k < length (snd s) \<Longrightarrow> task_ok (snd s ! k) (near k) (ps_points t ! k) (ps_tasks t ! k)"
    and don: "ps_done t \<longleftrightarrow> (\<forall>k < length (snd s). ps_tasks t ! k = K_end \<longrightarrow> id_cluster (snd s ! k) = near k)"
    using t(2) by (auto simp: par_inv_def)
  have ended: "ps_tasks t ! i = K_end" if "i < length (snd s)" for i
  proof -
    have "rank (ps_tasks t ! i) \<le> rank (ps_tasks (par_start s) ! i) - count_list is i"
      using sched(1) by (intro run_schedule_rank [OF t(1)]) (simp add: par_start_def)
    then have "rank (ps_tasks t ! i) = 0" using sched(2) that by (simp add: par_start_def)
    then show ?thesis by (cases "ps_tasks t ! i") auto
  qed
  have pts: "ps_points t = map (\<lambda>i. setCluster (snd s ! i) (near i)) [0..<length (snd s)]"
    using len ok ended by (intro nth_equalityI) auto
  have "\<forall>x\<in>set (zip (ps_points t) (ps_tasks t)). place x = id_cluster (fst x)"
    using ended len by (auto simp: set_zip)
  from held_idle [OF this] have "held (zip (ps_points t) (ps_tasks t)) k = members (ps_points t) k" for k
    using len by simp
  moreover have "ps_done t \<longleftrightarrow> ps_points t = snd s"
  proof
    assume "ps_done t"
    then show "ps_points t = snd s" using don ended pts by (auto intro!: nth_equalityI simp: setCluster_same)
  next
    assume "ps_points t = snd s"
    then have "setCluster (snd s ! i) (near i) = snd s ! i" if "i < length (snd s)" for i
      using pts that by (metis (no_types, lifting) add_0 diff_zero length_upt nth_map nth_upt)
    then have "id_cluster (snd s ! i) = near i" if "i < length (snd s)" for i
      using that by (metis kpoint.select_convs(2) kpoint.surjective kpoint.update_convs(2) setCluster_def)
    then show "ps_done t" using don by simp
  qed
  ultimately show ?thesis using t(1) cs pts by auto
qed

end
