(* ===== verification/KMeansShow.thy ===== *)
theory KMeansShow
  imports KMeansPar Wire
begin

text \<open>
  K-Means/solution.cpp, the clustering program with its output, and the \<open>main\<close> functions of the
  programs.  Its classes, \<open>getIDNearestCenter\<close> and the phases of \<open>run\<close> are those of the serial program; after
  them \<open>run\<close> prints every cluster.  The printed text is the result; printing a \<open>double\<close> and the
  clock are parameters.  The lemmas show that the printing loops stay in range and print each point of
  the input exactly once.
\<close>

fun show_values :: "('d \<Rightarrow> string) \<Rightarrow> (int \<Rightarrow> 'd option) \<Rightarrow> int list \<Rightarrow> string option" where
  "show_values pd get [] = Some []"
| "show_values pd get (i # is) =
     do { v \<leftarrow> get i; rest \<leftarrow> show_values pd get is; Some (pd v @ '' '' @ rest) }"

definition show_point :: "('d \<Rightarrow> string) \<Rightarrow> int \<Rightarrow> 'd kpoint \<Rightarrow> string option" where
  "show_point pd total_values p =
     do { vs \<leftarrow> show_values pd (getValue p) (map int [0..<nat total_values]);
          Some (''Point '' @ dec (id_point p + 1) @ '': '' @ vs
                @ (if pt_name p \<noteq> '''' then ''- '' @ pt_name p else '''') @ [newline]) }"

fun show_points :: "('d \<Rightarrow> string) \<Rightarrow> int \<Rightarrow> 'd kcluster \<Rightarrow> int list \<Rightarrow> string option" where
  "show_points pd total_values c [] = Some []"
| "show_points pd total_values c (j # js) =
     do { p \<leftarrow> getPoint c j;
          line \<leftarrow> show_point pd total_values p;
          rest \<leftarrow> show_points pd total_values c js;
          Some (line @ rest) }"

definition show_cluster :: "('d \<Rightarrow> string) \<Rightarrow> int \<Rightarrow> 'd kcluster \<Rightarrow> string option" where
  "show_cluster pd total_values c =
     do { ps \<leftarrow> show_points pd total_values c (map int [0..<nat (getTotalPoints c)]);
          vs \<leftarrow> show_values pd (getCentralValue c) (map int [0..<nat total_values]);
          Some (''Cluster '' @ dec (cl_id c + 1) @ [newline] @ ps @ ''Cluster values: '' @ vs) }"

fun show_clusters :: "('d \<Rightarrow> string) \<Rightarrow> 'd kmeans \<Rightarrow> int list \<Rightarrow> string option" where
  "show_clusters pd km [] = Some []"
| "show_clusters pd km (i # is) =
     do { c \<leftarrow> at (km_clusters km) i;
          t \<leftarrow> show_cluster pd (km_total_values km) c;
          rest \<leftarrow> show_clusters pd km is;
          Some (t @ rest) }"

text \<open>The three measured times are given in microseconds.\<close>

definition show_times :: "int \<times> int \<times> int \<Rightarrow> string" where
  "show_times t =
     (case t of (all, phase1, phase2) \<Rightarrow>
        ''TOTAL EXECUTION TIME = '' @ dec all @ [newline] @ ''TIME PHASE 1 = '' @ dec phase1 @ [newline]
        @ ''TIME PHASE 2 = '' @ dec phase2 @ [newline])"

definition show_break :: "int \<Rightarrow> string" where
  "show_break iter = ''Break in iteration '' @ dec iter @ [newline, newline]"

definition sol_run ::
  "'d fp \<Rightarrow> ('d \<Rightarrow> string) \<Rightarrow> int list \<Rightarrow> int \<times> int \<times> int \<Rightarrow> 'd km_state \<Rightarrow> ('d km_state \<times> string) outcome" where
  "sol_run fp pd rs tms s =
     (if km_K (fst s) > km_total_points (fst s) then Done (s, [])
      else case KMeans_run fp rs s of
             No_fuel \<Rightarrow> No_fuel
           | Fault \<Rightarrow> Fault
           | Done (s', iter) \<Rightarrow>
               (case show_clusters pd (fst s') (map int [0..<nat (km_K (fst s'))]) of
                  None \<Rightarrow> Fault
                | Some t \<Rightarrow> Done (s', show_break iter @ t @ [newline, newline] @ show_times tms)))"

text \<open>\<open>main\<close> of the three programs: the head of the input, the points, one run.\<close>

definition read_input ::
  "(string \<Rightarrow> int option) \<Rightarrow> (string \<Rightarrow> 'd option) \<Rightarrow> string list \<Rightarrow> 'd km_state option" where
  "read_input pi pd tokens =
     (case tokens of
        t1 # t2 # t3 # t4 # t5 # ts \<Rightarrow>
          do { total_points \<leftarrow> pi t1; total_values \<leftarrow> pi t2; k \<leftarrow> pi t3; max_iterations \<leftarrow> pi t4; has_name \<leftarrow> pi t5;
               pts \<leftarrow> read_points pd (nat total_values) (has_name \<noteq> 0) (map int [0..<nat total_points]) ts;
               Some (KMeans_new k total_points total_values max_iterations, pts) }
      | _ \<Rightarrow> None)"

definition sol_main ::
  "'d fp \<Rightarrow> (string \<Rightarrow> int option) \<Rightarrow> (string \<Rightarrow> 'd option) \<Rightarrow> ('d \<Rightarrow> string) \<Rightarrow> int list \<Rightarrow> int \<times> int \<times> int
     \<Rightarrow> string list \<Rightarrow> ('d km_state \<times> string) outcome" where
  "sol_main fp pi rd pd rs tms tokens =
     (case read_input pi rd tokens of None \<Rightarrow> Fault | Some s \<Rightarrow> sol_run fp pd rs tms s)"

definition par_main ::
  "'d fp \<Rightarrow> 'd conv \<Rightarrow> (int \<Rightarrow> nat list) \<Rightarrow> (int \<Rightarrow> int \<Rightarrow> int \<Rightarrow> int list list) \<Rightarrow> (string \<Rightarrow> int option) \<Rightarrow> (string \<Rightarrow> 'd option)
     \<Rightarrow> int list \<Rightarrow> string list \<Rightarrow> ('d km_state \<times> int) outcome" where
  "par_main fp cv sched split pi rd rs tokens =
     (case read_input pi rd tokens of None \<Rightarrow> Fault | Some s \<Rightarrow> par_run fp cv sched split rs s)"

lemma serial_main_reads: "kmeans_main fp pi rd rs tokens =
    (case read_input pi rd tokens of None \<Rightarrow> Fault | Some s \<Rightarrow> KMeans_run fp rs s)"
  by (auto simp: kmeans_main_def read_input_def split: list.splits option.splits)

subsection \<open>The input\<close>

lemma read_values_ok: "read_values rd n ts = Some (vs, ts') \<Longrightarrow> length vs = n"
  by (induction rd n ts arbitrary: vs ts' rule: read_values.induct) (auto split: list.splits)

lemma read_points_ok:
  "read_points rd d b is ts = Some pts \<Longrightarrow>
   length pts = length is \<and> (\<forall>p\<in>set pts. point_dims d p \<and> id_cluster p = -1) \<and> map id_point pts = is"
proof (induction "is" arbitrary: ts pts)
  case (Cons i "is")
  then show ?case
    by (auto simp: KPoint_def point_dims_def dest!: read_values_ok split: if_splits list.splits)
qed simp

lemma read_input_fresh:
  assumes "read_input pi rd tokens = Some s" "0 \<le> km_total_points (fst s)" "0 \<le> km_total_values (fst s)"
  shows "fresh_input (nat (km_total_values (fst s))) s \<and> map id_point (snd s) = map int [0..<nat (km_total_points (fst s))]"
  using assms
  by (auto simp: read_input_def fresh_input_def km_dims_def KMeans_new_def split: list.splits dest!: read_points_ok)

subsection \<open>The output\<close>

lemma show_values_total: "\<forall>i\<in>set is. \<exists>v. get i = Some v \<Longrightarrow> \<exists>t. show_values pd get is = Some t"
  by (induction "is") auto

lemma show_point_total:
  assumes "point_dims d p" shows "\<exists>t. show_point pd (int d) p = Some t"
proof -
  have "\<exists>t. show_values pd (getValue p) (map int [0..<d]) = Some t"
    using assms by (intro show_values_total) (auto simp: point_dims_def getValue_def at_def)
  then show ?thesis by (auto simp: show_point_def)
qed

lemma show_points_total:
  "\<forall>p\<in>set (cl_points c). point_dims d p \<Longrightarrow> \<forall>j\<in>set js. j < length (cl_points c) \<Longrightarrow>
   \<exists>t. show_points pd (int d) c (map int js) = Some t \<and>
     t = concat (map (\<lambda>j. the (show_point pd (int d) (cl_points c ! j))) js)"
proof (induction js)
  case (Cons j js)
  then have "point_dims d (cl_points c ! j)" by auto
  from show_point_total [OF this, of pd] Cons show ?case by (auto simp: getPoint_def at_def)
qed simp

lemma show_cluster_total:
  assumes "cluster_dims d c"
  shows "\<exists>vs. show_cluster pd (int d) c = Some (''Cluster '' @ dec (cl_id c + 1) @ [newline]
     @ concat (map (\<lambda>p. the (show_point pd (int d) p)) (cl_points c)) @ ''Cluster values: '' @ vs)"
proof -
  have "\<exists>vs. show_values pd (getCentralValue c) (map int [0..<d]) = Some vs"
    using assms by (intro show_values_total) (auto simp: cluster_dims_def getCentralValue_def at_def)
  moreover have "show_points pd (int d) c (map int [0..<length (cl_points c)]) =
      Some (concat (map (\<lambda>j. the (show_point pd (int d) (cl_points c ! j))) [0..<length (cl_points c)]))"
    using show_points_total [of c d "[0..<length (cl_points c)]" pd] assms by (auto simp: cluster_dims_def)
  moreover have "map (\<lambda>j. the (show_point pd (int d) (cl_points c ! j))) [0..<length (cl_points c)] =
      map (\<lambda>p. the (show_point pd (int d) p)) (cl_points c)"
    by (rule nth_equalityI) auto
  ultimately show ?thesis by (auto simp: show_cluster_def getTotalPoints_def)
qed

lemma show_clusters_total:
  "\<forall>c\<in>set (km_clusters km). cluster_dims d c \<Longrightarrow> km_total_values km = int d \<Longrightarrow>
   \<forall>i\<in>set is. i < length (km_clusters km) \<Longrightarrow>
   show_clusters pd km (map int is) = Some (concat (map (\<lambda>i. the (show_cluster pd (int d) (km_clusters km ! i))) is))"
proof (induction "is")
  case (Cons i "is")
  then have "cluster_dims d (km_clusters km ! i)" by auto
  from show_cluster_total [OF this, of pd] Cons show ?case by (auto simp: at_def)
qed simp

text \<open>Together the clusters of a partition hold every point once.\<close>

lemma members_Suc: "\<forall>p\<in>set pts. 0 \<le> id_cluster p \<Longrightarrow>
   mset (map id_point (filter (\<lambda>p. id_cluster p < int (Suc n)) pts)) =
   mset (map id_point (filter (\<lambda>p. id_cluster p < int n) pts)) + members pts (int n)"
  by (induction pts) (auto simp: members_def)

lemma members_sum: "\<forall>p\<in>set pts. 0 \<le> id_cluster p \<Longrightarrow>
   (\<Sum>i\<leftarrow>[0..<n]. members pts (int i)) = mset (map id_point (filter (\<lambda>p. id_cluster p < int n) pts))"
proof (induction n)
  case 0
  then have "filter (\<lambda>p. id_cluster p < 0) pts = []" by (auto simp: filter_empty_conv not_less)
  then show ?case by simp
next
  case (Suc n)
  then show ?case using members_Suc [of pts n] by simp
qed

lemma partition_sum:
  assumes "km_part (km, pts)" "\<forall>p\<in>set pts. 0 \<le> id_cluster p"
  shows "(\<Sum>c\<leftarrow>km_clusters km. ids c) = mset (map id_point pts)"
proof -
  have "map ids (km_clusters km) = map (\<lambda>i. members pts (int i)) [0..<length (km_clusters km)]"
    using assms(1) by (intro nth_equalityI) (auto simp: km_part_def)
  moreover have "filter (\<lambda>p. id_cluster p < int (length (km_clusters km))) pts = pts"
    using assms(1) by (auto simp: km_part_def filter_id_conv)
  ultimately show ?thesis using members_sum [OF assms(2), of "length (km_clusters km)"] by simp
qed

end
