(* ===== verification/KMeansCorrect.thy ===== *)
theory KMeansCorrect
  imports KMeansShow
begin

text \<open>
  The properties of the clustering programs: the serial run ends and leaves a partition of the
  points, the nearest center is the first one at minimal distance, an iteration moves every point to
  its nearest center and every center to the mean, and every schedule of the parallel assignment
  has one and the same effect; the parallel recentering depends on how the points are split.
\<close>

subsection \<open>Arithmetics on which the properties are evaluated\<close>

text \<open>Exact integers, and fixed point numbers counted in hundredths.\<close>

definition int_fp :: "int fp" where
  "int_fp = \<lparr>fp_zero = 0, fp_add = (+), fp_sub = (-), fp_pow2 = (\<lambda>x. x * x), fp_sqrt = (\<lambda>x. x),
             fp_less = (<), fp_div_int = (\<lambda>x n. x div n)\<rparr>"

definition int_conv :: "int conv" where
  "int_conv = \<lparr>fp_trunc = Some, fp_of_int = (\<lambda>x. x)\<rparr>"

definition centi_conv :: "int conv" where
  "centi_conv = \<lparr>fp_trunc = (\<lambda>x. Some (c_div x 100)), fp_of_int = (\<lambda>x. 100 * x)\<rparr>"

definition four_points :: "int km_state" where
  "four_points = (KMeans_new 2 4 1 10, [KPoint 0 [0] [], KPoint 1 [1] [], KPoint 2 [10] [], KPoint 3 [11] []])"

definition two_clusters :: "int km_state" where
  "two_clusters =
     ((KMeans_new 2 4 1 10)\<lparr>km_clusters := [\<lparr>cl_id = 0, central_values = [10], cl_points = [setCluster (KPoint 2 [10] []) 0]\<rparr>,
                                     \<lparr>cl_id = 1, central_values = [0], cl_points = [setCluster (KPoint 0 [0] []) 1]\<rparr>]\<rparr>,
      [setCluster (KPoint 0 [0] []) 1, KPoint 1 [1] [], setCluster (KPoint 2 [10] []) 0, KPoint 3 [11] []])"

lemmas km_eval = four_points_def two_clusters_def KMeans_new_def KPoint_def setCluster_def int_fp_def

lemma two_clusters_ok [simp]: "km_inv 1 two_clusters" "centers_full two_clusters"
  by (simp_all add: km_eval km_inv_def km_dims_def km_part_def point_dims_def cluster_dims_def centers_full_def
        ids_def members_def less_Suc_eq numeral_2_eq_2 all_conj_distrib)

subsection \<open>The serial program\<close>

text \<open>C20: \<open>KMeans::run\<close> on fresh points, with K between 1 and the number of points and random
  numbers that reach at least K different points, returns after at least one and at most
  \<open>max_iterations\<close> iterations (one, when that is less).  The K clusters partition the points:
  cluster i holds exactly the points whose cluster field is i, and every point is in a
  cluster; ids and values of the points are those of the input.\<close>

theorem kmeans_run_partitions:
  assumes "fresh_input d s" "0 < km_K (fst s)" "km_K (fst s) \<le> km_total_points (fst s)"
    and "nat (km_K (fst s)) \<le> card (residues (km_total_points (fst s)) rs)"
  shows "\<exists>km pts iter. KMeans_run fp rs s = Done ((km, pts), iter)
     \<and> 1 \<le> iter \<and> iter \<le> max 1 (km_max_iterations (fst s))
     \<and> int (length (km_clusters km)) = km_K (fst s)
     \<and> (\<forall>i < length (km_clusters km). ids (km_clusters km ! i) = members pts (int i))
     \<and> (\<forall>p\<in>set pts. 0 \<le> id_cluster p \<and> id_cluster p < km_K (fst s))
     \<and> map id_point pts = map id_point (snd s) \<and> map pt_values pts = map pt_values (snd s)"
proof -
  from run_ok [OF assms, of fp] obtain km pts iter
    where r: "KMeans_run fp rs s = Done ((km, pts), iter)" "km_inv d (km, pts)" "km_frame s (km, pts)"
      "centers_full (km, pts)" "\<forall>p\<in>set pts. 0 \<le> id_cluster p" "1 \<le> iter" "iter \<le> max 1 (km_max_iterations (fst s))"
    by (metis prod.collapse snd_conv)
  have "int (length (km_clusters km)) = km_K (fst s)"
    using r(3,4) by (simp add: centers_full_def km_frame_def)
  then show ?thesis using r by (auto simp: km_inv_def km_part_def km_frame_def)
qed

lemma four_points_fresh: "fresh_input 1 four_points"
  by (simp add: km_eval fresh_input_def km_dims_def point_dims_def)

lemma four_points_residues: "nat (km_K (fst four_points)) \<le> card (residues (km_total_points (fst four_points)) [6, 2, 4])"
proof -
  have "residues 4 [6, 2, 4] = {2, 0}" by (simp add: residues_def)
  then show ?thesis by (simp add: km_eval)
qed

theorem kmeans_run_partitions_witness:
  "\<exists>km pts iter. KMeans_run int_fp [6, 2, 4] four_points = Done ((km, pts), iter)
     \<and> 1 \<le> iter \<and> iter \<le> max 1 (km_max_iterations (fst four_points))
     \<and> int (length (km_clusters km)) = km_K (fst four_points)
     \<and> (\<forall>i < length (km_clusters km). ids (km_clusters km ! i) = members pts (int i))
     \<and> (\<forall>p\<in>set pts. 0 \<le> id_cluster p \<and> id_cluster p < km_K (fst four_points))
     \<and> map id_point pts = map id_point (snd four_points) \<and> map pt_values pts = map pt_values (snd four_points)"
  by (rule kmeans_run_partitions [OF four_points_fresh])
     (simp_all add: four_points_residues, simp_all add: km_eval)

definition weak_order :: "('d \<Rightarrow> 'd \<Rightarrow> bool) \<Rightarrow> bool" where
  "weak_order lt \<longleftrightarrow> (\<forall>a. \<not> lt a a) \<and> (\<forall>a b c. lt a b \<longrightarrow> lt b c \<longrightarrow> lt a c)
     \<and> (\<forall>a b c. lt a b \<longrightarrow> lt a c \<or> lt c b)"

text \<open>\<open>first_min lt f b n\<close>: index \<open>b\<close> is the first with a minimal value among the indices below \<open>n\<close>.\<close>

definition first_min :: "('d \<Rightarrow> 'd \<Rightarrow> bool) \<Rightarrow> (int \<Rightarrow> 'd option) \<Rightarrow> int \<Rightarrow> nat \<Rightarrow> bool" where
  "first_min lt f b n \<longleftrightarrow> 0 \<le> b \<and> b < int n \<and>
     (\<exists>m. f b = Some m \<and> (\<forall>i < n. \<exists>x. f (int i) = Some x \<and> \<not> lt x m \<and> (int i < b \<longrightarrow> lt m x)))"

lemma first_min_step:
  assumes w: "weak_order lt" and fm: "first_min lt f b n" and d: "f (int n) = Some d" and m: "f b = Some m"
  shows "if lt d m then first_min lt f (int n) (Suc n) else first_min lt f b (Suc n)"
proof -
  have b: "0 \<le> b" "b < int n" using fm by (auto simp: first_min_def)
  have all: "\<exists>x. f (int i) = Some x \<and> \<not> lt x m \<and> (int i < b \<longrightarrow> lt m x)" if "i < n" for i
    using fm m that unfolding first_min_def by fastforce
  have irr: "\<not> lt d d" and tr: "\<And>x. lt x d \<Longrightarrow> lt d m \<Longrightarrow> lt x m" and
    neg: "\<And>x. lt d m \<Longrightarrow> lt d x \<or> lt x m" using w unfolding weak_order_def by metis+
  show ?thesis
  proof (cases "lt d m")
    case True
    have "\<exists>x. f (int i) = Some x \<and> \<not> lt x d \<and> (int i < int n \<longrightarrow> lt d x)" if "i < Suc n" for i
    proof (cases "i = n")
      case False
      with that all [of i] obtain x where "f (int i) = Some x" "\<not> lt x m" by auto
      then show ?thesis using tr neg True by blast
    qed (use d irr in auto)
    then show ?thesis using True d by (simp add: first_min_def)
  next
    case False
    have "\<exists>x. f (int i) = Some x \<and> \<not> lt x m \<and> (int i < b \<longrightarrow> lt m x)" if "i < Suc n" for i
      using that all [of i] d False b by (cases "i = n") auto
    then show ?thesis using False m b by (simp add: first_min_def)
  qed
qed

lemma nearest_loop_min:
  assumes "weak_order (fp_less fp)" "first_min (fp_less fp) (center_distance fp km p) b n" "n \<le> k"
    and "center_distance fp km p b = Some m" "\<forall>i < k. \<exists>x. center_distance fp km p (int i) = Some x"
  shows "\<exists>r. nearest_loop fp km p (map int [n..<k]) m b = Some r \<and> first_min (fp_less fp) (center_distance fp km p) r k"
  using assms(2-5)
proof (induction "k - n" arbitrary: n b m)
  case (Suc q)
  then have n: "n < k" "q = k - Suc n" by auto
  obtain d where d: "center_distance fp km p (int n) = Some d" using Suc.prems(4) n by auto
  note st = first_min_step [OF assms(1) Suc.prems(1) d Suc.prems(3)]
  show ?case
  proof (cases "fp_less fp d m")
    case True
    with st d n Suc.hyps(1) [of "Suc n" "int n" d] Suc.prems(4) show ?thesis by (simp add: upt_conv_Cons)
  next
    case False
    with st d n Suc.hyps(1) [of "Suc n" b m] Suc.prems(3,4) show ?thesis by (simp add: upt_conv_Cons)
  qed
qed simp

text \<open>C21: with K centers and a point of the right dimension, \<open>getIDNearestCenter\<close> returns the
  smallest index of a center at minimal distance, when \<open><\<close> is a strict weak order on the distances
  (no NaN).\<close>

theorem nearest_center_first:
  assumes "km_dims d (km, pts)" "point_dims d p" "centers_full (km, pts)" "weak_order (fp_less fp)"
  shows "\<exists>r. getIDNearestCenter fp km p = Some r \<and> first_min (fp_less fp) (center_distance fp km p) r (nat (km_K km))"
proof -
  have tot: "\<forall>i < nat (km_K km). \<exists>x. center_distance fp km p (int i) = Some x"
    using center_distance_total [OF assms(1,2)] assms(3) by (auto simp: centers_full_def)
  have K: "0 < nat (km_K km)" using assms(3) by (simp add: centers_full_def)
  obtain m where m: "center_distance fp km p 0 = Some m" using tot K by force
  have "first_min (fp_less fp) (center_distance fp km p) 0 1"
    using m assms(4) by (simp add: first_min_def weak_order_def)
  from nearest_loop_min [OF assms(4) this _ m tot] K m show ?thesis
    by (auto simp: getIDNearestCenter_def)
qed

theorem nearest_center_first_witness:
  "\<exists>r. getIDNearestCenter int_fp (fst two_clusters) (KPoint 5 [4] [])  = Some r
     \<and> first_min (fp_less int_fp) (center_distance int_fp (fst two_clusters) (KPoint 5 [4] [])) r (nat (km_K (fst two_clusters)))"
proof (rule nearest_center_first)
  show "km_dims 1 (fst two_clusters, snd two_clusters)" using two_clusters_ok(1) by (simp add: km_inv_def)
  show "weak_order (fp_less int_fp)" by (auto simp: weak_order_def int_fp_def)
qed (simp_all add: point_dims_def KPoint_def)

text \<open>One iteration on a partition with K centers succeeds, puts every point into the cluster
  of the center that was nearest, sets the center of every non-empty cluster to the mean
  of its points, computed in their order, keeps the partition, and reports
  \<open>done\<close> only when no point moved.\<close>

theorem iteration_step:
  assumes "km_inv d s" "centers_full s"
  shows "\<exists>s' don. iterate fp s = Some (s', don) \<and> km_inv d s'
     \<and> (\<forall>i < length (snd s). getIDNearestCenter fp (fst s) (snd s ! i) = Some (id_cluster (snd s' ! i)))
     \<and> (\<forall>c\<in>set (km_clusters (fst s')). cl_points c \<noteq> [] \<longrightarrow> central_values c = map (mean fp c) [0..<d])
     \<and> (don \<longrightarrow> snd s' = snd s)"
  using iterate_ok [OF assms, of fp] by blast

theorem iteration_step_witness:
  "\<exists>s' don. iterate int_fp two_clusters = Some (s', don) \<and> km_inv 1 s'
     \<and> (\<forall>i < length (snd two_clusters). getIDNearestCenter int_fp (fst two_clusters) (snd two_clusters ! i) = Some (id_cluster (snd s' ! i)))
     \<and> (\<forall>c\<in>set (km_clusters (fst s')). cl_points c \<noteq> [] \<longrightarrow> central_values c = map (mean int_fp c) [0..<1])
     \<and> (don \<longrightarrow> snd s' = snd two_clusters)"
  by (rule iteration_step [OF two_clusters_ok])

text \<open>On input with d coordinates per point the program that prints its result ends; its
  output is the text of the K clusters, one after the other, each with the lines of its points, and the
  lines name every point of the input exactly once.\<close>

theorem solution_prints_all:
  assumes "fresh_input d s" "0 < km_K (fst s)" "km_K (fst s) \<le> km_total_points (fst s)"
    and "nat (km_K (fst s)) \<le> card (residues (km_total_points (fst s)) rs)"
  shows "\<exists>km pts iter vs. sol_run fp pd rs tms s = Done ((km, pts), show_break iter
       @ concat (map (\<lambda>c. ''Cluster '' @ dec (cl_id c + 1) @ [newline]
           @ concat (map (\<lambda>p. the (show_point pd (int d) p)) (cl_points c)) @ ''Cluster values: '' @ vs c) (km_clusters km))
       @ [newline, newline] @ show_times tms)
     \<and> (\<Sum>c\<leftarrow>km_clusters km. ids c) = mset (map id_point (snd s))"
proof -
  from run_ok [OF assms, of fp] obtain km pts iter
    where r: "KMeans_run fp rs s = Done ((km, pts), iter)" "km_inv d (km, pts)" "km_frame s (km, pts)"
      "centers_full (km, pts)" "\<forall>p\<in>set pts. 0 \<le> id_cluster p" by (metis prod.collapse snd_conv)
  have dims: "\<forall>c\<in>set (km_clusters km). cluster_dims d c" "km_total_values km = int d"
    using r(2) by (auto simp: km_inv_def km_dims_def)
  have all: "show_clusters pd km (map int [0..<nat (km_K km)]) =
      Some (concat (map (\<lambda>i. the (show_cluster pd (int d) (km_clusters km ! i))) [0..<nat (km_K km)]))"
    using r(4) by (intro show_clusters_total [OF dims]) (auto simp: centers_full_def)
  define vs where "vs c = (SOME vs. show_cluster pd (int d) c = Some (''Cluster '' @ dec (cl_id c + 1) @ [newline]
     @ concat (map (\<lambda>p. the (show_point pd (int d) p)) (cl_points c)) @ ''Cluster values: '' @ vs))" for c
  have "map (\<lambda>i. the (show_cluster pd (int d) (km_clusters km ! i))) [0..<nat (km_K km)] =
      map (\<lambda>c. ''Cluster '' @ dec (cl_id c + 1) @ [newline]
        @ concat (map (\<lambda>p. the (show_point pd (int d) p)) (cl_points c)) @ ''Cluster values: '' @ vs c) (km_clusters km)"
  proof (rule nth_equalityI)
    fix i assume "i < length (map (\<lambda>i. the (show_cluster pd (int d) (km_clusters km ! i))) [0..<nat (km_K km)])"
    then have i: "i < nat (km_K km)" "i < length (km_clusters km)" using r(4) by (auto simp: centers_full_def)
    then have "cluster_dims d (km_clusters km ! i)" using dims by auto
    from someI_ex [OF show_cluster_total [OF this, of pd], folded vs_def] i show
      "map (\<lambda>i. the (show_cluster pd (int d) (km_clusters km ! i))) [0..<nat (km_K km)] ! i =
       map (\<lambda>c. ''Cluster '' @ dec (cl_id c + 1) @ [newline]
        @ concat (map (\<lambda>p. the (show_point pd (int d) p)) (cl_points c)) @ ''Cluster values: '' @ vs c) (km_clusters km) ! i"
      by simp
  qed (use r(4) in \<open>simp add: centers_full_def\<close>)
  moreover have "(\<Sum>c\<leftarrow>km_clusters km. ids c) = mset (map id_point (snd s))"
    using partition_sum [of km pts] r(2,3,5) by (simp add: km_inv_def km_frame_def del: mset_map)
  ultimately show ?thesis using r(1) all assms(3) by (auto simp: sol_run_def)
qed

theorem solution_prints_all_witness:
  "\<exists>km pts iter vs. sol_run int_fp dec [6, 2, 4] (9, 4, 5) four_points = Done ((km, pts), show_break iter
       @ concat (map (\<lambda>c. ''Cluster '' @ dec (cl_id c + 1) @ [newline]
           @ concat (map (\<lambda>p. the (show_point dec (int 1) p)) (cl_points c)) @ ''Cluster values: '' @ vs c) (km_clusters km))
       @ [newline, newline] @ show_times (9, 4, 5))
     \<and> (\<Sum>c\<leftarrow>km_clusters km. ids c) = mset (map id_point (snd four_points))"
  by (rule solution_prints_all [OF four_points_fresh])
     (simp_all add: four_points_residues, simp_all add: km_eval)

subsection \<open>The parallel program\<close>

text \<open>The loop of the parallel program that chooses the centers, with its \<open>i--\<close>, computes
  what the nested loops of the serial program compute, for every sequence of random
  numbers.\<close>

theorem parallel_chooses_same:
  "par_choose 0 s [] rs = choose_centers (map int [0..<nat (km_K (fst s))]) s [] rs"
  using par_choose_eq [OF refl, where i = 0 and proh = "[]" and s = s and rs = rs] by simp

text \<open>C22: the tasks of \<open>parallel_for\<close> may be interleaved in any way that lets each finish: the
  assignment succeeds, every point ends in the cluster of its nearest center, each cluster
  holds its points, the centers are untouched, and \<open>done\<close> stays true exactly when no point
  moved.\<close>

theorem parallel_assignment:
  assumes "km_part s" "near_ok fp cv (fst s) (snd s) near"
    and "list_all (\<lambda>i. i < length (snd s)) is" "list_all (\<lambda>i. 3 \<le> count_list is i) [0..<length (snd s)]"
  shows "\<exists>t. run_schedule fp cv is (par_start s) = Some t
     \<and> ps_points t = map (\<lambda>i. setCluster (snd s ! i) (near i)) [0..<length (snd s)]
     \<and> (\<forall>k < length (km_clusters (ps_km t)). ids (km_clusters (ps_km t) ! k) = members (ps_points t) (int k))
     \<and> map central_values (km_clusters (ps_km t)) = map central_values (km_clusters (fst s))
     \<and> (ps_done t \<longleftrightarrow> ps_points t = snd s)"
  using schedule_result [OF assms(1,2), of "is"] assms(3,4) by (auto simp: list_all_iff)

theorem parallel_assignment_witness:
  "\<exists>t. run_schedule int_fp int_conv [0, 1, 2, 3, 1, 0, 3, 2, 3, 2, 1, 0] (par_start two_clusters) = Some t
     \<and> ps_points t = map (\<lambda>i. setCluster (snd two_clusters ! i) ([1, 1, 0, 0] ! i)) [0..<length (snd two_clusters)]
     \<and> (\<forall>k < length (km_clusters (ps_km t)). ids (km_clusters (ps_km t) ! k) = members (ps_points t) (int k))
     \<and> map central_values (km_clusters (ps_km t)) = map central_values (km_clusters (fst two_clusters))
     \<and> (ps_done t \<longleftrightarrow> ps_points t = snd two_clusters)"
proof (rule parallel_assignment)
  show "km_part two_clusters" using two_clusters_ok(1) by (simp add: km_inv_def)
  show "near_ok int_fp int_conv (fst two_clusters) (snd two_clusters) (\<lambda>i. [1, 1, 0, 0] ! i)"
    unfolding near_ok_def
  proof (intro allI impI)
    fix i assume "i < length (snd two_clusters)"
    then have "i < 4" by (simp add: two_clusters_def)
    then consider "i = 0" | "i = 1" | "i = 2" | "i = 3" by linarith
    then show "par_getIDNearestCenter int_fp int_conv (fst two_clusters) (snd two_clusters ! i) = Some ([1, 1, 0, 0] ! i)
       \<and> 0 \<le> [1, 1, 0, 0 :: int] ! i \<and> [1, 1, 0, 0] ! i < int (length (km_clusters (fst two_clusters)))
       \<and> -1 \<le> id_cluster (snd two_clusters ! i) \<and> id_cluster (snd two_clusters ! i) < int (length (km_clusters (fst two_clusters)))"
      by cases (simp_all add: km_eval int_conv_def par_getIDNearestCenter_def par_center_distance_def at_def
            getCentralValue_def getValue_def as_int_def fits_int_def int_max_def numeral_2_eq_2 numeral_3_eq_3)
  qed
qed (simp_all add: two_clusters_def upt_rec numeral_nat)


end
