(* ===== verification/RCuckoo.thy ===== *)
theory RCuckoo
  imports CuckooInsert
begin

unbundle bit_operations_syntax

text \<open>
  The key-value table of the RDMA store, ReplicatedKeyValueStoreRDMA/Persistence/KeyValueStore/Cuckoo.hpp.
  Its one array holds the buckets one after the other, \<open>ENTRY_WIDTH\<close> nodes each, followed by one node
  per bucket that remote clients use as a lock word; a key may be in the bucket of
  either of its two hashes.  The locks, points, results and path cells are those of the other
  table.  Keys and values are the bit patterns of the \<open>int\<close> fields.  In the server the template
  parameter K is \<open>int\<close>: the right shifts of \<open>secondary_hash\<close> are arithmetic, its signed additions wrap.
\<close>

definition ENTRY_WIDTH :: nat where "ENTRY_WIDTH = 8"
definition R_MAX_SEARCH_DEPTH :: int where "R_MAX_SEARCH_DEPTH = 5"

record rnode =
  nkey :: u32
  nval :: u32

definition Node_new :: "u32 \<Rightarrow> u32 \<Rightarrow> rnode" where
  "Node_new k v = \<lparr>nkey = k, nval = v\<rparr>"

datatype RRESULT = R_FALSE | R_TRUE | R_DUP | R_ABORT_FAILURE

definition fastrand :: "u32 \<Rightarrow> int \<times> u32" where
  "fastrand g_seed = (let g = 214013 * g_seed + 2531011 in (uint (drop_bit 16 g AND 0x7FFF), g))"

subsection \<open>Table\<close>

definition R_isOccupied :: "rnode \<Rightarrow> bool" where
  "R_isOccupied n \<longleftrightarrow> nkey n \<noteq> EMPTY"

definition R_Table_new :: "u32 \<Rightarrow> rnode list" where
  "R_Table_new n = replicate (unat (n * of_nat ENTRY_WIDTH + n)) (Node_new EMPTY 0)"

definition R_offset :: "int \<Rightarrow> int \<Rightarrow> int option" where
  "R_offset idx slot = do { m \<leftarrow> as_int (idx * int ENTRY_WIDTH); as_int (m + slot) }"

definition R_getElement :: "rnode list \<Rightarrow> int \<Rightarrow> int \<Rightarrow> rnode option" where
  "R_getElement es idx slot = do { k \<leftarrow> R_offset idx slot; at es k }"

definition R_setElement :: "rnode list \<Rightarrow> int \<Rightarrow> int \<Rightarrow> rnode \<Rightarrow> rnode list option" where
  "R_setElement es idx slot n = do { k \<leftarrow> R_offset idx slot; upd es k n }"

definition R_setKey :: "rnode list \<Rightarrow> int \<Rightarrow> int \<Rightarrow> u32 \<Rightarrow> rnode list option" where
  "R_setKey es idx slot key = do { k \<leftarrow> R_offset idx slot; n \<leftarrow> at es k; upd es k (n\<lparr>nkey := key\<rparr>) }"

definition R_isOccupied_slot :: "rnode list \<Rightarrow> int \<Rightarrow> int \<Rightarrow> bool option" where
  "R_isOccupied_slot es idx slot = do { n \<leftarrow> R_getElement es idx slot; Some (R_isOccupied n) }"

definition R_isAvailable_slot :: "rnode list \<Rightarrow> int \<Rightarrow> int \<Rightarrow> bool option" where
  "R_isAvailable_slot es idx slot = do { b \<leftarrow> R_isOccupied_slot es idx slot; Some (\<not> b) }"

fun R_slot_loop :: "(rnode \<Rightarrow> bool) \<Rightarrow> rnode list \<Rightarrow> int \<Rightarrow> int list \<Rightarrow> int option" where
  "R_slot_loop p es idx [] = Some (-1)"
| "R_slot_loop p es idx (i # is) =
     do { n \<leftarrow> R_getElement es idx i; if p n then Some i else R_slot_loop p es idx is }"

definition entries :: "int list" where
  "entries = map int [0..<ENTRY_WIDTH]"

definition R_findSlot :: "rnode list \<Rightarrow> u32 \<Rightarrow> int \<Rightarrow> int option" where
  "R_findSlot es key idx = R_slot_loop (\<lambda>n. nkey n = key) es idx entries"

definition R_find :: "rnode list \<Rightarrow> u32 \<Rightarrow> int \<Rightarrow> bool option" where
  "R_find es key idx = do { s \<leftarrow> R_slot_loop (\<lambda>n. nkey n = key) es idx entries; Some (s \<noteq> -1) }"

definition R_isAvailable :: "rnode list \<Rightarrow> int \<Rightarrow> int option" where
  "R_isAvailable es idx = R_slot_loop (\<lambda>n. \<not> R_isOccupied n) es idx entries"

subsection \<open>Cuckoo\<close>

record rcuckoo =
  r_buckets :: u32
  r_elements :: "rnode list"
  r_locks :: "bool list"
  r_seed :: u32

definition R_new :: "u32 \<Rightarrow> u32 \<Rightarrow> rcuckoo" where
  "R_new n g_seed = \<lparr>r_buckets = n, r_elements = R_Table_new n, r_locks = replicate (unat n) False, r_seed = g_seed\<rparr>"

definition R_secondary_hash :: "u32 \<Rightarrow> u32" where
  "R_secondary_hash a =
     (let a = (a + 0x7ed55d16) + push_bit 12 a;
          a = (a XOR 0xc761c23c) XOR signed_drop_bit 19 a;
          a = (a + 0x165667b1) + push_bit 5 a;
          a = (a + 0xd3a2646c) XOR push_bit 9 a;
          a = (a + 0xfd7046c5) + push_bit 3 a;
          a = (a XOR 0xb55a4f09) XOR signed_drop_bit 16 a
      in a)"

definition R_hash :: "rcuckoo \<Rightarrow> u32 \<Rightarrow> int \<Rightarrow> int option" where
  "R_hash c k function =
     (if r_buckets c = 0 then None
      else if function = 1 then Some (sint (k mod r_buckets c))
      else if function = 2 then Some (sint (R_secondary_hash k mod r_buckets c))
      else None)"

definition R_lock_two :: "rcuckoo \<Rightarrow> int \<Rightarrow> int \<Rightarrow> rcuckoo option" where
  "R_lock_two c idx1 idx2 = do { ls \<leftarrow> lock_two (r_locks c) idx1 idx2; Some (c\<lparr>r_locks := ls\<rparr>) }"

definition R_unlock_one :: "rcuckoo \<Rightarrow> int \<Rightarrow> rcuckoo option" where
  "R_unlock_one c idx = do { ls \<leftarrow> unlock_one (r_locks c) idx; Some (c\<lparr>r_locks := ls\<rparr>) }"

definition R_unlock_two :: "rcuckoo \<Rightarrow> int \<Rightarrow> int \<Rightarrow> rcuckoo option" where
  "R_unlock_two c idx1 idx2 = do { ls \<leftarrow> unlock_two (r_locks c) idx1 idx2; Some (c\<lparr>r_locks := ls\<rparr>) }"

definition R_lock_three :: "rcuckoo \<Rightarrow> int \<Rightarrow> int \<Rightarrow> int \<Rightarrow> rcuckoo option" where
  "R_lock_three c idx1 idx2 idx3 = do { ls \<leftarrow> lock_three (r_locks c) idx1 idx2 idx3; Some (c\<lparr>r_locks := ls\<rparr>) }"

definition R_unlock_three :: "rcuckoo \<Rightarrow> int \<Rightarrow> int \<Rightarrow> int \<Rightarrow> rcuckoo option" where
  "R_unlock_three c idx1 idx2 idx3 = do { ls \<leftarrow> unlock_three (r_locks c) idx1 idx2 idx3; Some (c\<lparr>r_locks := ls\<rparr>) }"

definition R_put :: "rcuckoo \<Rightarrow> int \<Rightarrow> int \<Rightarrow> rnode \<Rightarrow> rcuckoo option" where
  "R_put c idx slot n = do { es \<leftarrow> R_setElement (r_elements c) idx slot n; Some (c\<lparr>r_elements := es\<rparr>) }"

definition R_clear :: "rcuckoo \<Rightarrow> int \<Rightarrow> int \<Rightarrow> rcuckoo option" where
  "R_clear c idx slot = do { es \<leftarrow> R_setKey (r_elements c) idx slot EMPTY; Some (c\<lparr>r_elements := es\<rparr>) }"

definition R_remove :: "rcuckoo \<Rightarrow> u32 \<Rightarrow> (RRESULT \<times> rcuckoo) option" where
  "R_remove c k =
     do { idx1 \<leftarrow> R_hash c k 1;
          idx2 \<leftarrow> R_hash c k 2;
          c \<leftarrow> R_lock_two c idx1 idx2;
          slot1 \<leftarrow> R_findSlot (r_elements c) k idx1;
          (slot, c) \<leftarrow>
            (if slot1 \<noteq> -1 then do { c \<leftarrow> R_clear c idx1 slot1; Some (slot1, c) }
             else do { slot2 \<leftarrow> R_findSlot (r_elements c) k idx2;
                       if slot2 \<noteq> -1 then do { c \<leftarrow> R_clear c idx2 slot2; Some (slot2, c) }
                       else Some (slot2, c) });
          c \<leftarrow> R_unlock_two c idx1 idx2;
          Some (if slot \<noteq> -1 then R_TRUE else R_FALSE, c) }"

definition R_contains :: "rcuckoo \<Rightarrow> u32 \<Rightarrow> RRESULT option" where
  "R_contains c k =
     do { idx1 \<leftarrow> R_hash c k 1;
          idx2 \<leftarrow> R_hash c k 2;
          r1 \<leftarrow> R_find (r_elements c) k idx1;
          retval \<leftarrow> (if r1 then Some True else R_find (r_elements c) k idx2);
          Some (if retval then R_TRUE else R_FALSE) }"

fun R_size_slots :: "rnode list \<Rightarrow> int \<Rightarrow> int list \<Rightarrow> int \<Rightarrow> int option" where
  "R_size_slots es i [] n = Some n"
| "R_size_slots es i (j # js) n =
     do { b \<leftarrow> R_isOccupied_slot es i j; R_size_slots es i js (n + (if b then 1 else 0)) }"

fun R_size_rows :: "rnode list \<Rightarrow> int list \<Rightarrow> int \<Rightarrow> int option" where
  "R_size_rows es [] n = Some n"
| "R_size_rows es (i # is) n = do { n \<leftarrow> R_size_slots es i entries n; R_size_rows es is n }"

definition R_size :: "rcuckoo \<Rightarrow> int option" where
  "R_size c = R_size_rows (r_elements c) (map int [0..<unat (r_buckets c)]) 0"

text \<open>A node is two ints, 8 bytes.\<close>

definition R_getStorageSize :: "rcuckoo \<Rightarrow> u32" where
  "R_getStorageSize c = (r_buckets c * of_nat ENTRY_WIDTH + r_buckets c) * 8"

subsection \<open>Search\<close>

definition R_nextPoint :: "rcuckoo \<Rightarrow> point \<Rightarrow> int \<Rightarrow> point option" where
  "R_nextPoint c point slot =
     do { n \<leftarrow> R_getElement (r_elements c) (pt_index point) slot;
          m \<leftarrow> as_int (pt_pathcode point * int ENTRY_WIDTH);
          pc \<leftarrow> as_int (m + slot);
          if pt_table point = 1 then
            do { idx \<leftarrow> R_hash c (nkey n) 2; Some (Point 2 idx pc (pt_depth point + 1)) }
          else
            do { idx \<leftarrow> R_hash c (nkey n) 1; Some (Point 1 idx pc (pt_depth point + 1)) } }"

fun R_scan :: "rcuckoo \<Rightarrow> point \<Rightarrow> int list \<Rightarrow> point list \<Rightarrow> scan_result option" where
  "R_scan c p [] acc = Some (Queue (rev acc))"
| "R_scan c p (slot # slots) acc =
     do { b \<leftarrow> R_isOccupied_slot (r_elements c) (pt_index p) slot;
          if \<not> b then
            do { m \<leftarrow> as_int (pt_pathcode p * int ENTRY_WIDTH);
                 pc \<leftarrow> as_int (m + slot);
                 Some (Found (p\<lparr>pt_pathcode := pc\<rparr>)) }
          else if pt_depth p < R_MAX_SEARCH_DEPTH - 1 then
            do { q \<leftarrow> R_nextPoint c p slot; R_scan c p slots (q # acc) }
          else R_scan c p slots acc }"

definition R_slots :: "int \<Rightarrow> int list" where
  "R_slots start_slot = map (\<lambda>i. (start_slot + int i) mod int ENTRY_WIDTH) [0..<ENTRY_WIDTH]"

definition R_weight :: "point \<Rightarrow> nat" where
  "R_weight p = 9 ^ nat (R_MAX_SEARCH_DEPTH - pt_depth p)"

lemma R_nextPoint_depth: "R_nextPoint c p slot = Some q \<Longrightarrow> pt_depth q = pt_depth p + 1"
  by (auto simp: R_nextPoint_def split: if_splits)

lemma R_scan_weight:
  "R_scan c p slots acc = Some (Queue qs) \<Longrightarrow>
   \<forall>q\<in>set acc. pt_depth q = pt_depth p + 1 \<and> pt_depth p < R_MAX_SEARCH_DEPTH - 1 \<Longrightarrow>
   length qs \<le> length acc + length slots
   \<and> (\<forall>q\<in>set qs. pt_depth q = pt_depth p + 1 \<and> pt_depth p < R_MAX_SEARCH_DEPTH - 1)"
proof (induction slots arbitrary: acc)
  case (Cons slot slots)
  from Cons.prems(1) have "R_isOccupied_slot (r_elements c) (pt_index p) slot = Some True" by (auto split: if_splits)
  note occ = this
  show ?case
  proof (cases "pt_depth p < R_MAX_SEARCH_DEPTH - 1")
    case True
    with Cons.prems(1) occ obtain q where q: "R_nextPoint c p slot = Some q"
      and rest: "R_scan c p slots (q # acc) = Some (Queue qs)" by auto
    have "\<forall>q\<in>set (q # acc). pt_depth q = pt_depth p + 1 \<and> pt_depth p < R_MAX_SEARCH_DEPTH - 1"
      using R_nextPoint_depth [OF q] True Cons.prems(2) by auto
    from Cons.IH [OF rest this] show ?thesis by auto
  next
    case False
    with Cons.prems(1) occ have "R_scan c p slots acc = Some (Queue qs)" by simp
    from Cons.IH [OF this Cons.prems(2)] show ?thesis by (auto simp only: list.size)
  qed
qed auto

lemma R_scan_decreases:
  assumes "R_scan c p (R_slots s) [] = Some (Queue qs)"
  shows "(\<Sum>q\<leftarrow>qs. R_weight q) < R_weight p"
proof (cases "qs = []")
  case False
  from R_scan_weight [OF assms] have len: "length qs \<le> 8"
    and d: "\<forall>q\<in>set qs. pt_depth q = pt_depth p + 1" and lt: "pt_depth p < R_MAX_SEARCH_DEPTH - 1"
    using False by (auto simp: R_slots_def ENTRY_WIDTH_def neq_Nil_conv)
  have "map R_weight qs = map (\<lambda>q. 9 ^ nat (R_MAX_SEARCH_DEPTH - (pt_depth p + 1))) qs"
    using d by (simp add: R_weight_def)
  then have "(\<Sum>q\<leftarrow>qs. R_weight q) = length qs * 9 ^ nat (R_MAX_SEARCH_DEPTH - (pt_depth p + 1))"
    by (simp only: sum_list_triv of_nat_id)
  moreover have "nat (R_MAX_SEARCH_DEPTH - pt_depth p) = Suc (nat (R_MAX_SEARCH_DEPTH - (pt_depth p + 1)))"
    using lt by simp
  then have "R_weight p = 9 * 9 ^ nat (R_MAX_SEARCH_DEPTH - (pt_depth p + 1))" by (simp add: R_weight_def)
  ultimately show ?thesis using len by simp
qed (simp add: R_weight_def)

function R_search_loop :: "rcuckoo \<Rightarrow> point list \<Rightarrow> u32 list \<Rightarrow> u32 \<Rightarrow> (point \<times> u32) option" where
  "R_search_loop c [] paths g = Some (no_point, g)"
| "R_search_loop c (point # q) paths g =
     (case R_getElement (r_elements c) (pt_index point) (pt_pathcode point mod int ENTRY_WIDTH) of None \<Rightarrow> None | Some n \<Rightarrow>
       (if nkey n \<in> set paths then Some (no_point, g)
        else case fastrand g of (z, g') \<Rightarrow>
          (case R_scan c point (R_slots (z mod int ENTRY_WIDTH)) [] of
             None \<Rightarrow> None
           | Some (Found p) \<Rightarrow> Some (p, g')
           | Some (Queue ps) \<Rightarrow> R_search_loop c (q @ ps) (nkey n # paths) g')))"
  by pat_completeness auto
termination
proof (relation "measure (\<lambda>(c, q, paths, g). \<Sum>p\<leftarrow>q. R_weight p)", goal_cases)
  case 1
  then show ?case by simp
next
  case (2 c point q paths g n z g' res ps)
  then show ?case using R_scan_decreases by fastforce
qed

definition R_search :: "rcuckoo \<Rightarrow> int \<Rightarrow> int \<Rightarrow> (point \<times> rcuckoo) option" where
  "R_search c idx1 idx2 =
     do { (p, g) \<leftarrow> R_search_loop c [Point 1 idx1 0 0, Point 2 idx2 1 0] [] (r_seed c);
          Some (p, c\<lparr>r_seed := g\<rparr>) }"

subsection \<open>Insert\<close>

fun R_decode_slots :: "nat \<Rightarrow> int \<Rightarrow> int list \<Rightarrow> int list \<times> int" where
  "R_decode_slots 0 pathcode slots = (slots, pathcode)"
| "R_decode_slots (Suc n) pathcode slots =
     R_decode_slots n (pathcode div int ENTRY_WIDTH) (pathcode mod int ENTRY_WIDTH # slots)"

definition R_decode_path :: "point \<Rightarrow> (int list \<times> int) option" where
  "R_decode_path p =
     (if 0 \<le> pt_depth p \<and> pt_depth p < R_MAX_SEARCH_DEPTH
      then Some (R_decode_slots (nat (pt_depth p + 1)) (pt_pathcode p) []) else None)"

fun R_follow_path :: "rcuckoo \<Rightarrow> int \<Rightarrow> int \<Rightarrow> int list \<Rightarrow> path_cell list option" where
  "R_follow_path c t i [] = None"
| "R_follow_path c t i (s # ss) =
     do { free \<leftarrow> R_isAvailable_slot (r_elements c) i s;
          if free \<or> ss = [] then Some [(t, i, s)]
          else do { n \<leftarrow> R_getElement (r_elements c) i s;
                    i' \<leftarrow> R_hash c (nkey n) (other t);
                    cs \<leftarrow> R_follow_path c (other t) i' ss;
                    Some ((t, i, s) # cs) } }"

text \<open>The test before a move always compares with the second hash.\<close>

definition R_displace :: "rcuckoo \<Rightarrow> int \<Rightarrow> int \<Rightarrow> bool \<Rightarrow> path_cell \<Rightarrow> path_cell \<Rightarrow> (bool \<times> rcuckoo) option" where
  "R_displace c idx1 idx2 final to from =
     (case to of (_, ti, ts) \<Rightarrow> case from of (_, fi, fs) \<Rightarrow>
      do { c \<leftarrow> (if final then R_lock_three c idx1 idx2 ti else R_lock_two c ti fi);
           to_occupied \<leftarrow> R_isOccupied_slot (r_elements c) ti ts;
           stale \<leftarrow>
             (if to_occupied then Some True
              else do { from_occupied \<leftarrow> R_isOccupied_slot (r_elements c) fi fs;
                        if \<not> from_occupied then Some True
                        else do { n \<leftarrow> R_getElement (r_elements c) fi fs;
                                  h \<leftarrow> R_hash c (nkey n) 2;
                                  Some (h \<noteq> ti) } });
           if stale then
             do { c \<leftarrow> (if final then R_unlock_three c idx1 idx2 ti else R_unlock_two c ti fi);
                  Some (False, c) }
           else
             do { n \<leftarrow> R_getElement (r_elements c) fi fs;
                  c \<leftarrow> R_put c ti ts n;
                  c \<leftarrow> R_clear c fi fs;
                  c \<leftarrow> (if final then (if ti \<noteq> idx1 \<and> ti \<noteq> idx2 then R_unlock_one c ti else Some c)
                        else R_unlock_two c ti fi);
                  Some (True, c) } })"

fun R_move_path :: "rcuckoo \<Rightarrow> int \<Rightarrow> int \<Rightarrow> path_cell list \<Rightarrow> (bool \<times> rcuckoo) option" where
  "R_move_path c idx1 idx2 (to # from # rest) =
     do { (ok, c) \<leftarrow> R_displace c idx1 idx2 (rest = []) to from;
          if ok then R_move_path c idx1 idx2 (from # rest) else Some (False, c) }"
| "R_move_path c idx1 idx2 _ = Some (True, c)"

definition R_claim_path :: "rcuckoo \<Rightarrow> int \<Rightarrow> int \<Rightarrow> path_cell list \<Rightarrow> (result \<times> rcuckoo) option" where
  "R_claim_path c idx1 idx2 path =
     (case path of
        [] \<Rightarrow> None
      | [(t, i, s)] \<Rightarrow>
          do { c \<leftarrow> R_lock_two c idx1 idx2;
               free \<leftarrow> R_isAvailable_slot (r_elements c) i s;
               if free then Some (Result SUCCESS t i s, c)
               else do { c \<leftarrow> R_unlock_two c idx1 idx2; Some (Result RETRY 0 0 0, c) } }
      | (t, i, s) # _ # _ \<Rightarrow>
          do { (ok, c) \<leftarrow> R_move_path c idx1 idx2 (rev path);
               Some (if ok then Result SUCCESS t i s else Result RETRY 0 0 0, c) })"

definition R_insert_once :: "rcuckoo \<Rightarrow> rnode \<Rightarrow> int \<Rightarrow> int \<Rightarrow> (result \<times> rcuckoo) option" where
  "R_insert_once c n idx1 idx2 =
     do { c \<leftarrow> R_lock_two c idx1 idx2;
          slot1 \<leftarrow> R_findSlot (r_elements c) (nkey n) idx1;
          if slot1 \<noteq> -1 then Some (Result DUPLICATE 1 idx1 slot1, c)
          else do {
          slot2 \<leftarrow> R_findSlot (r_elements c) (nkey n) idx2;
          if slot2 \<noteq> -1 then Some (Result DUPLICATE 2 idx2 slot2, c)
          else do {
          free1 \<leftarrow> R_isAvailable (r_elements c) idx1;
          if free1 \<noteq> -1 then Some (Result SUCCESS 1 idx1 free1, c)
          else do {
          free2 \<leftarrow> R_isAvailable (r_elements c) idx2;
          if free2 \<noteq> -1 then Some (Result SUCCESS 2 idx2 free2, c)
          else do {
          c \<leftarrow> R_unlock_two c idx1 idx2;
          (point, c) \<leftarrow> R_search c idx1 idx2;
          if pt_pathcode point = -1 then Some (Result RESIZE 0 0 0, c)
          else do {
          (slots, rest) \<leftarrow> R_decode_path point;
          path \<leftarrow> (if rest = 0 then R_follow_path c 1 idx1 slots else R_follow_path c 2 idx2 slots);
          R_claim_path c idx1 idx2 path } } } } } }"

definition R_insert_attempt :: "rcuckoo \<Rightarrow> rnode \<Rightarrow> int \<Rightarrow> int \<Rightarrow> (RRESULT option \<times> rcuckoo) option" where
  "R_insert_attempt c n idx1 idx2 =
     do { (r, c) \<leftarrow> R_insert_once c n idx1 idx2;
          if res_status r = RESIZE then Some (Some R_ABORT_FAILURE, c)
          else if res_status r = RETRY then Some (None, c)
          else do { c \<leftarrow> R_put c (res_index r) (res_slot r) n;
                    c \<leftarrow> R_unlock_two c idx1 idx2;
                    Some (Some (if res_status r = DUPLICATE then R_DUP else R_TRUE), c) } }"

fun R_insert_loop :: "nat \<Rightarrow> rcuckoo \<Rightarrow> rnode \<Rightarrow> int \<Rightarrow> int \<Rightarrow> (RRESULT \<times> rcuckoo) outcome" where
  "R_insert_loop 0 c n idx1 idx2 = No_fuel"
| "R_insert_loop (Suc fuel) c n idx1 idx2 =
     (case R_insert_attempt c n idx1 idx2 of
        None \<Rightarrow> Fault
      | Some (Some r, c') \<Rightarrow> Done (r, c')
      | Some (None, c') \<Rightarrow> R_insert_loop fuel c' n idx1 idx2)"

definition R_insert :: "nat \<Rightarrow> rcuckoo \<Rightarrow> rnode \<Rightarrow> (RRESULT \<times> rcuckoo) outcome" where
  "R_insert fuel c n =
     (case (R_hash c (nkey n) 1, R_hash c (nkey n) 2) of
        (Some idx1, Some idx2) \<Rightarrow> R_insert_loop fuel c n idx1 idx2
      | _ \<Rightarrow> Fault)"

end
