(* ===== verification/RCuckooInv.thy ===== *)
theory RCuckooInv
  imports RCuckoo
begin

text \<open>
  The invariant of the table of the RDMA store and what its operations keep of it: the array has one
  row of \<open>ENTRY_WIDTH\<close> nodes per bucket and one lock word per bucket, every key sits in a bucket that one of its
  hashes names and only once.  The table is the map \<open>rmap\<close> from keys to values.  Lemmas: search never
  leaves the array or the range of \<open>int\<close>; an attempt of \<open>insert\<close> moves elements without losing
  one and holds exactly the locks that its status promises.
\<close>

subsection \<open>Cells\<close>

definition r_cap :: "rcuckoo \<Rightarrow> nat" where
  "r_cap c = unat (r_buckets c)"

definition r_shaped :: "rcuckoo \<Rightarrow> bool" where
  "r_shaped c \<longleftrightarrow> 0 < r_cap c \<and> 9 * int (r_cap c) \<le> int_max \<and> length (r_elements c) = 9 * r_cap c"

definition rhome :: "rcuckoo \<Rightarrow> int \<Rightarrow> u32 \<Rightarrow> int" where
  "rhome c t k = (if t = 1 then uint (k mod r_buckets c) else uint (R_secondary_hash k mod r_buckets c))"

definition rcell :: "rcuckoo \<Rightarrow> int \<Rightarrow> int \<Rightarrow> rnode" where
  "rcell c i s = r_elements c ! nat (i * 8 + s)"

definition rput :: "rcuckoo \<Rightarrow> int \<Rightarrow> int \<Rightarrow> rnode \<Rightarrow> rcuckoo" where
  "rput c i s n = c\<lparr>r_elements := (r_elements c)[nat (i * 8 + s) := n]\<rparr>"

abbreviation rin :: "rcuckoo \<Rightarrow> int \<Rightarrow> int \<Rightarrow> bool" where
  "rin c i s \<equiv> in_range i (r_cap c) \<and> in_range s ENTRY_WIDTH"

definition rlocked :: "rcuckoo \<Rightarrow> int set \<Rightarrow> rcuckoo" where
  "rlocked c A = c\<lparr>r_locks := lock_image (r_cap c) A\<rparr>"

lemma EW: "ENTRY_WIDTH = 8" "int ENTRY_WIDTH = 8"
  by (simp_all add: ENTRY_WIDTH_def)

lemma cell_index:
  assumes "r_shaped c" "rin c i s"
  shows "0 \<le> i * 8 + s" "i * 8 + s < 8 * int (r_cap c)" "nat (i * 8 + s) < length (r_elements c)"
    "0 \<le> i * 8" "i * 8 \<le> int_max" "i * 8 + s \<le> int_max"
  using assms by (auto simp: r_shaped_def EW)

lemma cell_index_eq:
  assumes "rin c i s" "rin c i' s'"
  shows "nat (i * 8 + s) = nat (i' * 8 + s') \<longleftrightarrow> i = i' \<and> s = s'"
proof -
  have "0 \<le> s \<and> s < 8" "0 \<le> s' \<and> s' < 8" using assms by (simp_all add: EW)
  then have "i * 8 + s = i' * 8 + s' \<Longrightarrow> i = i' \<and> s = s'" by presburger
  with assms show ?thesis by (auto simp: nat_eq_iff)
qed

lemma rframe [simp]:
  "r_buckets (rput c i s n) = r_buckets c" "r_cap (rput c i s n) = r_cap c" "rhome (rput c i s n) = rhome c"
  "r_locks (rput c i s n) = r_locks c" "r_seed (rput c i s n) = r_seed c"
  "r_shaped (rput c i s n) = r_shaped c"
  "r_buckets (rlocked c A) = r_buckets c" "r_cap (rlocked c A) = r_cap c" "rhome (rlocked c A) = rhome c"
  "r_shaped (rlocked c A) = r_shaped c" "rcell (rlocked c A) = rcell c" "r_elements (rlocked c A) = r_elements c"
  "rlocked (rlocked c A) B = rlocked c B" "rput (rlocked c A) i s n = rlocked (rput c i s n) A"
  "r_seed (rlocked c A) = r_seed c" "r_locks (rlocked c A) = lock_image (r_cap c) A"
  "r_buckets (c\<lparr>r_seed := g\<rparr>) = r_buckets c" "r_cap (c\<lparr>r_seed := g\<rparr>) = r_cap c" "rhome (c\<lparr>r_seed := g\<rparr>) = rhome c"
  "r_shaped (c\<lparr>r_seed := g\<rparr>) = r_shaped c" "rcell (c\<lparr>r_seed := g\<rparr>) = rcell c"
  "(rlocked c A)\<lparr>r_seed := g\<rparr> = rlocked (c\<lparr>r_seed := g\<rparr>) A"
  by (simp_all add: rput_def rlocked_def r_cap_def rhome_def r_shaped_def rcell_def fun_eq_iff)

lemma rhome_range [simp]:
  assumes "r_shaped c"
  shows "0 \<le> rhome c t k" "rhome c t k < int (r_cap c)"
proof -
  have "uint (x mod r_buckets c) < int (r_cap c)" for x
    using assms unfolding r_shaped_def r_cap_def
    by (simp only: uint_nat unat_mod_distrib of_nat_less_iff mod_less_divisor)
  then show "0 \<le> rhome c t k" "rhome c t k < int (r_cap c)" by (auto simp only: rhome_def uint_ge_0 split: if_split)
qed

lemma R_hash_home [exec_simps]:
  assumes "r_shaped c" "t \<in> {1, 2}"
  shows "R_hash c k t = Some (rhome c t k)"
proof -
  have b: "r_buckets c \<noteq> 0" using assms(1) by (auto simp: r_shaped_def r_cap_def)
  have "uint (x mod r_buckets c) < int (r_cap c)" for x
    using assms(1) unfolding r_shaped_def r_cap_def
    by (simp only: uint_nat unat_mod_distrib of_nat_less_iff mod_less_divisor)
  moreover have "int (r_cap c) < 2 ^ 31" using assms(1) by (simp add: r_shaped_def int_max_def)
  ultimately have "sint (x mod r_buckets c) = uint (x mod r_buckets c)" for x by (intro sint_small) (meson less_trans)
  with b assms(2) show ?thesis unfolding R_hash_def rhome_def by auto
qed

lemma R_cell [exec_simps]:
  assumes "r_shaped c" "rin c i s"
  shows "R_getElement (r_elements c) i s = Some (rcell c i s)"
    and "R_isOccupied_slot (r_elements c) i s = Some (R_isOccupied (rcell c i s))"
    and "R_isAvailable_slot (r_elements c) i s = Some (\<not> R_isOccupied (rcell c i s))"
    and "R_put c i s n = Some (rput c i s n)"
    and "R_clear c i s = Some (rput c i s ((rcell c i s)\<lparr>nkey := EMPTY\<rparr>))"
proof -
  note ix = cell_index [OF assms]
  have off: "R_offset i s = Some (i * 8 + s)" using ix by (simp add: R_offset_def EW exec_simps)
  have at: "at (r_elements c) (i * 8 + s) = Some (rcell c i s)"
    "upd (r_elements c) (i * 8 + s) m = Some ((r_elements c)[nat (i * 8 + s) := m])" for m
    using ix by (simp_all add: at_def upd_def rcell_def)
  show g: "R_getElement (r_elements c) i s = Some (rcell c i s)" using off at by (simp add: R_getElement_def)
  show o: "R_isOccupied_slot (r_elements c) i s = Some (R_isOccupied (rcell c i s))" using g by (simp add: R_isOccupied_slot_def)
  show "R_isAvailable_slot (r_elements c) i s = Some (\<not> R_isOccupied (rcell c i s))" using o by (simp add: R_isAvailable_slot_def)
  show "R_put c i s n = Some (rput c i s n)" using off at by (simp add: R_put_def R_setElement_def rput_def)
  show "R_clear c i s = Some (rput c i s ((rcell c i s)\<lparr>nkey := EMPTY\<rparr>))"
    using off at by (simp add: R_clear_def R_setKey_def rput_def)
qed

lemma rcell_rput:
  assumes "r_shaped c" "rin c i s" "rin c i' s'"
  shows "rcell (rput c i s n) i' s' = (if i' = i \<and> s' = s then n else rcell c i' s')"
  using cell_index [OF assms(1,2)] cell_index_eq [OF assms(2,3)] by (auto simp: rcell_def rput_def)

lemma R_lock_steps [exec_simps]:
  assumes "in_range i (r_cap c)" "in_range j (r_cap c)"
  shows "A \<inter> {i, j} = {} \<Longrightarrow> R_lock_two (rlocked c A) i j = Some (rlocked c (A \<union> {i, j}))"
    and "{i, j} \<subseteq> A \<Longrightarrow> R_unlock_two (rlocked c A) i j = Some (rlocked c (A - {i, j}))"
    and "in_range k (r_cap c) \<Longrightarrow> A \<inter> {i, j, k} = {} \<Longrightarrow> R_lock_three (rlocked c A) i j k = Some (rlocked c (A \<union> {i, j, k}))"
    and "in_range k (r_cap c) \<Longrightarrow> {i, j, k} \<subseteq> A \<Longrightarrow> R_unlock_three (rlocked c A) i j k = Some (rlocked c (A - {i, j, k}))"
    and "i \<in> A \<Longrightarrow> R_unlock_one (rlocked c A) i = Some (rlocked c (A - {i}))"
  using assms
  by (simp_all add: R_lock_two_def R_unlock_two_def R_lock_three_def R_unlock_three_def R_unlock_one_def rlocked_def exec_simps)

subsection \<open>Contents\<close>

definition rlist :: "rcuckoo \<Rightarrow> rnode list" where
  "rlist c = filter R_isOccupied (take (8 * r_cap c) (r_elements c))"

definition rcontents :: "rcuckoo \<Rightarrow> rnode multiset" where
  "rcontents c = mset (rlist c)"

text \<open>The lock words behind the buckets.\<close>

definition rtail :: "rcuckoo \<Rightarrow> rnode list" where
  "rtail c = drop (8 * r_cap c) (r_elements c)"

definition runique :: "rcuckoo \<Rightarrow> bool" where
  "runique c \<longleftrightarrow> distinct (map nkey (rlist c))"

definition rmap :: "rcuckoo \<Rightarrow> u32 \<rightharpoonup> u32" where
  "rmap c = map_of (map (\<lambda>n. (nkey n, nval n)) (rlist c))"

definition rplaced :: "rcuckoo \<Rightarrow> bool" where
  "rplaced c \<longleftrightarrow> (\<forall>i s. rin c i s \<longrightarrow> R_isOccupied (rcell c i s) \<longrightarrow>
     i = rhome c 1 (nkey (rcell c i s)) \<or> i = rhome c 2 (nkey (rcell c i s)))"

lemma rtail_frame [simp]: "rtail (rlocked c A) = rtail c" "rtail (c\<lparr>r_seed := g\<rparr>) = rtail c"
  by (simp_all add: rtail_def r_cap_def)

lemma rtail_rput [simp]:
  assumes "r_shaped c" "rin c i s"
  shows "rtail (rput c i s n) = rtail c"
proof -
  have "nat (i * 8 + s) < 8 * r_cap c" using cell_index(1,2) [OF assms] by linarith
  then show ?thesis by (simp add: rtail_def rput_def r_cap_def drop_update_cancel)
qed

lemma rlist_frame [simp]:
  "rlist (rlocked c A) = rlist c" "rcontents (rlocked c A) = rcontents c" "rmap (rlocked c A) = rmap c"
  "runique (rlocked c A) = runique c" "rplaced (rlocked c A) = rplaced c"
  "rlist (c\<lparr>r_seed := g\<rparr>) = rlist c" "rcontents (c\<lparr>r_seed := g\<rparr>) = rcontents c" "rmap (c\<lparr>r_seed := g\<rparr>) = rmap c"
  "runique (c\<lparr>r_seed := g\<rparr>) = runique c" "rplaced (c\<lparr>r_seed := g\<rparr>) = rplaced c"
  by (simp_all add: rlist_def rcontents_def rmap_def runique_def rplaced_def)

lemma rcontents_rput:
  assumes "r_shaped c" "rin c i s"
  shows "rcontents (rput c i s n) + (if R_isOccupied (rcell c i s) then {#rcell c i s#} else {#}) =
         rcontents c + (if R_isOccupied n then {#n#} else {#})"
proof -
  note ix = cell_index [OF assms]
  let ?k = "nat (i * 8 + s)" and ?xs = "take (8 * r_cap c) (r_elements c)"
  have k: "?k < length ?xs" using ix assms(1) by (auto simp: r_shaped_def)
  have nth: "?xs ! ?k = rcell c i s" using k by (simp add: rcell_def)
  have "mset (?xs[?k := n]) + {#rcell c i s#} = mset ?xs + {#n#}"
    using mset_update_nth [OF k, of n] nth by simp
  then have "filter_mset R_isOccupied (mset (?xs[?k := n]) + {#rcell c i s#}) = filter_mset R_isOccupied (mset ?xs + {#n#})"
    by simp
  moreover have "rcontents (rput c i s n) = filter_mset R_isOccupied (mset (?xs[?k := n]))"
    by (simp add: rcontents_def rlist_def rput_def r_cap_def take_update_swap)
  ultimately show ?thesis by (simp add: rcontents_def rlist_def split: if_splits)
qed

lemma in_rcontents:
  assumes "r_shaped c"
  shows "n \<in># rcontents c \<longleftrightarrow> R_isOccupied n \<and> (\<exists>i s. rin c i s \<and> rcell c i s = n)"
proof -
  have len: "length (r_elements c) = 9 * r_cap c" using assms by (simp add: r_shaped_def)
  have "n \<in> set (take (8 * r_cap c) (r_elements c)) \<longleftrightarrow> (\<exists>k < 8 * r_cap c. r_elements c ! k = n)"
    using len by (auto simp: in_set_conv_nth)
  also have "\<dots> \<longleftrightarrow> (\<exists>i s. rin c i s \<and> rcell c i s = n)"
  proof
    assume "\<exists>k < 8 * r_cap c. r_elements c ! k = n"
    then obtain k where k: "k < 8 * r_cap c" "r_elements c ! k = n" by blast
    have "int (k div 8) * 8 + int (k mod 8) = int k" by presburger
    then have "rcell c (int (k div 8)) (int (k mod 8)) = n" using k by (simp add: rcell_def)
    moreover have "rin c (int (k div 8)) (int (k mod 8))" using k by (auto simp: EW)
    ultimately show "\<exists>i s. rin c i s \<and> rcell c i s = n" by blast
  next
    assume "\<exists>i s. rin c i s \<and> rcell c i s = n"
    then obtain i s where rs: "rin c i s" "rcell c i s = n" by blast
    from cell_index [OF assms rs(1)] have "nat (i * 8 + s) < 8 * r_cap c" by auto
    with rs(2) show "\<exists>k < 8 * r_cap c. r_elements c ! k = n" by (auto simp: rcell_def)
  qed
  finally show ?thesis by (auto simp: rcontents_def rlist_def)
qed

lemma runique_count: "runique c \<longleftrightarrow> (\<forall>k. count (image_mset nkey (rcontents c)) k \<le> 1)"
proof -
  have "distinct xs \<longleftrightarrow> (\<forall>k. count (mset xs) k \<le> 1)" for xs :: "u32 list"
  proof
    assume "distinct xs"
    then show "\<forall>k. count (mset xs) k \<le> 1" by (simp add: distinct_count_atmost_1)
  next
    assume "\<forall>k. count (mset xs) k \<le> 1"
    then show "distinct xs"
      by (simp add: distinct_count_atmost_1) (metis One_nat_def count_greater_eq_one_iff le_antisym set_mset_mset count_eq_zero_iff)
  qed
  from this [of "map nkey (rlist c)"] show ?thesis by (simp add: runique_def rcontents_def)
qed

lemma Node_new_eq [simp]: "Node_new (nkey n) (nval n) = n"
  by (simp add: Node_new_def)

lemma rmap_iff:
  assumes "runique c"
  shows "rmap c k = Some v \<longleftrightarrow> Node_new k v \<in># rcontents c"
proof -
  have "map fst (map (\<lambda>n. (nkey n, nval n)) (rlist c)) = map nkey (rlist c)" by simp
  with assms have "distinct (map fst (map (\<lambda>n. (nkey n, nval n)) (rlist c)))" by (simp only: runique_def)
  from map_of_eq_Some_iff [OF this, of k v] have "rmap c k = Some v \<longleftrightarrow> (\<exists>n\<in>set (rlist c). nkey n = k \<and> nval n = v)"
    by (auto simp: rmap_def)
  also have "\<dots> \<longleftrightarrow> Node_new k v \<in> set (rlist c)"
  proof
    assume "\<exists>n\<in>set (rlist c). nkey n = k \<and> nval n = v"
    then show "Node_new k v \<in> set (rlist c)" by (auto simp: Node_new_eq)
  next
    assume "Node_new k v \<in> set (rlist c)"
    then show "\<exists>n\<in>set (rlist c). nkey n = k \<and> nval n = v" by (rule bexI [rotated]) (simp add: Node_new_def)
  qed
  finally show ?thesis by (simp add: rcontents_def)
qed

lemma rmap_dom: "k \<in> dom (rmap c) \<longleftrightarrow> (\<exists>n. n \<in># rcontents c \<and> nkey n = k)"
  by (force simp: rmap_def dom_map_of_conv_image_fst rcontents_def)

text \<open>Storing a node under a key that is absent, replacing the node of a key, and removing it.\<close>

lemma rmap_cong: "runique c \<Longrightarrow> rcontents c' = rcontents c \<Longrightarrow> rmap c' = rmap c"
proof -
  assume u: "runique c" and eq: "rcontents c' = rcontents c"
  then have "runique c'" by (simp add: runique_count)
  then have "rmap c' k = Some v \<longleftrightarrow> rmap c k = Some v" for k v using u eq by (simp add: rmap_iff)
  then show ?thesis by (metis ext not_None_eq)
qed

lemma rmap_add:
  assumes "runique c" "rcontents c' = add_mset n (rcontents c)" "nkey n \<notin> dom (rmap c)"
  shows "runique c'" "rmap c' = (rmap c)(nkey n \<mapsto> nval n)"
proof -
  have "nkey n \<notin># image_mset nkey (rcontents c)" using assms(3) rmap_dom [of "nkey n" c] by auto
  then have "count (image_mset nkey (rcontents c)) (nkey n) = 0" by (simp only: not_in_iff)
  then show u: "runique c'" using assms(1,2) by (simp add: runique_count)
  have "rmap c' k = Some v \<longleftrightarrow> ((rmap c)(nkey n \<mapsto> nval n)) k = Some v" for k v
  proof -
    have "Node_new k v = n \<longleftrightarrow> k = nkey n \<and> v = nval n" by (auto simp: Node_new_def)
    moreover have "Node_new (nkey n) v \<notin># rcontents c" using assms(1,3) rmap_iff [of c "nkey n" v] by auto
    ultimately show ?thesis using rmap_iff [OF u] rmap_iff [OF assms(1)] assms(2) by auto
  qed
  then show "rmap c' = (rmap c)(nkey n \<mapsto> nval n)" by (metis ext not_None_eq)
qed

lemma rmap_sub:
  assumes "runique c" "rcontents c = add_mset n (rcontents c')"
  shows "runique c'" "rmap c' = (rmap c)(nkey n := None)" "nkey n \<in> dom (rmap c)" "nkey n \<notin> dom (rmap c')"
proof -
  have one: "count (image_mset nkey (rcontents c')) (nkey n) = 0"
    using assms(1) [unfolded runique_count, THEN spec [of _ "nkey n"]] unfolding assms(2) by simp
  have "count (image_mset nkey (rcontents c')) k \<le> count (image_mset nkey (rcontents c)) k" for k
    unfolding assms(2) by simp
  then show u: "runique c'" using assms(1) unfolding runique_count by (meson le_trans)
  have absent: "nkey n \<notin># image_mset nkey (rcontents c')" using one by (simp only: not_in_iff)
  then show "nkey n \<notin> dom (rmap c')" using rmap_dom [of "nkey n" c'] by (metis image_eqI set_image_mset)
  show "nkey n \<in> dom (rmap c)" using assms(2) rmap_dom [of "nkey n" c] by auto
  have "rmap c' k = Some v \<longleftrightarrow> ((rmap c)(nkey n := None)) k = Some v" for k v
  proof (cases "k = nkey n")
    case True
    then show ?thesis using \<open>nkey n \<notin> dom (rmap c')\<close> by auto
  next
    case False
    then have "Node_new k v \<noteq> n" by (auto simp: Node_new_def)
    with False show ?thesis using rmap_iff [OF u, of k v] rmap_iff [OF assms(1), of k v] assms(2) by auto
  qed
  then show "rmap c' = (rmap c)(nkey n := None)" by (metis ext not_None_eq)
qed

subsection \<open>Writing a cell\<close>

definition r_inv :: "rcuckoo \<Rightarrow> bool" where
  "r_inv c \<longleftrightarrow> r_shaped c \<and> rplaced c \<and> runique c"

lemma rplaced_rput:
  assumes "r_shaped c" "rplaced c" "rin c i s"
    and "R_isOccupied n \<Longrightarrow> i = rhome c 1 (nkey n) \<or> i = rhome c 2 (nkey n)"
  shows "rplaced (rput c i s n)"
  using assms by (auto simp: rplaced_def rcell_rput)

lemma key_cell:
  assumes "r_inv c" "k \<noteq> EMPTY"
  shows "k \<in> dom (rmap c) \<longleftrightarrow> (\<exists>s. in_range s ENTRY_WIDTH \<and>
     (nkey (rcell c (rhome c 1 k) s) = k \<or> nkey (rcell c (rhome c 2 k) s) = k))"
proof -
  have sh: "r_shaped c" and pl: "rplaced c" using assms(1) by (auto simp: r_inv_def)
  show ?thesis
  proof
    assume "k \<in> dom (rmap c)"
    then obtain n where "n \<in># rcontents c" "nkey n = k" by (auto simp: rmap_dom)
    then obtain i s where "rin c i s" "rcell c i s = n" "R_isOccupied n" using in_rcontents [OF sh] by blast
    with pl \<open>nkey n = k\<close> show "\<exists>s. in_range s ENTRY_WIDTH \<and>
      (nkey (rcell c (rhome c 1 k) s) = k \<or> nkey (rcell c (rhome c 2 k) s) = k)" unfolding rplaced_def by metis
  next
    assume "\<exists>s. in_range s ENTRY_WIDTH \<and> (nkey (rcell c (rhome c 1 k) s) = k \<or> nkey (rcell c (rhome c 2 k) s) = k)"
    then obtain i s where "rin c i s" "nkey (rcell c i s) = k" using rhome_range [OF sh] by meson
    with assms(2) in_rcontents [OF sh] show "k \<in> dom (rmap c)" unfolding rmap_dom R_isOccupied_def by metis
  qed
qed

lemma rput_new:
  assumes "r_inv c" "rin c i s" "\<not> R_isOccupied (rcell c i s)" "nkey n \<noteq> EMPTY" "nkey n \<notin> dom (rmap c)"
    and "i = rhome c 1 (nkey n) \<or> i = rhome c 2 (nkey n)"
  shows "r_inv (rput c i s n)" "rmap (rput c i s n) = (rmap c)(nkey n \<mapsto> nval n)"
proof -
  have "rcontents (rput c i s n) = add_mset n (rcontents c)"
    using rcontents_rput [of c i s n] assms by (simp add: r_inv_def R_isOccupied_def)
  from rmap_add [OF _ this assms(5)] assms(1) show "rmap (rput c i s n) = (rmap c)(nkey n \<mapsto> nval n)"
    and "r_inv (rput c i s n)" using rplaced_rput [of c i s n] assms by (auto simp: r_inv_def)
qed

lemma rput_erase:
  assumes "r_inv c" "rin c i s" "R_isOccupied (rcell c i s)"
  shows "r_inv (rput c i s ((rcell c i s)\<lparr>nkey := EMPTY\<rparr>))"
    "rmap (rput c i s ((rcell c i s)\<lparr>nkey := EMPTY\<rparr>)) = (rmap c)(nkey (rcell c i s) := None)"
    "nkey (rcell c i s) \<in> dom (rmap c)" "nkey (rcell c i s) \<notin> dom (rmap (rput c i s ((rcell c i s)\<lparr>nkey := EMPTY\<rparr>)))"
proof -
  let ?n = "(rcell c i s)\<lparr>nkey := EMPTY\<rparr>"
  have "rcontents c = add_mset (rcell c i s) (rcontents (rput c i s ?n))"
    using rcontents_rput [of c i s ?n] assms by (simp add: r_inv_def R_isOccupied_def)
  note sub = rmap_sub [OF _ this]
  show "rmap (rput c i s ?n) = (rmap c)(nkey (rcell c i s) := None)" "nkey (rcell c i s) \<in> dom (rmap c)"
    "nkey (rcell c i s) \<notin> dom (rmap (rput c i s ?n))" using sub assms(1) by (auto simp: r_inv_def)
  show "r_inv (rput c i s ?n)" using sub assms rplaced_rput [of c i s ?n] by (auto simp: r_inv_def R_isOccupied_def)
qed

lemma rput_replace:
  assumes "r_inv c" "rin c i s" "nkey (rcell c i s) = nkey n" "nkey n \<noteq> EMPTY"
  shows "r_inv (rput c i s n)" "rmap (rput c i s n) = (rmap c)(nkey n \<mapsto> nval n)" "nkey n \<in> dom (rmap c)"
proof -
  let ?d = "rput c i s ((rcell c i s)\<lparr>nkey := EMPTY\<rparr>)"
  have sh: "r_shaped c" using assms(1) by (simp add: r_inv_def)
  have occ: "R_isOccupied (rcell c i s)" using assms by (simp add: R_isOccupied_def)
  note e = rput_erase [OF assms(1,2) occ]
  have cell: "rcell ?d i s = (rcell c i s)\<lparr>nkey := EMPTY\<rparr>" using rcell_rput [OF sh assms(2,2)] by simp
  have home: "i = rhome ?d 1 (nkey n) \<or> i = rhome ?d 2 (nkey n)"
    using assms occ unfolding r_inv_def rplaced_def by (metis rframe(3))
  have "rput ?d i s n = rput c i s n" by (simp add: rput_def)
  with rput_new [OF e(1) _ _ assms(4) _ home, of s] assms cell e(2-4)
  show "r_inv (rput c i s n)" "rmap (rput c i s n) = (rmap c)(nkey n \<mapsto> nval n)" "nkey n \<in> dom (rmap c)"
    by (auto simp: R_isOccupied_def)
qed

end
