(* ===== verification/RCuckooOps.thy ===== *)
theory RCuckooOps
  imports RCuckooInv
begin

text \<open>
  The operations of the table of the RDMA store on states that satisfy its invariant: the slot loops,
  \<open>contains\<close>, \<open>remove\<close>, the search, one attempt of \<open>insert\<close> and its loop.
\<close>

subsection \<open>Slots\<close>

lemma R_slot_loop_ok:
  assumes "r_shaped c" "in_range idx (r_cap c)" "\<forall>i\<in>set is. in_range i ENTRY_WIDTH"
  shows "\<exists>r. R_slot_loop p (r_elements c) idx is = Some r
     \<and> (r = -1 \<and> (\<forall>i\<in>set is. \<not> p (rcell c idx i)) \<or> r \<in> set is \<and> p (rcell c idx r))"
  using assms(3)
proof (induction "is")
  case (Cons i "is")
  then have "R_getElement (r_elements c) idx i = Some (rcell c idx i)" using assms(1,2) by (intro R_cell) auto
  with Cons show ?case by auto
qed simp

lemma set_entries [simp]: "i \<in> set entries \<longleftrightarrow> in_range i ENTRY_WIDTH"
proof -
  have "\<exists>k\<in>{0..<ENTRY_WIDTH}. i = int k" if "in_range i ENTRY_WIDTH"
    using that by (intro bexI [of _ "nat i"]) (auto simp: nat_less_iff)
  then show ?thesis by (auto simp: entries_def)
qed

definition slot_result :: "(rnode \<Rightarrow> bool) \<Rightarrow> rcuckoo \<Rightarrow> int \<Rightarrow> int \<Rightarrow> bool" where
  "slot_result p c idx r \<longleftrightarrow> r = -1 \<and> (\<forall>i. in_range i ENTRY_WIDTH \<longrightarrow> \<not> p (rcell c idx i))
     \<or> in_range r ENTRY_WIDTH \<and> p (rcell c idx r)"

lemma R_slots_found:
  assumes "r_shaped c" "in_range idx (r_cap c)"
  shows "\<exists>r. R_slot_loop p (r_elements c) idx entries = Some r \<and> slot_result p c idx r"
proof -
  have "\<forall>i\<in>set entries. in_range i ENTRY_WIDTH" by simp
  from R_slot_loop_ok [OF assms this] show ?thesis unfolding slot_result_def set_entries Ball_def by blast
qed

lemma R_findSlot_ok:
  assumes "r_shaped c" "in_range idx (r_cap c)"
  shows "\<exists>r. R_findSlot (r_elements c) k idx = Some r \<and> slot_result (\<lambda>n. nkey n = k) c idx r"
    and "\<exists>r. R_isAvailable (r_elements c) idx = Some r \<and> slot_result (\<lambda>n. \<not> R_isOccupied n) c idx r"
    and "\<exists>r. R_find (r_elements c) k idx = Some (r \<noteq> -1) \<and> slot_result (\<lambda>n. nkey n = k) c idx r"
  using R_slots_found [OF assms, of "\<lambda>n. nkey n = k"] R_slots_found [OF assms, of "\<lambda>n. \<not> R_isOccupied n"]
  by (auto simp: R_findSlot_def R_isAvailable_def R_find_def)

lemma slot_result_none: "slot_result p c idx r \<Longrightarrow> r = -1 \<longleftrightarrow> (\<forall>i. in_range i ENTRY_WIDTH \<longrightarrow> \<not> p (rcell c idx i))"
  by (auto simp: slot_result_def)

lemma slot_result_some: "slot_result p c idx r \<Longrightarrow> r \<noteq> -1 \<Longrightarrow> in_range r ENTRY_WIDTH \<and> p (rcell c idx r)"
  by (auto simp: slot_result_def)

subsection \<open>contains and remove\<close>

lemma R_contains_ok:
  assumes "r_inv c" "k \<noteq> EMPTY"
  shows "R_contains c k = Some (if k \<in> dom (rmap c) then R_TRUE else R_FALSE)"
proof -
  have sh: "r_shaped c" using assms(1) by (simp add: r_inv_def)
  let ?i = "rhome c 1 k" and ?j = "rhome c 2 k"
  have rng: "in_range ?i (r_cap c)" "in_range ?j (r_cap c)" using sh by simp_all
  obtain r1 where r1: "R_find (r_elements c) k ?i = Some (r1 \<noteq> -1)" "slot_result (\<lambda>n. nkey n = k) c ?i r1"
    using R_findSlot_ok(3) [OF sh rng(1)] by blast
  obtain r2 where r2: "R_find (r_elements c) k ?j = Some (r2 \<noteq> -1)" "slot_result (\<lambda>n. nkey n = k) c ?j r2"
    using R_findSlot_ok(3) [OF sh rng(2)] by blast
  have "k \<in> dom (rmap c) \<longleftrightarrow> r1 \<noteq> -1 \<or> r2 \<noteq> -1"
    unfolding key_cell [OF assms] slot_result_none [OF r1(2)] slot_result_none [OF r2(2)] by blast
  with r1(1) r2(1) sh show ?thesis by (cases "r1 = -1") (simp_all add: R_contains_def exec_simps)
qed

lemma R_remove_ok:
  assumes inv: "r_inv c" and k: "k \<noteq> EMPTY"
  shows "\<exists>d. R_remove (rlocked c {}) k = Some (if k \<in> dom (rmap c) then R_TRUE else R_FALSE, rlocked d {})
     \<and> r_inv d \<and> rmap d = (rmap c)(k := None) \<and> r_buckets d = r_buckets c"
proof -
  have sh: "r_shaped c" using inv by (simp add: r_inv_def)
  let ?i = "rhome c 1 k" and ?j = "rhome c 2 k"
  have rng: "in_range ?i (r_cap c)" "in_range ?j (r_cap c)" using sh by simp_all
  obtain r1 where r1: "R_findSlot (r_elements c) k ?i = Some r1" "slot_result (\<lambda>n. nkey n = k) c ?i r1"
    using R_findSlot_ok(1) [OF sh rng(1)] by blast
  obtain r2 where r2: "R_findSlot (r_elements c) k ?j = Some r2" "slot_result (\<lambda>n. nkey n = k) c ?j r2"
    using R_findSlot_ok(1) [OF sh rng(2)] by blast
  have ex: "\<exists>d. r_inv d \<and> rmap d = (rmap c)(k := None) \<and> r_buckets d = r_buckets c \<and> r_cap d = r_cap c
      \<and> R_clear (rlocked c A) i s = Some (rlocked d A) \<and> k \<in> dom (rmap c)"
    if ir: "in_range i (r_cap c)" "in_range s ENTRY_WIDTH \<and> nkey (rcell c i s) = k" for i s A
  proof -
    have "R_isOccupied (rcell c i s)" using ir k by (simp add: R_isOccupied_def)
    with rput_erase [OF inv _ this] ir sh show ?thesis by (auto simp: exec_simps)
  qed
  show ?thesis
  proof (cases "r1 = -1")
    case False
    with ex [OF rng(1) slot_result_some [OF r1(2)], of "{?i, ?j}"] r1 rng sh show ?thesis
      by (auto simp: R_remove_def exec_simps)
  next
    case t1: True
    show ?thesis
    proof (cases "r2 = -1")
      case False
      with ex [OF rng(2) slot_result_some [OF r2(2)], of "{?i, ?j}"] r1 r2 rng sh t1 show ?thesis
        by (auto simp: R_remove_def exec_simps)
    next
      case True
      then have "k \<notin> dom (rmap c)" using t1 unfolding key_cell [OF inv k]
        slot_result_none [OF r1(2)] slot_result_none [OF r2(2)] by blast
      then have "(rmap c)(k := None) = rmap c" by auto
      with True t1 r1 r2 rng sh inv \<open>k \<notin> dom (rmap c)\<close> show ?thesis
        by (intro exI [of _ c]) (simp add: R_remove_def exec_simps)
    qed
  qed
qed

subsection \<open>Search\<close>

definition r_point :: "rcuckoo \<Rightarrow> point \<Rightarrow> bool" where
  "r_point c p \<longleftrightarrow> in_range (pt_index p) (r_cap c) \<and> 0 \<le> pt_depth p \<and> pt_depth p < R_MAX_SEARCH_DEPTH
     \<and> 0 \<le> pt_pathcode p \<and> pt_pathcode p < 2 * 8 ^ nat (pt_depth p)"

definition r_found :: "point \<Rightarrow> bool" where
  "r_found p \<longleftrightarrow> 0 \<le> pt_depth p \<and> pt_depth p < R_MAX_SEARCH_DEPTH \<and> 0 \<le> pt_pathcode p"

lemma r_point_code:
  assumes "r_point c p" "in_range slot ENTRY_WIDTH"
  shows "as_int (pt_pathcode p * int ENTRY_WIDTH) = Some (pt_pathcode p * 8)"
    "as_int (pt_pathcode p * 8 + slot) = Some (pt_pathcode p * 8 + slot)"
proof -
  have "(8::int) ^ nat (pt_depth p) \<le> 8 ^ 4"
    using assms(1) by (intro power_increasing) (auto simp: r_point_def R_MAX_SEARCH_DEPTH_def)
  with assms(1) have "pt_pathcode p < 8192" "0 \<le> pt_pathcode p" by (auto simp: r_point_def)
  with assms(2) show "as_int (pt_pathcode p * int ENTRY_WIDTH) = Some (pt_pathcode p * 8)"
    "as_int (pt_pathcode p * 8 + slot) = Some (pt_pathcode p * 8 + slot)"
    by (simp_all add: as_int_def fits_int_def int_max_def EW)
qed

lemma R_nextPoint_eq:
  assumes "r_shaped c" "r_point c p" "in_range slot ENTRY_WIDTH"
  shows "R_nextPoint c p slot = Some (Point (if pt_table p = 1 then 2 else 1)
     (rhome c (if pt_table p = 1 then 2 else 1) (nkey (rcell c (pt_index p) slot))) (pt_pathcode p * 8 + slot) (pt_depth p + 1))"
  using assms r_point_code [OF assms(2,3)] by (simp add: R_nextPoint_def r_point_def exec_simps)

lemma R_nextPoint_ok:
  assumes "r_shaped c" "r_point c p" "in_range slot ENTRY_WIDTH" "pt_depth p < R_MAX_SEARCH_DEPTH - 1"
  shows "\<exists>q. R_nextPoint c p slot = Some q \<and> r_point c q"
proof -
  have "nat (pt_depth p + 1) = Suc (nat (pt_depth p))" using assms(2) by (simp add: r_point_def nat_add_distrib)
  with assms show ?thesis unfolding R_nextPoint_eq [OF assms(1-3)] by (auto simp: r_point_def EW)
qed

lemma R_scan_ok:
  assumes "r_shaped c" "r_point c p" "\<forall>s\<in>set slots. in_range s ENTRY_WIDTH" "\<forall>q\<in>set acc. r_point c q"
  shows "\<exists>res. R_scan c p slots acc = Some res
     \<and> (case res of Found q \<Rightarrow> r_found q | Queue qs \<Rightarrow> \<forall>q\<in>set qs. r_point c q)"
  using assms(3,4)
proof (induction slots arbitrary: acc)
  case (Cons slot slots)
  have slot: "in_range slot ENTRY_WIDTH" using Cons.prems by simp
  have occ: "R_isOccupied_slot (r_elements c) (pt_index p) slot = Some (R_isOccupied (rcell c (pt_index p) slot))"
    using assms(1,2) slot by (intro R_cell) (auto simp: r_point_def)
  show ?case
  proof (cases "R_isOccupied (rcell c (pt_index p) slot)")
    case False
    have "0 \<le> pt_pathcode p * 8 + slot" using assms(2) slot by (simp add: r_point_def)
    then have "r_found (p\<lparr>pt_pathcode := pt_pathcode p * 8 + slot\<rparr>)" using assms(2) by (simp add: r_found_def r_point_def)
    with occ r_point_code [OF assms(2) slot] False show ?thesis by simp
  next
    case True
    show ?thesis
    proof (cases "pt_depth p < R_MAX_SEARCH_DEPTH - 1")
      case d: True
      obtain q where "R_nextPoint c p slot = Some q" "r_point c q"
        using R_nextPoint_ok [OF assms(1,2) slot d] by blast
      with Cons.IH [of "q # acc"] Cons.prems True occ d show ?thesis by simp
    next
      case False
      with Cons.IH [of acc] Cons.prems True occ show ?thesis by simp
    qed
  qed
qed simp

lemma R_slots_range: "\<forall>s\<in>set (R_slots z). in_range s ENTRY_WIDTH"
  by (simp add: R_slots_def ENTRY_WIDTH_def)

lemma R_search_loop_ok:
  "r_shaped c \<Longrightarrow> \<forall>p\<in>set q. r_point c p \<Longrightarrow>
   \<exists>p g'. R_search_loop c q paths g = Some (p, g') \<and> (p = no_point \<or> r_found p)"
proof (induction c q paths g rule: R_search_loop.induct)
  case (2 c p q paths g)
  have p: "r_point c p" using 2(3) by simp
  let ?s = "pt_pathcode p mod int ENTRY_WIDTH"
  have "rin c (pt_index p) ?s" using p by (simp add: r_point_def EW)
  then have n: "R_getElement (r_elements c) (pt_index p) ?s = Some (rcell c (pt_index p) ?s)"
    using 2(2) by (intro R_cell)
  obtain z g' where z: "fastrand g = (z, g')" by (cases "fastrand g")
  obtain res where res: "R_scan c p (R_slots (z mod int ENTRY_WIDTH)) [] = Some res"
    "case res of Found q \<Rightarrow> r_found q | Queue qs \<Rightarrow> \<forall>q\<in>set qs. r_point c q"
    using R_scan_ok [OF 2(2) p R_slots_range, of "[]"] by auto
  show ?case
  proof (cases "nkey (rcell c (pt_index p) ?s) \<in> set paths")
    case False
    show ?thesis
    proof (cases res)
      case (Found x)
      with n z res False show ?thesis by simp
    next
      case (Queue qs)
      then have "\<forall>p\<in>set (q @ qs). r_point c p" using res(2) 2(3) by auto
      from 2(1) [OF n False z [symmetric] res(1) [unfolded Queue] refl 2(2) this]
      show ?thesis using n z res(1) False Queue by simp
    qed
  qed (use n in simp)
qed simp

lemma R_search_ok:
  assumes "r_shaped c" "in_range idx1 (r_cap c)" "in_range idx2 (r_cap c)"
  shows "\<exists>p g. R_search c idx1 idx2 = Some (p, c\<lparr>r_seed := g\<rparr>) \<and> (p = no_point \<or> r_found p)"
proof -
  have "\<forall>p\<in>set [Point 1 idx1 0 0, Point 2 idx2 1 0]. r_point c p"
    using assms by (simp add: r_point_def R_MAX_SEARCH_DEPTH_def)
  from R_search_loop_ok [OF assms(1) this] show ?thesis by (fastforce simp: R_search_def)
qed

lemma R_decode_slots_range:
  "\<forall>s\<in>set slots. in_range s ENTRY_WIDTH \<Longrightarrow> \<forall>s\<in>set (fst (R_decode_slots n pc slots)). in_range s ENTRY_WIDTH"
proof (induction n pc slots rule: R_decode_slots.induct)
  case (2 n pc slots)
  have "in_range (pc mod int ENTRY_WIDTH) ENTRY_WIDTH" by (simp add: EW)
  then have "\<forall>s\<in>set ((pc mod int ENTRY_WIDTH) # slots). in_range s ENTRY_WIDTH" using 2(2) by auto
  from 2(1) [OF this] show ?case by (simp only: R_decode_slots.simps)
qed (simp only: R_decode_slots.simps fst_conv)

lemma R_decode_slots_length: "length (fst (R_decode_slots n pc slots)) = n + length slots"
  by (induction n pc slots rule: R_decode_slots.induct) auto

lemma R_decode_ok:
  assumes "r_found p"
  shows "\<exists>slots rest. R_decode_path p = Some (slots, rest) \<and> slots \<noteq> [] \<and> (\<forall>s\<in>set slots. in_range s ENTRY_WIDTH)
     \<and> pt_pathcode p \<noteq> -1"
proof -
  obtain slots rest where d: "R_decode_slots (nat (pt_depth p + 1)) (pt_pathcode p) [] = (slots, rest)" by fastforce
  have "length slots = nat (pt_depth p + 1)" "\<forall>s\<in>set slots. in_range s ENTRY_WIDTH"
    using R_decode_slots_length [of "nat (pt_depth p + 1)" "pt_pathcode p" "[]"]
      R_decode_slots_range [of "[]" "nat (pt_depth p + 1)" "pt_pathcode p"] d by auto
  with d assms show ?thesis by (intro exI [of _ slots] exI [of _ rest]) (auto simp: R_decode_path_def r_found_def)
qed

end
