(* ===== verification/RCuckooInsert.thy ===== *)
theory RCuckooInsert
  imports RCuckooOps
begin

text \<open>
  One attempt of \<open>insert\<close> on the table of the RDMA store, and its loop: a displacement keeps the contents
  and the placement, an attempt that claims a cell holds the two bucket locks and the cell is free, and
  the loop stores the node as the update of a map.
\<close>

definition r_same :: "rcuckoo \<Rightarrow> rcuckoo \<Rightarrow> bool" where
  "r_same c d \<longleftrightarrow> r_buckets d = r_buckets c \<and> r_shaped d \<and> (rplaced c \<longrightarrow> rplaced d) \<and> rcontents d = rcontents c
     \<and> rtail d = rtail c"

lemma r_same_refl [simp]: "r_shaped c \<Longrightarrow> r_same c c"
  by (simp add: r_same_def)

lemma r_same_trans: "r_same c d \<Longrightarrow> r_same d e \<Longrightarrow> r_same c e"
  by (auto simp: r_same_def)

lemma r_same_frame [simp]:
  "r_same c (rlocked d A) = r_same c d" "r_same (rlocked c A) d = r_same c d"
  "r_same c (d\<lparr>r_seed := g\<rparr>) = r_same c d" "r_same (c\<lparr>r_seed := g\<rparr>) d = r_same c d"
  by (simp_all add: r_same_def)

lemma r_same_D:
  assumes "r_same c d"
  shows "r_shaped d" "r_cap d = r_cap c" "rhome d = rhome c" "r_inv c \<Longrightarrow> r_inv d \<and> rmap d = rmap c"
  using assms rmap_cong [of c d] by (auto simp: r_same_def r_cap_def rhome_def fun_eq_iff r_inv_def runique_count)

definition rcell_ok :: "rcuckoo \<Rightarrow> path_cell \<Rightarrow> bool" where
  "rcell_ok c = (\<lambda>(t, i, s). rin c i s)"

definition rfree :: "rcuckoo \<Rightarrow> path_cell \<Rightarrow> bool" where
  "rfree c = (\<lambda>(t, i, s). \<not> R_isOccupied (rcell c i s))"

subsection \<open>One displacement\<close>

definition rmovable :: "rcuckoo \<Rightarrow> path_cell \<Rightarrow> path_cell \<Rightarrow> bool" where
  "rmovable c to from = (case to of (_, ti, ts) \<Rightarrow> case from of (_, fi, fs) \<Rightarrow>
     \<not> R_isOccupied (rcell c ti ts) \<and> R_isOccupied (rcell c fi fs) \<and> rhome c 2 (nkey (rcell c fi fs)) = ti)"

definition rmove :: "rcuckoo \<Rightarrow> path_cell \<Rightarrow> path_cell \<Rightarrow> rcuckoo" where
  "rmove c to from = (case to of (_, ti, ts) \<Rightarrow> case from of (_, fi, fs) \<Rightarrow>
     rput (rput c ti ts (rcell c fi fs)) fi fs ((rcell c fi fs)\<lparr>nkey := EMPTY\<rparr>))"

lemma rmove_keeps:
  assumes sh: "r_shaped c" and ok: "rcell_ok c to" "rcell_ok c from" and mv: "rmovable c to from"
  shows "r_same c (rmove c to from)" "rfree (rmove c to from) from" "r_seed (rmove c to from) = r_seed c"
proof -
  obtain tt ti ts where t: "to = (tt, ti, ts)" by (cases to)
  obtain ft fi fs where f: "from = (ft, fi, fs)" by (cases "from")
  let ?n = "rcell c fi fs"
  let ?d = "rput c ti ts ?n"
  have r: "rin c ti ts" "rin c fi fs" using ok by (auto simp: t f rcell_ok_def)
  have m: "\<not> R_isOccupied (rcell c ti ts)" "R_isOccupied ?n" "rhome c 2 (nkey ?n) = ti"
    using mv by (auto simp: t f rmovable_def)
  have d: "rcell ?d fi fs = ?n" using rcell_rput [OF sh r] by simp
  have e: "rmove c to from = rput ?d fi fs (?n\<lparr>nkey := EMPTY\<rparr>)" by (simp add: rmove_def t f)
  have "rcontents ?d = add_mset ?n (rcontents c)"
    using rcontents_rput [OF sh r(1), of ?n] m by simp
  moreover have "rcontents (rmove c to from) + {#?n#} = rcontents ?d"
    using rcontents_rput [of ?d fi fs "?n\<lparr>nkey := EMPTY\<rparr>"] sh r d m(2) unfolding e by (simp add: R_isOccupied_def)
  ultimately have "rcontents (rmove c to from) = rcontents c" by simp
  moreover have "rplaced (rmove c to from)" if "rplaced c"
    unfolding e using sh r that m by (intro rplaced_rput) (auto simp: R_isOccupied_def)
  moreover have "rtail (rmove c to from) = rtail c" unfolding e using sh r by simp
  ultimately show "r_same c (rmove c to from)" using sh unfolding e by (simp add: r_same_def)
  show "rfree (rmove c to from) from" using sh r unfolding e by (simp add: f rfree_def rcell_rput R_isOccupied_def)
  show "r_seed (rmove c to from) = r_seed c" by (simp add: e)
qed

lemma rmove_locked [simp]: "rmove (rlocked c A) to from = rlocked (rmove c to from) A"
  by (simp add: rmove_def split: prod.splits)

lemma R_displace_eq:
  assumes sh: "r_shaped c" and idx: "in_range idx1 (r_cap c)" "in_range idx2 (r_cap c)"
    and ok: "rcell_ok c to" "rcell_ok c from"
  shows "R_displace (rlocked c {}) idx1 idx2 final to from =
    Some (if rmovable c to from then (True, rlocked (rmove c to from) (if final then {idx1, idx2} else {}))
          else (False, rlocked c {}))"
proof -
  obtain tt ti ts where t: "to = (tt, ti, ts)" by (cases to)
  obtain ft fi fs where f: "from = (ft, fi, fs)" by (cases "from")
  have r: "rin c ti ts" "rin c fi fs" using ok by (auto simp: t f rcell_ok_def)
  let ?n = "rcell c fi fs"
  have hash: "R_hash (rlocked c A) k 2 = Some (rhome c 2 k)" for k A
    using sh by (subst R_hash_home) simp_all
  have put: "R_put (rlocked c A) ti ts n = Some (rlocked (rput c ti ts n) A)" for A n
    using sh r by (subst R_cell) simp_all
  have clear: "R_clear (rlocked (rput c ti ts ?n) A) fi fs =
      Some (rlocked (rput (rput c ti ts ?n) fi fs (?n\<lparr>nkey := EMPTY\<rparr>)) A)" for A
    using sh r rcell_rput [OF sh r, of ?n] by (subst R_cell) simp_all
  have set_eqs: "insert idx1 (insert idx2 {ti}) - {ti} = {idx1, idx2}" if "ti \<noteq> idx1" "ti \<noteq> idx2" using that by auto
  have set_eq2: "insert idx1 (insert idx2 {ti}) = {idx1, idx2}" if "ti = idx1 \<or> ti = idx2" using that by auto
  have cells: "R_isOccupied_slot (r_elements c) ti ts = Some (R_isOccupied (rcell c ti ts))"
    "R_isOccupied_slot (r_elements c) fi fs = Some (R_isOccupied ?n)" "R_getElement (r_elements c) fi fs = Some ?n"
    using sh r by (simp_all add: exec_simps)
  have rmove: "rmove c to from = rput (rput c ti ts ?n) fi fs (?n\<lparr>nkey := EMPTY\<rparr>)" by (simp add: rmove_def t f)
  have mv: "rmovable c to from \<longleftrightarrow> \<not> R_isOccupied (rcell c ti ts) \<and> R_isOccupied ?n \<and> rhome c 2 (nkey ?n) = ti"
    by (simp add: rmovable_def t f)
  let ?e = "rput (rput c ti ts ?n) fi fs (?n\<lparr>nkey := EMPTY\<rparr>)"
  have l3: "R_lock_three (rlocked c {}) idx1 idx2 ti = Some (rlocked c {idx1, idx2, ti})"
    "R_unlock_three (rlocked c {idx1, idx2, ti}) idx1 idx2 ti = Some (rlocked c {})"
    using idx r by (simp_all add: exec_simps)
  have l3e: "(if ti \<noteq> idx1 \<and> ti \<noteq> idx2 then R_unlock_one (rlocked ?e {idx1, idx2, ti}) ti else Some (rlocked ?e {idx1, idx2, ti})) =
      Some (rlocked ?e {idx1, idx2})"
    using idx r set_eqs set_eq2 by (auto simp: exec_simps)
  have l2: "R_lock_two (rlocked c {}) ti fi = Some (rlocked c {ti, fi})"
    "R_unlock_two (rlocked c {ti, fi}) ti fi = Some (rlocked c {})"
    "R_unlock_two (rlocked ?e {ti, fi}) ti fi = Some (rlocked ?e {})"
    using r by (simp_all add: exec_simps)
  note eqs = cells hash put clear
  show ?thesis
    unfolding mv rmove unfolding R_displace_def t f prod.case
    by (cases final; cases "R_isOccupied (rcell c ti ts)"; cases "R_isOccupied ?n"; cases "rhome c 2 (nkey ?n) = ti")
       (simp_all only: if_True if_False simp_thms l2 l3 l3e eqs Option.bind.simps rframe not_True_eq_False not_False_eq_True prod.case)
qed

lemma R_move_path_keeps:
  assumes "r_shaped c" "in_range idx1 (r_cap c)" "in_range idx2 (r_cap c)"
    and "\<forall>x\<in>set cs. rcell_ok c x" "2 \<le> length cs"
  shows "\<exists>ok d. R_move_path (rlocked c {}) idx1 idx2 cs = Some (ok, rlocked d (if ok then {idx1, idx2} else {}))
     \<and> r_same c d \<and> (ok \<longrightarrow> rfree d (List.last cs))"
  using assms
proof (induction cs arbitrary: c rule: induct_list012)
  case (3 to "from" rest)
  have ok: "rcell_ok c to" "rcell_ok c from" using "3.prems" by auto
  note d = R_displace_eq [OF "3.prems"(1-3) ok]
  show ?case
  proof (cases "rmovable c to from")
    case False
    with d "3.prems" show ?thesis by (intro exI [of _ False] exI [of _ c]) simp
  next
    case True
    let ?d = "rmove c to from"
    note keep = rmove_keeps [OF "3.prems"(1) ok True]
    show ?thesis
    proof (cases "rest = []")
      case True
      with d \<open>rmovable c to from\<close> keep show ?thesis by (intro exI [of _ True] exI [of _ ?d]) simp
    next
      case False
      then have len: "2 \<le> length (from # rest)" by (cases rest) auto
      have cap: "r_cap ?d = r_cap c" using r_same_D(2) [OF keep(1)] .
      have oks: "\<forall>x\<in>set (from # rest). rcell_ok ?d x" using "3.prems"(4) cap by (auto simp: rcell_ok_def)
      have "in_range idx1 (r_cap ?d)" "in_range idx2 (r_cap ?d)" using "3.prems"(2,3) cap by simp_all
      from "3.IH"(2) [OF r_same_D(1) [OF keep(1)] this oks len]
      obtain k e where "R_move_path (rlocked ?d {}) idx1 idx2 (from # rest) = Some (k, rlocked e (if k then {idx1, idx2} else {}))"
        "r_same ?d e" "k \<longrightarrow> rfree e (List.last (from # rest))" by blast
      with d \<open>rmovable c to from\<close> False r_same_trans [OF keep(1)] show ?thesis
        by (intro exI [of _ k] exI [of _ e]) simp
    qed
  qed
qed auto

subsection \<open>One attempt\<close>

lemma R_follow_path_ok:
  assumes "r_shaped c" "t \<in> {1, 2}" "in_range i (r_cap c)" "ss \<noteq> []" "\<forall>s\<in>set ss. in_range s ENTRY_WIDTH"
  shows "\<exists>u cs. R_follow_path c t i ss = Some ((t, i, u) # cs) \<and> (\<forall>x\<in>set ((t, i, u) # cs). rcell_ok c x)"
  using assms(2-5)
proof (induction ss arbitrary: t i)
  case (Cons s ss)
  have s: "rin c i s" using Cons.prems by simp
  have av: "R_isAvailable_slot (r_elements c) i s = Some (\<not> R_isOccupied (rcell c i s))"
    "R_getElement (r_elements c) i s = Some (rcell c i s)" using s assms(1) by (simp_all add: exec_simps)
  show ?case
  proof (cases "\<not> R_isOccupied (rcell c i s) \<or> ss = []")
    case True
    with av s show ?thesis by (auto simp: rcell_ok_def)
  next
    case False
    let ?t = "other t" and ?i = "rhome c (other t) (nkey (rcell c i s))"
    have "in_range ?i (r_cap c)" "?t \<in> {1, 2}" using assms(1) other_in by simp_all
    with Cons.IH [of ?t ?i] False Cons.prems obtain u cs
      where "R_follow_path c ?t ?i ss = Some ((?t, ?i, u) # cs)" "\<forall>x\<in>set ((?t, ?i, u) # cs). rcell_ok c x" by auto
    moreover have "R_hash c (nkey (rcell c i s)) ?t = Some ?i" using assms(1) other_in [of t] by (subst R_hash_home) simp_all
    ultimately show ?thesis using av s False by (auto simp: rcell_ok_def)
  qed
qed simp

definition r_absent :: "rcuckoo \<Rightarrow> u32 \<Rightarrow> int \<Rightarrow> bool" where
  "r_absent c k idx \<longleftrightarrow> (\<forall>s. in_range s ENTRY_WIDTH \<longrightarrow> nkey (rcell c idx s) \<noteq> k)"

definition r_attempt :: "rcuckoo \<Rightarrow> u32 \<Rightarrow> int \<Rightarrow> int \<Rightarrow> result \<Rightarrow> rcuckoo \<Rightarrow> bool" where
  "r_attempt c k idx1 idx2 r d \<longleftrightarrow> r_same c d \<and>
     (case res_status r of
        DUPLICATE \<Rightarrow> r_locks d = lock_image (r_cap c) {idx1, idx2} \<and> res_index r \<in> {idx1, idx2}
          \<and> in_range (res_slot r) ENTRY_WIDTH \<and> nkey (rcell d (res_index r) (res_slot r)) = k
      | SUCCESS \<Rightarrow> r_locks d = lock_image (r_cap c) {idx1, idx2} \<and> r_absent c k idx1 \<and> r_absent c k idx2
          \<and> res_index r \<in> {idx1, idx2} \<and> in_range (res_slot r) ENTRY_WIDTH
          \<and> \<not> R_isOccupied (rcell d (res_index r) (res_slot r))
      | _ \<Rightarrow> r_locks d = lock_image (r_cap c) {} \<and> r_absent c k idx1 \<and> r_absent c k idx2)"

lemma R_claim_path_ok:
  assumes sh: "r_shaped c" and idx: "in_range idx1 (r_cap c)" "in_range idx2 (r_cap c)"
    and cells: "\<forall>x\<in>set ((t, i, u) # cs). rcell_ok c x" and i: "i \<in> {idx1, idx2}"
    and absent: "r_absent c k idx1" "r_absent c k idx2"
  shows "\<exists>r d. R_claim_path (rlocked c {}) idx1 idx2 ((t, i, u) # cs) = Some (r, d) \<and> r_attempt c k idx1 idx2 r d"
proof (cases cs)
  case Nil
  have u: "rin c i u" using cells by (simp add: rcell_ok_def)
  then have av: "R_isAvailable_slot (r_elements c) i u = Some (\<not> R_isOccupied (rcell c i u))" using sh by (simp add: exec_simps)
  show ?thesis
  proof (cases "R_isOccupied (rcell c i u)")
    case True
    with Nil av idx sh absent show ?thesis by (simp add: R_claim_path_def exec_simps r_attempt_def)
  next
    case False
    with Nil av idx sh absent u i show ?thesis by (simp add: R_claim_path_def exec_simps r_attempt_def)
  qed
next
  case (Cons y ys)
  have "\<forall>z\<in>set (rev ((t, i, u) # cs)). rcell_ok c z" "2 \<le> length (rev ((t, i, u) # cs))" using cells Cons by auto
  from R_move_path_keeps [OF sh idx this] obtain ok d where
    d: "R_move_path (rlocked c {}) idx1 idx2 (rev ((t, i, u) # cs)) = Some (ok, rlocked d (if ok then {idx1, idx2} else {}))"
      "r_same c d" "ok \<longrightarrow> rfree d (t, i, u)" by auto
  have "in_range u ENTRY_WIDTH" using cells by (simp add: rcell_ok_def)
  with d i absent r_same_D(2) [OF d(2)] show ?thesis
    by (cases ok) (simp_all add: R_claim_path_def Cons r_attempt_def rfree_def)
qed

lemma R_search_locked:
  assumes "r_shaped c" "in_range idx1 (r_cap c)" "in_range idx2 (r_cap c)"
  shows "\<exists>p g. R_search (rlocked c A) idx1 idx2 = Some (p, rlocked (c\<lparr>r_seed := g\<rparr>) A) \<and> (p = no_point \<or> r_found p)"
  using R_search_ok [of "rlocked c A" idx1 idx2] assms by auto

text \<open>The branches of an attempt.\<close>

lemma R_insert_once_eq:
  assumes sh: "r_shaped c" and idx: "in_range idx1 (r_cap c)" "in_range idx2 (r_cap c)"
    and s1: "R_findSlot (r_elements c) (nkey n) idx1 = Some s1" and s2: "R_findSlot (r_elements c) (nkey n) idx2 = Some s2"
    and f1: "R_isAvailable (r_elements c) idx1 = Some f1" and f2: "R_isAvailable (r_elements c) idx2 = Some f2"
  shows "R_insert_once (rlocked c {}) n idx1 idx2 =
    (if s1 \<noteq> -1 then Some (Result DUPLICATE 1 idx1 s1, rlocked c {idx1, idx2})
     else if s2 \<noteq> -1 then Some (Result DUPLICATE 2 idx2 s2, rlocked c {idx1, idx2})
     else if f1 \<noteq> -1 then Some (Result SUCCESS 1 idx1 f1, rlocked c {idx1, idx2})
     else if f2 \<noteq> -1 then Some (Result SUCCESS 2 idx2 f2, rlocked c {idx1, idx2})
     else do { (point, c) \<leftarrow> R_search (rlocked c {}) idx1 idx2;
               if pt_pathcode point = -1 then Some (Result RESIZE 0 0 0, c)
               else do { (slots, rest) \<leftarrow> R_decode_path point;
                         path \<leftarrow> (if rest = 0 then R_follow_path c 1 idx1 slots else R_follow_path c 2 idx2 slots);
                         R_claim_path c idx1 idx2 path } })"
proof -
  have l: "R_lock_two (rlocked c {}) idx1 idx2 = Some (rlocked c {idx1, idx2})"
    "R_unlock_two (rlocked c {idx1, idx2}) idx1 idx2 = Some (rlocked c {})" using idx by (simp_all add: exec_simps)
  show ?thesis
    unfolding R_insert_once_def
    by (cases "s1 = -1"; cases "s2 = -1"; cases "f1 = -1"; cases "f2 = -1") (simp_all add: l s1 s2 f1 f2)
qed

lemma R_insert_once_ok:
  assumes sh: "r_shaped c" and idx: "in_range idx1 (r_cap c)" "in_range idx2 (r_cap c)"
  shows "\<exists>r d. R_insert_once (rlocked c {}) n idx1 idx2 = Some (r, d) \<and> r_attempt c (nkey n) idx1 idx2 r d"
proof -
  obtain s1 where s1: "R_findSlot (r_elements c) (nkey n) idx1 = Some s1" "slot_result (\<lambda>m. nkey m = nkey n) c idx1 s1"
    using R_findSlot_ok(1) [OF sh idx(1)] by blast
  obtain s2 where s2: "R_findSlot (r_elements c) (nkey n) idx2 = Some s2" "slot_result (\<lambda>m. nkey m = nkey n) c idx2 s2"
    using R_findSlot_ok(1) [OF sh idx(2)] by blast
  obtain f1 where f1: "R_isAvailable (r_elements c) idx1 = Some f1" "slot_result (\<lambda>m. \<not> R_isOccupied m) c idx1 f1"
    using R_findSlot_ok(2) [OF sh idx(1)] by blast
  obtain f2 where f2: "R_isAvailable (r_elements c) idx2 = Some f2" "slot_result (\<lambda>m. \<not> R_isOccupied m) c idx2 f2"
    using R_findSlot_ok(2) [OF sh idx(2)] by blast
  note eq = R_insert_once_eq [OF sh idx s1(1) s2(1) f1(1) f2(1)]
  show ?thesis
  proof (cases "s1 = -1 \<and> s2 = -1")
    case False
    with sh slot_result_some [OF s1(2)] slot_result_some [OF s2(2)] show ?thesis
      by (auto simp: eq r_attempt_def)
  next
    case s: True
    then have absent: "r_absent c (nkey n) idx1" "r_absent c (nkey n) idx2"
      using slot_result_none [OF s1(2)] slot_result_none [OF s2(2)] by (auto simp: r_absent_def)
    show ?thesis
    proof (cases "f1 = -1 \<and> f2 = -1")
      case False
      with s sh absent slot_result_some [OF f1(2)] slot_result_some [OF f2(2)] show ?thesis
        by (auto simp: eq r_attempt_def)
    next
      case f: True
      obtain p g where p: "R_search (rlocked c {}) idx1 idx2 = Some (p, rlocked (c\<lparr>r_seed := g\<rparr>) {})"
        "p = no_point \<or> r_found p" using R_search_locked [OF assms] by blast
      show ?thesis
      proof (cases "p = no_point")
        case True
        with s f p sh absent show ?thesis by (auto simp: eq r_attempt_def no_point_def)
      next
        case False
        with p have "r_found p" by blast
        then obtain slots rest where dec: "R_decode_path p = Some (slots, rest)" "slots \<noteq> []"
          "\<forall>s\<in>set slots. in_range s ENTRY_WIDTH" "pt_pathcode p \<noteq> -1" using R_decode_ok by blast
        let ?e = "c\<lparr>r_seed := g\<rparr>"
        define t i where "t = (if rest = 0 then 1 else 2 :: int)" and "i = (if rest = 0 then idx1 else idx2)"
        have ti: "t \<in> {1, 2}" "i \<in> {idx1, idx2}" "in_range i (r_cap ?e)" using idx by (auto simp: t_def i_def)
        obtain u cs where path: "R_follow_path (rlocked ?e {}) t i slots = Some ((t, i, u) # cs)"
          "\<forall>x\<in>set ((t, i, u) # cs). rcell_ok ?e x"
          using R_follow_path_ok [of "rlocked ?e {}" t i slots] sh ti dec(2,3) by (auto simp: rcell_ok_def)
        obtain r d where "R_claim_path (rlocked ?e {}) idx1 idx2 ((t, i, u) # cs) = Some (r, d)"
          "r_attempt ?e (nkey n) idx1 idx2 r d"
          using R_claim_path_ok [of ?e idx1 idx2 t i u cs "nkey n"] sh idx path(2) ti(2) absent
          by (auto simp: r_absent_def)
        moreover have "(if rest = 0 then R_follow_path (rlocked ?e {}) 1 idx1 slots else R_follow_path (rlocked ?e {}) 2 idx2 slots) =
            Some ((t, i, u) # cs)" using path(1) by (simp add: t_def i_def split: if_splits)
        ultimately show ?thesis
          using s f p(1) dec by (simp add: eq r_attempt_def r_absent_def split: STATUS.splits)
      qed
    qed
  qed
qed

subsection \<open>insert\<close>

text \<open>What one round of the loop of \<open>insert\<close> does to the map.\<close>

definition r_round :: "rcuckoo \<Rightarrow> rnode \<Rightarrow> RRESULT option \<Rightarrow> rcuckoo \<Rightarrow> bool" where
  "r_round c n r d \<longleftrightarrow> r_inv d \<and> r_buckets d = r_buckets c \<and> rtail d = rtail c \<and>
     (case r of
        Some R_TRUE \<Rightarrow> nkey n \<notin> dom (rmap c) \<and> rmap d = (rmap c)(nkey n \<mapsto> nval n)
      | Some R_DUP \<Rightarrow> nkey n \<in> dom (rmap c) \<and> rmap d = (rmap c)(nkey n \<mapsto> nval n)
      | Some R_FALSE \<Rightarrow> False
      | _ \<Rightarrow> nkey n \<notin> dom (rmap c) \<and> rmap d = rmap c)"

lemma locked_self: "r_locks d = lock_image (r_cap d) A \<Longrightarrow> rlocked d A = d"
  by (simp add: rlocked_def)

lemma R_insert_attempt_ok:
  assumes inv: "r_inv c" and k: "nkey n \<noteq> EMPTY"
  defines "idx1 \<equiv> rhome c 1 (nkey n)" and "idx2 \<equiv> rhome c 2 (nkey n)"
  shows "\<exists>r d. R_insert_attempt (rlocked c {}) n idx1 idx2 = Some (r, rlocked d {}) \<and> r_round c n r d"
proof -
  have sh: "r_shaped c" using inv by (simp add: r_inv_def)
  have idx: "in_range idx1 (r_cap c)" "in_range idx2 (r_cap c)" using sh by (simp_all add: idx1_def idx2_def)
  obtain r d where once: "R_insert_once (rlocked c {}) n idx1 idx2 = Some (r, d)" and at: "r_attempt c (nkey n) idx1 idx2 r d"
    using R_insert_once_ok [OF sh idx] by blast
  have same: "r_same c d" using at by (simp add: r_attempt_def)
  note D = r_same_D [OF same]
  have invd: "r_inv d" "rmap d = rmap c" "r_buckets d = r_buckets c" "rtail d = rtail c" using D(4) [OF inv] same by (auto simp: r_same_def)
  have absent: "nkey n \<notin> dom (rmap c)" if "r_absent c (nkey n) idx1" "r_absent c (nkey n) idx2"
    using that unfolding key_cell [OF inv k] by (auto simp: r_absent_def idx1_def idx2_def)
  have put: "R_put d (res_index r) (res_slot r) n = Some (rlocked (rput d (res_index r) (res_slot r) n) {idx1, idx2})
       \<and> R_unlock_two (rlocked (rput d (res_index r) (res_slot r) n) {idx1, idx2}) idx1 idx2 =
         Some (rlocked (rput d (res_index r) (res_slot r) n) {})"
    if "r_locks d = lock_image (r_cap c) {idx1, idx2}" "rin d (res_index r) (res_slot r)"
  proof
    have "rlocked d {idx1, idx2} = d" using that(1) D(2) by (intro locked_self) simp
    with R_cell(4) [OF D(1) that(2), of n] show "R_put d (res_index r) (res_slot r) n = Some (rlocked (rput d (res_index r) (res_slot r) n) {idx1, idx2})"
      by (metis rframe(14))
    show "R_unlock_two (rlocked (rput d (res_index r) (res_slot r) n) {idx1, idx2}) idx1 idx2 =
         Some (rlocked (rput d (res_index r) (res_slot r) n) {})" using idx D(2) by (simp add: exec_simps)
  qed
  have stay: "rlocked d {} = d" if "r_locks d = lock_image (r_cap c) {}" using that D(2) by (intro locked_self) simp
  show ?thesis
  proof (cases "res_status r")
    case RESIZE
    with at once invd absent stay show ?thesis
      by (intro exI [of _ "Some R_ABORT_FAILURE"] exI [of _ d]) (simp add: R_insert_attempt_def r_attempt_def r_round_def)
  next
    case RETRY
    with at once invd absent stay show ?thesis
      by (intro exI [of _ None] exI [of _ d]) (simp add: R_insert_attempt_def r_attempt_def r_round_def)
  next
    case DUPLICATE
    with at have a: "r_locks d = lock_image (r_cap c) {idx1, idx2}" "res_index r \<in> {idx1, idx2}"
      "in_range (res_slot r) ENTRY_WIDTH" "nkey (rcell d (res_index r) (res_slot r)) = nkey n"
      by (simp_all add: r_attempt_def)
    then have rin: "rin d (res_index r) (res_slot r)" using idx D(2) by auto
    from rput_replace [OF invd(1) rin a(4) k] put [OF a(1) rin] DUPLICATE once invd rtail_rput [OF D(1) rin] show ?thesis
      by (intro exI [of _ "Some R_DUP"] exI [of _ "rput d (res_index r) (res_slot r) n"]) (simp add: R_insert_attempt_def r_round_def)
  next
    case SUCCESS
    with at have a: "r_locks d = lock_image (r_cap c) {idx1, idx2}" "res_index r \<in> {idx1, idx2}"
      "in_range (res_slot r) ENTRY_WIDTH" "\<not> R_isOccupied (rcell d (res_index r) (res_slot r))"
      "r_absent c (nkey n) idx1" "r_absent c (nkey n) idx2" by (simp_all add: r_attempt_def)
    then have rin: "rin d (res_index r) (res_slot r)" using idx D(2) by auto
    have "res_index r = rhome d 1 (nkey n) \<or> res_index r = rhome d 2 (nkey n)" using a(2) D(3) by (auto simp: idx1_def idx2_def)
    from rput_new [OF invd(1) rin a(4) k _ this] absent [OF a(5,6)] put [OF a(1) rin] SUCCESS once invd rtail_rput [OF D(1) rin] show ?thesis
      by (intro exI [of _ "Some R_TRUE"] exI [of _ "rput d (res_index r) (res_slot r) n"]) (simp add: R_insert_attempt_def r_round_def)
  qed
qed

lemma R_insert_loop_ok:
  assumes "r_inv c" "nkey n \<noteq> EMPTY" "idx1 = rhome c 1 (nkey n)" "idx2 = rhome c 2 (nkey n)"
  shows "R_insert_loop fuel (rlocked c {}) n idx1 idx2 = No_fuel \<or>
    (\<exists>r d. R_insert_loop fuel (rlocked c {}) n idx1 idx2 = Done (r, rlocked d {}) \<and> r_round c n (Some r) d)"
  using assms(1,3,4)
proof (induction fuel arbitrary: c)
  case (Suc fuel)
  obtain r d where a: "R_insert_attempt (rlocked c {}) n idx1 idx2 = Some (r, rlocked d {})" "r_round c n r d"
    using R_insert_attempt_ok [OF Suc.prems(1) assms(2)] Suc.prems(2,3) by blast
  show ?case
  proof (cases r)
    case None
    have d: "r_inv d" "rmap d = rmap c" "r_buckets d = r_buckets c" "rtail d = rtail c" "nkey n \<notin> dom (rmap c)" using a(2) None by (simp_all add: r_round_def)
    then have "rhome d = rhome c" by (simp add: rhome_def fun_eq_iff)
    moreover have "r_round d n x e = r_round c n x e" for x e unfolding r_round_def d(2-4) by (rule refl)
    ultimately show ?thesis using Suc.IH [OF d(1)] Suc.prems(2,3) a(1) None by simp
  next
    case (Some r')
    with a show ?thesis by auto
  qed
qed simp

lemma R_insert_ok:
  assumes "r_inv c" "nkey n \<noteq> EMPTY"
  shows "R_insert fuel (rlocked c {}) n = No_fuel \<or>
    (\<exists>r d. R_insert fuel (rlocked c {}) n = Done (r, rlocked d {}) \<and> r_round c n (Some r) d)"
proof -
  have "r_shaped c" using assms(1) by (simp add: r_inv_def)
  then have "R_hash (rlocked c {}) (nkey n) t = Some (rhome c t (nkey n))" if "t \<in> {1, 2}" for t
    using that by (subst R_hash_home) simp_all
  with R_insert_loop_ok [OF assms refl refl] show ?thesis by (simp add: R_insert_def)
qed

end
