(* ===== verification/RCuckooStuck.thy ===== *)
theory RCuckooStuck
  imports RCuckooInsert
begin

text \<open>
  A table of the RDMA store on which \<open>insert\<close> runs for ever.  The test before a displacement compares the
  target bucket with the second hash, also when the element leaves the second bucket for its
  first; such a move is always refused.  If the search can only find a path of one such move, every round of
  the loop ends in RETRY with the elements as they were.
\<close>

definition r_full :: "rcuckoo \<Rightarrow> int \<Rightarrow> bool" where
  "r_full c i \<longleftrightarrow> list_all (\<lambda>s. R_isOccupied (rcell c i s)) entries"

definition r_stuck :: "rcuckoo \<Rightarrow> int \<Rightarrow> int \<Rightarrow> bool" where
  "r_stuck c idx1 idx2 \<longleftrightarrow> r_full c idx1 \<and> r_full c idx2 \<and> idx1 \<noteq> idx2
     \<and> list_all (\<lambda>s. let i = rhome c 2 (nkey (rcell c idx1 s)) in r_full c i \<and> i \<noteq> idx1 \<and> i \<noteq> idx2) entries
     \<and> list_all (\<lambda>s. let i = rhome c 1 (nkey (rcell c idx2 s)) in \<not> r_full c i \<and> rhome c 2 (nkey (rcell c idx2 s)) \<noteq> i) entries"

lemma r_full_iff: "r_full c i \<longleftrightarrow> (\<forall>s. in_range s ENTRY_WIDTH \<longrightarrow> R_isOccupied (rcell c i s))"
  by (simp add: r_full_def list_all_iff Ball_def)

lemma keys_differ:
  assumes inv: "r_inv c" and r: "rin c i s" "rin c i' s'" and ne: "(i, s) \<noteq> (i', s')"
    and occ: "R_isOccupied (rcell c i s)" "R_isOccupied (rcell c i' s')"
  shows "nkey (rcell c i s) \<noteq> nkey (rcell c i' s')"
proof
  assume eq: "nkey (rcell c i s) = nkey (rcell c i' s')"
  have sh: "r_shaped c" using inv by (simp add: r_inv_def)
  let ?d = "rput c i s ((rcell c i s)\<lparr>nkey := EMPTY\<rparr>)"
  have "rcell ?d i' s' = rcell c i' s'" using rcell_rput [OF sh r] ne by auto
  then have "rcell c i' s' \<in># rcontents ?d"
    using in_rcontents [of ?d "rcell c i' s'"] sh r occ(2) by auto
  then have "nkey (rcell c i s) \<in> dom (rmap ?d)" unfolding rmap_dom eq by blast
  with rput_erase(4) [OF inv r(1) occ(1)] show False by simp
qed

subsection \<open>The search over full buckets\<close>

definition rnext :: "rcuckoo \<Rightarrow> point \<Rightarrow> int \<Rightarrow> point" where
  "rnext c p slot = Point (if pt_table p = 1 then 2 else 1)
     (rhome c (if pt_table p = 1 then 2 else 1) (nkey (rcell c (pt_index p) slot))) (pt_pathcode p * 8 + slot) (pt_depth p + 1)"

definition rkey :: "rcuckoo \<Rightarrow> point \<Rightarrow> u32" where
  "rkey c p = nkey (rcell c (pt_index p) (pt_pathcode p mod 8))"

lemma occupied_slot:
  "r_shaped c \<Longrightarrow> r_point c p \<Longrightarrow> in_range s ENTRY_WIDTH \<Longrightarrow>
   R_isOccupied_slot (r_elements c) (pt_index p) s = Some (R_isOccupied (rcell c (pt_index p) s))"
  by (intro R_cell) (auto simp: r_point_def)

lemma R_scan_full:
  assumes "r_shaped c" "r_point c p" "pt_depth p < R_MAX_SEARCH_DEPTH - 1" "r_full c (pt_index p)"
    and "\<forall>s\<in>set slots. in_range s ENTRY_WIDTH"
  shows "R_scan c p slots acc = Some (Queue (rev acc @ map (rnext c p) slots))"
  using assms(5)
proof (induction slots arbitrary: acc)
  case (Cons s slots)
  then have s: "in_range s ENTRY_WIDTH" by simp
  have "R_nextPoint c p s = Some (rnext c p s)" using R_nextPoint_eq [OF assms(1,2) s] by (simp add: rnext_def)
  with Cons occupied_slot [OF assms(1,2) s] assms(3,4) s show ?case by (simp add: r_full_iff)
qed simp

lemma R_scan_free:
  assumes "r_shaped c" "r_point c p" "pt_depth p < R_MAX_SEARCH_DEPTH - 1"
    and "\<forall>s\<in>set slots. in_range s ENTRY_WIDTH" "\<exists>s\<in>set slots. \<not> R_isOccupied (rcell c (pt_index p) s)"
  shows "\<exists>s. in_range s ENTRY_WIDTH \<and> \<not> R_isOccupied (rcell c (pt_index p) s)
     \<and> R_scan c p slots acc = Some (Found (p\<lparr>pt_pathcode := pt_pathcode p * 8 + s\<rparr>))"
  using assms(4,5)
proof (induction slots arbitrary: acc)
  case (Cons s slots)
  then have s: "in_range s ENTRY_WIDTH" by simp
  note occ = occupied_slot [OF assms(1,2) s]
  show ?case
  proof (cases "R_isOccupied (rcell c (pt_index p) s)")
    case False
    with occ r_point_code [OF assms(2) s] s show ?thesis by (intro exI [of _ s]) simp
  next
    case True
    then have "\<exists>s\<in>set slots. \<not> R_isOccupied (rcell c (pt_index p) s)" using Cons.prems(2) by auto
    moreover have "R_nextPoint c p s = Some (rnext c p s)" using R_nextPoint_eq [OF assms(1,2) s] by (simp add: rnext_def)
    ultimately show ?thesis using Cons.IH [of "rnext c p s # acc"] Cons.prems(1) occ True assms(3) by simp
  qed
qed simp

lemma search_step:
  assumes "r_shaped c" "r_point c p" "rkey c p \<notin> set paths"
  shows "R_search_loop c (p # q) paths g = (case fastrand g of (z, g') \<Rightarrow>
    (case R_scan c p (R_slots (z mod 8)) [] of None \<Rightarrow> None | Some (Found x) \<Rightarrow> Some (x, g')
     | Some (Queue ps) \<Rightarrow> R_search_loop c (q @ ps) (rkey c p # paths) g'))"
proof -
  have "rin c (pt_index p) (pt_pathcode p mod int ENTRY_WIDTH)" using assms(2) by (simp add: r_point_def EW)
  then have "R_getElement (r_elements c) (pt_index p) (pt_pathcode p mod int ENTRY_WIDTH) =
      Some (rcell c (pt_index p) (pt_pathcode p mod int ENTRY_WIDTH))" using assms(1) by (intro R_cell)
  with assms(3) show ?thesis by (simp add: rkey_def EW split: prod.split option.split scan_result.split)
qed

declare R_search_loop.simps [simp del]

lemma search_full:
  assumes "r_shaped c" "\<forall>p\<in>set ps. r_point c p \<and> pt_depth p < R_MAX_SEARCH_DEPTH - 1 \<and> r_full c (pt_index p)"
    and "distinct (map (rkey c) ps)" "\<forall>p\<in>set ps. rkey c p \<notin> set paths"
  shows "\<exists>zs g'. length zs = length ps \<and> R_search_loop c (ps @ q) paths g =
     R_search_loop c (q @ concat (map2 (\<lambda>p z. map (rnext c p) (R_slots z)) ps zs)) (rev (map (rkey c) ps) @ paths) g'"
  using assms(2-4)
proof (induction ps arbitrary: q paths g)
  case Nil
  show ?case by (rule exI [of _ "[]"], rule exI [of _ g]) simp
next
  case (Cons p ps)
  obtain z g1 where z: "fastrand g = (z, g1)" by fastforce
  let ?kids = "map (rnext c p) (R_slots (z mod 8))"
  have "R_search_loop c ((p # ps) @ q) paths g = R_search_loop c (ps @ (q @ ?kids)) (rkey c p # paths) g1"
    using search_step [OF assms(1), of p paths "ps @ q" g] R_scan_full [OF assms(1), of p "R_slots (z mod 8)" "[]"]
      Cons.prems R_slots_range z by simp
  moreover have "\<forall>x\<in>set ps. rkey c x \<notin> set (rkey c p # paths)"
    using Cons.prems(2,3) by auto (metis imageI)
  then obtain zs g' where "length zs = length ps" "R_search_loop c (ps @ (q @ ?kids)) (rkey c p # paths) g1 =
      R_search_loop c ((q @ ?kids) @ concat (map2 (\<lambda>p z. map (rnext c p) (R_slots z)) ps zs)) (rev (map (rkey c) ps) @ rkey c p # paths) g'"
    using Cons.IH [of "rkey c p # paths" "q @ ?kids" g1] Cons.prems by auto
  ultimately show ?case by (intro exI [of _ "z mod 8 # zs"] exI [of _ g']) simp
qed

lemma R_slots_perm: "in_range s ENTRY_WIDTH \<Longrightarrow> 0 \<le> z \<Longrightarrow> s \<in> set (R_slots z)"
proof -
  assume s: "in_range s ENTRY_WIDTH" and z: "0 \<le> z"
  let ?i = "nat ((s - z) mod 8)"
  have "?i < 8" by (simp add: nat_less_iff)
  moreover have "(z + int ?i) mod 8 = s" using s by (simp add: EW mod_add_right_eq)
  ultimately show ?thesis unfolding R_slots_def EW by force
qed

lemma R_slots_distinct: "distinct (R_slots z)"
proof -
  have "inj_on (\<lambda>i. (z + int i) mod 8) {0..<8}"
  proof (rule inj_onI)
    fix i j :: nat assume ij: "i \<in> {0..<8}" "j \<in> {0..<8}" and "(z + int i) mod 8 = (z + int j) mod 8"
    then have "8 dvd int i - int j" by (simp add: mod_eq_dvd_iff)
    moreover have "i < 8" "j < 8" using ij by auto
    ultimately show "i = j" by presburger
  qed
  then show ?thesis by (simp add: R_slots_def EW distinct_map)
qed

subsection \<open>The path that is found\<close>

lemma stuck_D:
  assumes "r_stuck c idx1 idx2" "in_range s ENTRY_WIDTH"
  shows "r_full c (rhome c 2 (nkey (rcell c idx1 s)))" "rhome c 2 (nkey (rcell c idx1 s)) \<noteq> idx1"
    "rhome c 2 (nkey (rcell c idx1 s)) \<noteq> idx2" "\<not> r_full c (rhome c 1 (nkey (rcell c idx2 s)))"
    "rhome c 2 (nkey (rcell c idx2 s)) \<noteq> rhome c 1 (nkey (rcell c idx2 s))"
  using assms by (auto simp: r_stuck_def list_all_iff Let_def)

lemma stuck_search:
  assumes inv: "r_inv c" and idx: "in_range idx1 (r_cap c)" "in_range idx2 (r_cap c)" and st: "r_stuck c idx1 idx2"
  shows "\<exists>s sf g'. rin c idx2 s \<and> in_range sf ENTRY_WIDTH
     \<and> \<not> R_isOccupied (rcell c (rhome c 1 (nkey (rcell c idx2 s))) sf)
     \<and> R_search_loop c [Point 1 idx1 0 0, Point 2 idx2 1 0] [] g =
         Some (Point 1 (rhome c 1 (nkey (rcell c idx2 s))) ((8 + s) * 8 + sf) 1, g')"
proof -
  have sh: "r_shaped c" using inv by (simp add: r_inv_def)
  have full: "r_full c idx1" "r_full c idx2" "idx1 \<noteq> idx2" using st by (auto simp: r_stuck_def)
  let ?P1 = "Point 1 idx1 0 0" and ?P2 = "Point 2 idx2 1 0"
  let ?D = "\<lambda>s. rhome c 2 (nkey (rcell c idx1 s))" and ?C = "\<lambda>s. rhome c 1 (nkey (rcell c idx2 s))"
  have D: "in_range (?D s) (r_cap c)" "in_range (?C s) (r_cap c)" for s using sh by simp_all
  have keys: "rkey c ?P1 = nkey (rcell c idx1 0)" "rkey c ?P2 = nkey (rcell c idx2 1)" by (simp_all add: rkey_def)
  have ew: "in_range 0 ENTRY_WIDTH" "in_range 1 ENTRY_WIDTH" by (simp_all add: EW)
  have diff: "nkey (rcell c i s) \<noteq> nkey (rcell c i' s')"
    if "rin c i s" "rin c i' s'" "(i, s) \<noteq> (i', s')" "r_full c i" for i s i' s'
  proof (cases "R_isOccupied (rcell c i' s')")
    case True
    with keys_differ [OF inv that(1-3)] that show ?thesis by (simp add: r_full_iff)
  next
    case False
    with that show ?thesis by (auto simp: r_full_iff R_isOccupied_def)
  qed
  have "\<forall>p\<in>set [?P1, ?P2]. r_point c p \<and> pt_depth p < R_MAX_SEARCH_DEPTH - 1 \<and> r_full c (pt_index p)"
    using full idx by (auto simp: r_point_def R_MAX_SEARCH_DEPTH_def)
  moreover have "distinct (map (rkey c) [?P1, ?P2])" using full idx diff [of idx1 0 idx2 1] ew by (simp add: keys)
  ultimately obtain zs g1 where zs: "length zs = length [?P1, ?P2]" and one: "R_search_loop c ([?P1, ?P2] @ []) [] g =
      R_search_loop c ([] @ concat (map2 (\<lambda>p z. map (rnext c p) (R_slots z)) [?P1, ?P2] zs)) (rev (map (rkey c) [?P1, ?P2]) @ []) g1"
    using search_full [OF sh, of "[?P1, ?P2]" "[]" "[]" g] by auto
  obtain z1 z2 where z: "zs = [z1, z2]" using zs by (auto simp: length_Suc_conv)
  let ?A = "map (rnext c ?P1) (R_slots z1)" and ?B = "map (rnext c ?P2) (R_slots z2)"
  have n1: "rnext c ?P1 s = Point 2 (?D s) s 1" and n2: "rnext c ?P2 s = Point 1 (?C s) (8 + s) 1" for s
    by (simp_all add: rnext_def)
  have k1: "rkey c (rnext c ?P1 s) = nkey (rcell c (?D s) s)" and k2: "rkey c (rnext c ?P2 s) = nkey (rcell c (?C s) s)"
    if "in_range s ENTRY_WIDTH" for s using that by (simp_all add: rkey_def n1 n2 EW)
  note rng = R_slots_range [of z1, THEN bspec] R_slots_range [of z2, THEN bspec]
  have p1: "\<forall>p\<in>set ?A. r_point c p \<and> pt_depth p < R_MAX_SEARCH_DEPTH - 1 \<and> r_full c (pt_index p)"
  proof
    fix p assume "p \<in> set ?A"
    then obtain s where p: "p = Point 2 (?D s) s 1" "s \<in> set (R_slots z1)" by (auto simp: n1)
    have "0 \<le> s" "s < 8" using rng(1) [OF p(2)] by (simp_all add: EW)
    with stuck_D(1) [OF st rng(1) [OF p(2)]] D show "r_point c p \<and> pt_depth p < R_MAX_SEARCH_DEPTH - 1 \<and> r_full c (pt_index p)"
      by (simp add: p r_point_def R_MAX_SEARCH_DEPTH_def)
  qed
  have kA: "map (rkey c) ?A = map (\<lambda>s. nkey (rcell c (?D s) s)) (R_slots z1)"
    using k1 rng(1) by simp
  have "inj_on (\<lambda>s. nkey (rcell c (?D s) s)) (set (R_slots z1))"
  proof (rule inj_onI, rule ccontr)
    fix s t assume st': "s \<in> set (R_slots z1)" "t \<in> set (R_slots z1)"
      and eq: "nkey (rcell c (?D s) s) = nkey (rcell c (?D t) t)" and ne: "s \<noteq> t"
    have r: "in_range s ENTRY_WIDTH" "in_range t ENTRY_WIDTH" using st' rng(1) by blast+
    have "nkey (rcell c (?D s) s) \<noteq> nkey (rcell c (?D t) t)"
      by (rule diff) (use D r ne stuck_D(1) [OF st r(1)] in simp_all)
    with eq show False by simp
  qed
  then have p2: "distinct (map (rkey c) ?A)" unfolding kA using R_slots_distinct by (simp add: distinct_map)
  have old: "nkey (rcell c i s) \<notin> {rkey c ?P1, rkey c ?P2}"
    if "rin c i s" "i \<noteq> idx1" "i \<noteq> idx2" for i s
    using diff [of idx1 0 i s] diff [of idx2 1 i s] that idx full ew by (auto simp: keys)
  have p3: "\<forall>p\<in>set ?A. rkey c p \<notin> set [rkey c ?P2, rkey c ?P1]"
    using old [OF _ stuck_D(2,3) [OF st]] rng(1) k1 D by auto
  obtain zz g2 where two: "R_search_loop c (?A @ ?B) [rkey c ?P2, rkey c ?P1] g1 =
      R_search_loop c (?B @ concat (map2 (\<lambda>p z. map (rnext c p) (R_slots z)) ?A zz)) (rev (map (rkey c) ?A) @ [rkey c ?P2, rkey c ?P1]) g2"
    using search_full [OF sh p1 p2 p3, of ?B g1] by blast
  obtain s rest where hd: "R_slots z2 = s # rest" by (cases "R_slots z2") (auto simp: R_slots_def EW)
  then have s: "in_range s ENTRY_WIDTH" using rng(2) by simp
  let ?p = "rnext c ?P2 s"
  have notfull: "\<not> r_full c (?C s)" using stuck_D(4) [OF st s] .
  have fresh: "rkey c ?p \<notin> set (rev (map (rkey c) ?A) @ [rkey c ?P2, rkey c ?P1])"
  proof -
    have "nkey (rcell c (?D t) t) \<noteq> nkey (rcell c (?C s) s)" if "t \<in> set (R_slots z1)" for t
    proof -
      have t: "in_range t ENTRY_WIDTH" using that rng(1) by blast
      then have "?D t \<noteq> ?C s" using notfull stuck_D(1) [OF st t] by metis
      then show ?thesis by (intro diff) (use D s t stuck_D(1) [OF st t] in simp_all)
    qed
    moreover have "nkey (rcell c (?C s) s) \<notin> {rkey c ?P1, rkey c ?P2}"
    proof (rule old)
      show "?C s \<noteq> idx1" "?C s \<noteq> idx2" using notfull full by metis+
    qed (use D s in simp)
    ultimately show ?thesis unfolding set_append set_rev kA k2 [OF s] by (auto dest: not_sym)
  qed
  have rp: "r_point c ?p" "pt_depth ?p < R_MAX_SEARCH_DEPTH - 1" using D s by (auto simp: n2 r_point_def R_MAX_SEARCH_DEPTH_def EW)
  obtain z3 g3 where z3: "fastrand g2 = (z3, g3)" by fastforce
  have "0 \<le> z3 mod 8" by simp
  then have "\<exists>t\<in>set (R_slots (z3 mod 8)). \<not> R_isOccupied (rcell c (pt_index ?p) t)"
    using notfull R_slots_perm by (auto simp: n2 r_full_iff)
  from R_scan_free [OF sh rp R_slots_range this, of "[]"] obtain sf where sf: "in_range sf ENTRY_WIDTH"
    "\<not> R_isOccupied (rcell c (?C s) sf)"
    "R_scan c ?p (R_slots (z3 mod 8)) [] = Some (Found (?p\<lparr>pt_pathcode := pt_pathcode ?p * 8 + sf\<rparr>))" by (auto simp: n2)
  have "?p\<lparr>pt_pathcode := pt_pathcode ?p * 8 + sf\<rparr> = Point 1 (?C s) ((8 + s) * 8 + sf) 1" by (simp add: n2)
  then have "R_search_loop c [?P1, ?P2] [] g = Some (Point 1 (?C s) ((8 + s) * 8 + sf) 1, g3)"
    using one z two hd search_step [OF sh rp(1) fresh] z3 sf(3) by simp
  with s sf idx show ?thesis by blast
qed

subsection \<open>The attempt\<close>

lemma stuck_attempt:
  assumes inv: "r_inv c" and k: "nkey n \<noteq> EMPTY" "nkey n \<notin> dom (rmap c)"
  defines "idx1 \<equiv> rhome c 1 (nkey n)" and "idx2 \<equiv> rhome c 2 (nkey n)"
  assumes st: "r_stuck c idx1 idx2"
  shows "\<exists>g. R_insert_attempt (rlocked c {}) n idx1 idx2 = Some (None, rlocked (c\<lparr>r_seed := g\<rparr>) {})"
proof -
  have sh: "r_shaped c" using inv by (simp add: r_inv_def)
  have idx: "in_range idx1 (r_cap c)" "in_range idx2 (r_cap c)" using sh by (simp_all add: idx1_def idx2_def)
  have full: "r_full c idx1" "r_full c idx2" using st by (auto simp: r_stuck_def)
  have f: "R_isAvailable (r_elements c) idx = Some (-1)" if "in_range idx (r_cap c)" "r_full c idx" for idx
    using R_findSlot_ok(2) [OF sh that(1)] that(2) by (auto simp: slot_result_def r_full_iff)
  have a: "R_findSlot (r_elements c) (nkey n) idx = Some (-1)" if "idx \<in> {idx1, idx2}" for idx
    using R_findSlot_ok(1) [OF sh, of idx "nkey n"] that idx k(2) key_cell [OF inv k(1)]
    by (auto simp: slot_result_def idx1_def idx2_def)
  note eq = R_insert_once_eq [OF sh idx a [OF insertI1] a [OF insertI2 [OF singletonI]] f [OF idx(1) full(1)] f [OF idx(2) full(2)]]
  let ?l = "rlocked c {}"
  have "r_inv ?l" "r_stuck ?l idx1 idx2" using inv st by (simp_all add: r_inv_def r_stuck_def r_full_def)
  from stuck_search [OF this(1) _ _ this(2), of "r_seed c"] idx obtain s sf g' where s: "rin c idx2 s" "in_range sf ENTRY_WIDTH"
    "\<not> R_isOccupied (rcell c (rhome c 1 (nkey (rcell c idx2 s))) sf)"
    "R_search_loop ?l [Point 1 idx1 0 0, Point 2 idx2 1 0] [] (r_seed c) =
      Some (Point 1 (rhome c 1 (nkey (rcell c idx2 s))) ((8 + s) * 8 + sf) 1, g')" by auto
  let ?C = "rhome c 1 (nkey (rcell c idx2 s))" and ?e = "c\<lparr>r_seed := g'\<rparr>"
  have C: "rin c ?C sf" using sh s(2) by simp
  have occ: "R_isOccupied (rcell c idx2 s)" using full(2) s(1) by (simp add: r_full_iff)
  have search: "R_search ?l idx1 idx2 = Some (Point 1 ?C ((8 + s) * 8 + sf) 1, rlocked ?e {})"
    using s(4) by (simp add: R_search_def)
  have dec: "R_decode_path (Point 1 ?C ((8 + s) * 8 + sf) 1) = Some ([s, sf], 1)"
  proof -
    have r: "0 \<le> s" "s < 8" "0 \<le> sf" "sf < 8" using s(1,2) by (simp_all add: EW)
    have "((8 + s) * 8 + sf) mod 8 = sf" using r by presburger
    moreover have "((8 + s) * 8 + sf) div 8 = 8 + s" using r by presburger
    moreover have "(8 + s) mod 8 = s" "(8 + s) div 8 = 1" using r by presburger+
    ultimately have "((8 + s) * 8 + sf) mod 8 = sf" "((8 + s) * 8 + sf) div 8 = 8 + s" "(8 + s) mod 8 = s" "(8 + s) div 8 = 1"
      by blast+
    then show ?thesis by (simp add: R_decode_path_def R_MAX_SEARCH_DEPTH_def EW numeral_2_eq_2)
  qed
  have follow: "R_follow_path (rlocked ?e {}) 2 idx2 [s, sf] = Some [(2, idx2, s), (1, ?C, sf)]"
  proof -
    have cells: "R_isAvailable_slot (r_elements ?e) idx2 s = Some False" "R_getElement (r_elements ?e) idx2 s = Some (rcell c idx2 s)"
      "R_isAvailable_slot (r_elements ?e) ?C sf = Some True"
      using R_cell [of ?e idx2 s] R_cell [of ?e ?C sf] sh s(1,3) C occ by simp_all
    have "R_hash (rlocked ?e {}) (nkey (rcell c idx2 s)) 1 = Some ?C" using sh by (subst R_hash_home) simp_all
    with cells show ?thesis by simp
  qed
  have ok: "rcell_ok ?e (1, ?C, sf)" "rcell_ok ?e (2, idx2, s)" using C s(1) by (simp_all add: rcell_ok_def)
  have no: "\<not> rmovable ?e (1, ?C, sf) (2, idx2, s)" using stuck_D(5) [OF st] s(1) by (simp add: rmovable_def)
  have "R_displace (rlocked ?e {}) idx1 idx2 True (1, ?C, sf) (2, idx2, s) = Some (False, rlocked ?e {})"
    using R_displace_eq [of ?e idx1 idx2, OF _ _ _ ok, of True] sh idx no by simp
  then have "R_claim_path (rlocked ?e {}) idx1 idx2 [(2, idx2, s), (1, ?C, sf)] = Some (Result RETRY 0 0 0, rlocked ?e {})"
    by (simp add: R_claim_path_def)
  moreover have "(8 + s) * 8 + sf \<noteq> -1" using s(1,2) by auto
  ultimately have "R_insert_once ?l n idx1 idx2 = Some (Result RETRY 0 0 0, rlocked ?e {})"
    unfolding eq by (simp only: search dec follow Option.bind.simps prod.case Point_sel simp_thms if_True if_False one_neq_zero)
  then show ?thesis by (intro exI [of _ g']) (simp add: R_insert_attempt_def)
qed

lemma stuck_for_ever:
  assumes "r_inv c" "nkey n \<noteq> EMPTY" "nkey n \<notin> dom (rmap c)" "r_stuck c (rhome c 1 (nkey n)) (rhome c 2 (nkey n))"
  shows "R_insert fuel (rlocked c {}) n = No_fuel"
proof -
  have "R_insert_loop fuel (rlocked c {}) n (rhome c 1 (nkey n)) (rhome c 2 (nkey n)) = No_fuel"
    using assms
  proof (induction fuel arbitrary: c)
    case (Suc fuel)
    obtain g where g: "R_insert_attempt (rlocked c {}) n (rhome c 1 (nkey n)) (rhome c 2 (nkey n)) =
        Some (None, rlocked (c\<lparr>r_seed := g\<rparr>) {})" using stuck_attempt [OF Suc.prems] by blast
    have "r_inv (c\<lparr>r_seed := g\<rparr>)" "r_stuck (c\<lparr>r_seed := g\<rparr>) (rhome c 1 (nkey n)) (rhome c 2 (nkey n))"
      using Suc.prems by (simp_all add: r_inv_def r_stuck_def r_full_def)
    with Suc.IH [of "c\<lparr>r_seed := g\<rparr>"] Suc.prems g show ?case by simp
  qed simp
  moreover have "R_hash (rlocked c {}) (nkey n) t = Some (rhome c t (nkey n))" if "t \<in> {1, 2}" for t
    using assms(1) that by (subst R_hash_home) (simp_all add: r_inv_def)
  ultimately show ?thesis by (simp add: R_insert_def)
qed

end
