(* ===== verification/MapObject.thy ===== *)
theory MapObject
  imports Prelude
begin

text \<open>
  The contract of the key-value containers (the table of the RDMA store and the accounts of the bank): each
  operation answers, and changes the stored pairs, as an operation on a finite map does.  \<open>Store\<close>
  inserts or overwrites, \<open>Add\<close> inserts only a new key, \<open>Change\<close> overwrites only an existing one.  An
  implementation is a step function that may fail to return; the lemmas lift the contract
  to sequences of operations.
\<close>

datatype ('k, 'v) map_op =
    Store (op_key: 'k) 'v
  | Add (op_key: 'k) 'v
  | Change (op_key: 'k) 'v
  | Delete (op_key: 'k)
  | Lookup (op_key: 'k)
  | Has (op_key: 'k)

text \<open>The answer: whether the operation succeeded, and what a lookup found.\<close>

fun map_spec :: "('k, 'v) map_op \<Rightarrow> ('k \<rightharpoonup> 'v) \<Rightarrow> (bool \<times> 'v option) \<times> ('k \<rightharpoonup> 'v)" where
  "map_spec (Store k v) m = ((k \<notin> dom m, None), m(k \<mapsto> v))"
| "map_spec (Add k v) m = ((k \<notin> dom m, None), if k \<in> dom m then m else m(k \<mapsto> v))"
| "map_spec (Change k v) m = ((k \<in> dom m, None), if k \<in> dom m then m(k \<mapsto> v) else m)"
| "map_spec (Delete k) m = ((k \<in> dom m, None), m(k := None))"
| "map_spec (Lookup k) m = ((k \<in> dom m, m k), m)"
| "map_spec (Has k) m = ((k \<in> dom m, None), m)"

fun map_spec_run :: "('k, 'v) map_op list \<Rightarrow> ('k \<rightharpoonup> 'v) \<Rightarrow> (bool \<times> 'v option) list \<times> ('k \<rightharpoonup> 'v)" where
  "map_spec_run [] m = ([], m)"
| "map_spec_run (x # xs) m = (case map_spec x m of (a, m') \<Rightarrow> case map_spec_run xs m' of (as, m'') \<Rightarrow> (a # as, m''))"

fun run_map :: "('s \<Rightarrow> ('k, 'v) map_op \<Rightarrow> ((bool \<times> 'v option) \<times> 's) option) \<Rightarrow> 's \<Rightarrow> ('k, 'v) map_op list
    \<Rightarrow> ((bool \<times> 'v option) list \<times> 's) option" where
  "run_map step s [] = Some ([], s)"
| "run_map step s (x # xs) = do { (a, s') \<leftarrow> step s x; (as, s'') \<leftarrow> run_map step s' xs; Some (a # as, s'') }"

locale map_object =
  fixes step :: "'s \<Rightarrow> ('k, 'v) map_op \<Rightarrow> ((bool \<times> 'v option) \<times> 's) option"
    and inv :: "'s \<Rightarrow> bool"
    and contents :: "'s \<Rightarrow> ('k \<rightharpoonup> 'v)"
    and allowed :: "('k, 'v) map_op \<Rightarrow> bool"
  assumes step_refines: "inv s \<Longrightarrow> allowed x \<Longrightarrow> step s x = Some (a, s') \<Longrightarrow>
    inv s' \<and> (a, contents s') = map_spec x (contents s)"
begin

lemma run_refines:
  "inv s \<Longrightarrow> list_all allowed xs \<Longrightarrow> run_map step s xs = Some (as, s') \<Longrightarrow>
   inv s' \<and> (as, contents s') = map_spec_run xs (contents s)"
proof (induction xs arbitrary: s as)
  case (Cons x xs)
  from Cons.prems obtain a s1 as1 where s1: "step s x = Some (a, s1)"
    and r: "run_map step s1 xs = Some (as1, s')" and as: "as = a # as1" by auto
  from step_refines [OF _ _ s1] Cons.prems have "inv s1" "(a, contents s1) = map_spec x (contents s)" by auto
  with Cons.IH [OF _ _ r] Cons.prems as show ?case by (simp split: prod.splits) (metis Pair_inject)
qed simp

end

locale total_map_object = map_object +
  assumes step_total: "inv s \<Longrightarrow> allowed x \<Longrightarrow> step s x \<noteq> None"
begin

lemma run_total:
  "inv s \<Longrightarrow> list_all allowed xs \<Longrightarrow>
   \<exists>as s'. run_map step s xs = Some (as, s') \<and> inv s' \<and> (as, contents s') = map_spec_run xs (contents s)"
proof (induction xs arbitrary: s)
  case (Cons x xs)
  then obtain a s1 where s1: "step s x = Some (a, s1)" using step_total [of s x] by auto
  have "inv s1" using step_refines [OF _ _ s1] Cons.prems by simp
  with Cons obtain as s2 where "run_map step s1 xs = Some (as, s2)" by fastforce
  with s1 have r: "run_map step s (x # xs) = Some (a # as, s2)" by simp
  with run_refines [OF Cons.prems r] show ?case by blast
qed simp

end

end
