(* ===== verification/RCuckooCorrect.thy ===== *)
theory RCuckooCorrect
  imports RCuckooStuck MapObject
begin

text \<open>
  The properties of the table of the RDMA store: \<open>insert\<close>, \<open>remove\<close> and \<open>contains\<close> refine the operations of
  a map, and a table on which \<open>insert\<close> never returns.
\<close>

definition r_unlocked :: "rcuckoo \<Rightarrow> bool" where
  "r_unlocked c \<longleftrightarrow> r_locks c = replicate (r_cap c) False"

lemma r_unlocked_iff: "r_unlocked c \<longleftrightarrow> rlocked c {} = c"
  unfolding r_unlocked_def rlocked_def lock_image_empty
  by (cases c) (auto simp: r_cap_def)

lemma r_unlocked_rlocked [simp]: "r_unlocked (rlocked c {})"
  by (simp add: r_unlocked_iff)

lemma r_inv_rlocked [simp]: "r_inv (rlocked c A) = r_inv c"
  by (simp add: r_inv_def)

lemma r_unlocked_seed [simp]: "r_unlocked (c\<lparr>r_seed := g\<rparr>) = r_unlocked c"
  by (simp add: r_unlocked_def)

lemma R_size_slots_eq:
  assumes "r_shaped c" "in_range i (r_cap c)" "\<forall>j\<in>set js. in_range j ENTRY_WIDTH"
  shows "R_size_slots (r_elements c) i js n = Some (n + int (length (filter (\<lambda>j. R_isOccupied (rcell c i j)) js)))"
  using assms(3)
proof (induction js arbitrary: n)
  case (Cons j js)
  then have "R_isOccupied_slot (r_elements c) i j = Some (R_isOccupied (rcell c i j))" using assms by (simp add: exec_simps)
  with Cons show ?case by simp
qed simp

subsection \<open>A new table\<close>

lemma R_new_ok:
  assumes "0 < unat n" "9 * int (unat n) \<le> int_max"
  shows "r_inv (R_new n g)" "r_unlocked (R_new n g)" "rmap (R_new n g) = Map.empty"
proof -
  have b: "9 * unat n \<le> 2147483647" using assms(2) unfolding int_max_def by linarith
  then have "unat (n * 8) = unat n * 8" by (simp add: unat_word_ariths)
  then have "unat (n * 8 + n) = unat n * 9" using b by (simp add: unat_word_ariths)
  then have len: "r_elements (R_new n g) = replicate (9 * unat n) (Node_new EMPTY 0)"
    by (simp add: R_new_def R_Table_new_def EW)
  have cap: "r_cap (R_new n g) = unat n" by (simp add: r_cap_def R_new_def)
  have sh: "r_shaped (R_new n g)" using assms len cap by (simp add: r_shaped_def)
  have "rlist (R_new n g) = []" unfolding rlist_def len
    by (auto simp: filter_empty_conv R_isOccupied_def Node_new_def dest!: in_set_takeD)
  then have rc: "rcontents (R_new n g) = {#}" "runique (R_new n g)" "rmap (R_new n g) = Map.empty"
    by (simp_all add: rcontents_def runique_def rmap_def)
  then have "rplaced (R_new n g)" using in_rcontents [OF sh] by (auto simp: rplaced_def)
  with sh rc show "r_inv (R_new n g)" "rmap (R_new n g) = Map.empty" by (simp_all add: r_inv_def)
  show "r_unlocked (R_new n g)" unfolding r_unlocked_def cap by (simp add: R_new_def)
qed

subsection \<open>The table as a map\<close>

definition insert_answer :: "(u32 \<rightharpoonup> u32) \<Rightarrow> rnode \<Rightarrow> RRESULT \<Rightarrow> (u32 \<rightharpoonup> u32) \<Rightarrow> bool" where
  "insert_answer m n r m' \<longleftrightarrow>
     (r = R_TRUE \<and> nkey n \<notin> dom m \<or> r = R_DUP \<and> nkey n \<in> dom m) \<and> m' = m(nkey n \<mapsto> nval n)
     \<or> r = R_ABORT_FAILURE \<and> nkey n \<notin> dom m \<and> m' = m"

lemma insert_cases:
  assumes "r_inv c" "r_unlocked c" "nkey n \<noteq> EMPTY"
  shows "R_insert fuel c n = No_fuel \<or>
    (\<exists>r d. R_insert fuel c n = Done (r, d) \<and> r_inv d \<and> r_unlocked d \<and> insert_answer (rmap c) n r (rmap d))"
proof -
  have c: "rlocked c {} = c" using assms(2) by (simp add: r_unlocked_iff)
  from R_insert_ok [OF assms(1,3), of fuel, unfolded c] show ?thesis
  proof
    assume "\<exists>r d. R_insert fuel c n = Done (r, rlocked d {}) \<and> r_round c n (Some r) d"
    then obtain r d where r: "R_insert fuel c n = Done (r, rlocked d {})" "r_round c n (Some r) d" by blast
    then have "insert_answer (rmap c) n r (rmap d)" by (cases r) (auto simp: r_round_def insert_answer_def)
    with r show ?thesis by (intro disjI2 exI [of _ r] exI [of _ "rlocked d {}"]) (simp add: r_round_def)
  qed simp
qed

fun r_call :: "nat \<Rightarrow> rcuckoo \<Rightarrow> (u32, u32) map_op \<Rightarrow> ((bool \<times> u32 option) \<times> rcuckoo) option" where
  "r_call fuel c (Store k v) =
     (case R_insert fuel c (Node_new k v) of
        Done (r, d) \<Rightarrow> if r = R_ABORT_FAILURE then None else Some ((r = R_TRUE, None), d)
      | _ \<Rightarrow> None)"
| "r_call fuel c (Delete k) = do { (r, d) \<leftarrow> R_remove c k; Some ((r = R_TRUE, None), d) }"
| "r_call fuel c (Has k) = do { r \<leftarrow> R_contains c k; Some ((r = R_TRUE, None), c) }"
| "r_call fuel c _ = None"

lemma r_call_ok:
  assumes "r_inv c \<and> r_unlocked c" "op_key x \<noteq> EMPTY" "r_call fuel c x = Some (a, d)"
  shows "(r_inv d \<and> r_unlocked d) \<and> (a, rmap d) = map_spec x (rmap c)"
proof -
  have c: "rlocked c {} = c" using assms(1) by (simp add: r_unlocked_iff)
  show ?thesis
  proof (cases x)
    case (Store k v)
    have "R_insert fuel c (Node_new k v) \<noteq> No_fuel" using assms(3) Store by auto
    then obtain r e where "R_insert fuel c (Node_new k v) = Done (r, e)" "r_inv e" "r_unlocked e"
      "insert_answer (rmap c) (Node_new k v) r (rmap e)"
      using insert_cases [of c "Node_new k v" fuel] assms Store by (auto simp: Node_new_def)
    with assms(3) Store show ?thesis by (auto simp: insert_answer_def Node_new_def split: if_splits)
  next
    case (Delete k)
    with R_remove_ok [of c k] assms c show ?thesis by (auto simp: r_unlocked_iff split: if_splits)
  next
    case (Has k)
    with R_contains_ok [of c k] assms show ?thesis by (auto split: if_splits)
  qed (use assms in auto)
qed

interpretation rdma_map: map_object "r_call fuel" "\<lambda>c. r_inv c \<and> r_unlocked c" rmap "\<lambda>x. op_key x \<noteq> EMPTY"
  by unfold_locales (rule r_call_ok)

subsection \<open>Properties\<close>

definition bucket_of :: "u32 list \<Rightarrow> rnode list" where
  "bucket_of ks = map (\<lambda>k. Node_new k (k + 1)) ks @ replicate (8 - length ks) (Node_new EMPTY 0)"

definition stuck_table :: rcuckoo where
  "stuck_table = \<lparr>r_buckets = 4,
     r_elements = bucket_of [28, 44, 60, 68, 104, 108, 112, 136] @ bucket_of [27, 103, 163, 179, 191, 195, 211, 223]
       @ bucket_of [2, 6, 10, 14, 18, 22, 26, 30] @ bucket_of [] @ replicate 4 (Node_new EMPTY 0),
     r_locks = replicate 4 False, r_seed = 99\<rparr>"

text \<open>C24: \<open>insert\<close> of a non-zero key into a table that satisfies the invariant never faults.
  When it returns, the invariant holds, no lock is held, and the table has become the map with the
  key bound to the value (TRUE for a new key, DUP for a stored one), or is the same map
  and the answer is ABORT_FAILURE, for a key that was absent.\<close>

theorem rdma_insert_refines:
  assumes "r_inv c" "r_unlocked c" "nkey n \<noteq> EMPTY"
  shows "R_insert fuel c n = No_fuel \<or>
    (\<exists>r d. R_insert fuel c n = Done (r, d) \<and> r_inv d \<and> r_unlocked d \<and> insert_answer (rmap c) n r (rmap d))"
  by (rule insert_cases [OF assms])

theorem rdma_insert_refines_witness:
  "R_insert 1 (R_new 4 99) (Node_new 7 8) = No_fuel \<or>
    (\<exists>r d. R_insert 1 (R_new 4 99) (Node_new 7 8) = Done (r, d) \<and> r_inv d \<and> r_unlocked d
       \<and> insert_answer (rmap (R_new 4 99)) (Node_new 7 8) r (rmap d))"
  by (rule rdma_insert_refines) (simp_all add: R_new_ok int_max_def Node_new_def EMPTY_def)



definition placed_check :: "rcuckoo \<Rightarrow> bool" where
  "placed_check c \<longleftrightarrow> list_all (\<lambda>i. list_all (\<lambda>s. let n = rcell c i s in
     R_isOccupied n \<longrightarrow> i = rhome c 1 (nkey n) \<or> i = rhome c 2 (nkey n)) entries) (map int [0..<r_cap c])"

lemma r_inv_check:
  assumes "0 < r_cap c" "9 * int (r_cap c) \<le> int_max" "length (r_elements c) = 9 * r_cap c" "placed_check c" "runique c"
  shows "r_inv c"
proof -
  have "rplaced c"
    unfolding rplaced_def
  proof (intro allI impI)
    fix i s assume r: "rin c i s" and occ: "R_isOccupied (rcell c i s)"
    then have "i \<in> set (map int [0..<r_cap c])" by (auto intro: image_eqI [of _ _ "nat i"])
    with assms(4) have "\<forall>s\<in>set entries. let n = rcell c i s in R_isOccupied n \<longrightarrow> i = rhome c 1 (nkey n) \<or> i = rhome c 2 (nkey n)"
      unfolding placed_check_def list_all_iff by blast
    moreover have "s \<in> set entries" using r by simp
    ultimately show "i = rhome c 1 (nkey (rcell c i s)) \<or> i = rhome c 2 (nkey (rcell c i s))" using occ by (auto simp: Let_def)
  qed
  with assms show ?thesis by (simp add: r_inv_def r_shaped_def)
qed

lemma stuck_table_ok:
  "r_inv stuck_table" "r_unlocked stuck_table" "rmap stuck_table 4 = None"
  "rhome stuck_table 1 4 = 0" "rhome stuck_table 2 4 = 1" "r_stuck stuck_table 0 1"
proof -
  have cap: "r_cap stuck_table = 4" by code_simp
  have "length (r_elements stuck_table) = 36" by code_simp
  moreover have "placed_check stuck_table" by code_simp
  moreover have "runique stuck_table" by code_simp
  ultimately show "r_inv stuck_table" using cap by (intro r_inv_check) (simp_all add: int_max_def)
  show "r_unlocked stuck_table" unfolding r_unlocked_def cap by (simp add: stuck_table_def)
  show "rmap stuck_table 4 = None" by code_simp
  show "rhome stuck_table 1 4 = 0" by code_simp
  show "rhome stuck_table 2 4 = 1" by code_simp
  show "r_stuck stuck_table 0 1" by code_simp
qed

text \<open>C26: there are tables on which \<open>insert\<close> never returns.  Both buckets of the new key are full; what
  the elements of the first can be moved to is full too; each element of the second could move to its
  first bucket, but the test before the move compares with its second hash and refuses it, in
  every round.\<close>

theorem rdma_insert_livelock:
  assumes "r_inv c" "r_unlocked c" "nkey n \<noteq> EMPTY" "nkey n \<notin> dom (rmap c)"
    and "r_stuck c (rhome c 1 (nkey n)) (rhome c 2 (nkey n))"
  shows "R_insert fuel c n = No_fuel"
  using stuck_for_ever [OF assms(1,3,4,5), of fuel] assms(2) by (simp add: r_unlocked_iff)

theorem rdma_insert_livelock_witness:
  "\<forall>fuel. R_insert fuel stuck_table (Node_new 4 5) = No_fuel"
proof
  show "R_insert fuel stuck_table (Node_new 4 5) = No_fuel" for fuel
    by (rule rdma_insert_livelock) (simp_all add: stuck_table_ok Node_new_def EMPTY_def domIff)
qed

end
