(* ===== verification/RRemote.thy ===== *)
theory RRemote
  imports RCuckooInsert "HOL-Library.Signed_Division"
begin

text \<open>
  Clients of the RDMA store (ReplicatedKeyValueStoreRDMA/App/Remote.cpp) and the message handler of
  its servers (Persistence/Server.cpp).  A client reads buckets of a server's table and sets the lock words behind
  them by one-sided operations on the server's memory, the array \<open>r_elements\<close>; offsets are in bytes and a
  node is 8 of them.  A read or compare-and-swap outside the registered region fails: \<open>None\<close>.  The macro SIZE is
  the argument \<open>sz\<close> of the definitions, \<open>RDMA_SIZE\<close> in the code.

  The functions of the first part run one call of a client with nobody else at work.  The second part splits
  the same calls into their one-sided operations and messages: \<open>rw_step\<close> is one step of one
  client, or of a server that takes a received message and inserts its nodes.  Servers have several worker
  threads on one completion queue, so any pending message may be the next.
\<close>

definition RDMA_SIZE :: int where "RDMA_SIZE = 125000"

subsection \<open>Hashes and one-sided operations\<close>

fun findElement :: "rnode list \<Rightarrow> u32 \<Rightarrow> nat \<Rightarrow> RRESULT option" where
  "findElement es k 0 = Some R_FALSE"
| "findElement [] k (Suc n) = None"
| "findElement (e # es) k (Suc n) = (if nkey e = k then Some R_TRUE else findElement es k n)"

definition U_secondary_hash :: "u32 \<Rightarrow> u32" where
  "U_secondary_hash a =
     (let a = (a + 0x7ed55d16) + push_bit 12 a;
          a = (a XOR 0xc761c23c) XOR drop_bit 19 a;
          a = (a + 0x165667b1) + push_bit 5 a;
          a = (a + 0xd3a2646c) XOR push_bit 9 a;
          a = (a + 0xfd7046c5) + push_bit 3 a;
          a = (a XOR 0xb55a4f09) XOR drop_bit 16 a
      in a)"

text \<open>The parameter is an \<open>int\<close>: the primary remainder is signed, like the key; the secondary one is unsigned.\<close>

definition RDMA_hash :: "int \<Rightarrow> u32 \<Rightarrow> int \<Rightarrow> u32 option" where
  "RDMA_hash sz k func =
     (if sz = 0 then None
      else if func = 1 then Some (word_of_int (sint k smod sz))
      else if func = 2 then Some (U_secondary_hash k mod word_of_int sz)
      else None)"

definition RDMA_index :: "int \<Rightarrow> u32 \<Rightarrow> int \<Rightarrow> int option" where
  "RDMA_index sz k func = do { h \<leftarrow> RDMA_hash sz k func; Some (sint h) }"

definition rdma_read :: "rnode list \<Rightarrow> int \<Rightarrow> int \<Rightarrow> rnode list option" where
  "rdma_read mem off len =
     (if 0 \<le> off \<and> off mod 8 = 0 \<and> 0 \<le> len \<and> off + len \<le> 8 * int (length mem)
      then Some (take (nat (len div 8)) (drop (nat (off div 8)) mem)) else None)"

text \<open>The 64-bit word that the two \<open>int\<close>s of a node form in memory, the key in the low half.\<close>

definition node_word :: "rnode \<Rightarrow> u64" where
  "node_word n = push_bit 32 (ucast (nval n)) OR ucast (nkey n)"

definition word_node :: "u64 \<Rightarrow> rnode" where
  "word_node w = Node_new (ucast w) (ucast (drop_bit 32 w))"

definition compareAndSwap :: "rnode list \<Rightarrow> int \<Rightarrow> u64 \<Rightarrow> u64 \<Rightarrow> (u64 \<times> rnode list) option" where
  "compareAndSwap mem off compare swap =
     (if off mod 8 \<noteq> 0 then None
      else do { n \<leftarrow> at mem (off div 8);
                if node_word n = compare
                then do { mem \<leftarrow> upd mem (off div 8) (word_node swap); Some (node_word n, mem) }
                else Some (node_word n, mem) })"

text \<open>\<open>fastrand() % numNodes\<close>\<close>

definition pick_server :: "nat \<Rightarrow> u32 \<Rightarrow> (int \<times> u32) option" where
  "pick_server n g = (if n = 0 then None else case fastrand g of (z, g) \<Rightarrow> Some (z mod int n, g))"

definition bucket_read :: "rnode list \<Rightarrow> int \<Rightarrow> rnode list option" where
  "bucket_read mem index =
     do { m \<leftarrow> as_int (index * int ENTRY_WIDTH);
          off \<leftarrow> as_int (m * 8);
          rdma_read mem off (int ENTRY_WIDTH * 8) }"

definition RDMA_get :: "int \<Rightarrow> rnode list list \<Rightarrow> u32 \<Rightarrow> u32 \<Rightarrow> (RRESULT \<times> u32) option" where
  "RDMA_get sz mems g k =
     do { (targetId, g) \<leftarrow> pick_server (length mems) g;
          index \<leftarrow> RDMA_index sz k 1;
          secondary_index \<leftarrow> RDMA_index sz k 2;
          mem \<leftarrow> at mems targetId;
          bucket \<leftarrow> bucket_read mem index;
          retval \<leftarrow> findElement bucket k ENTRY_WIDTH;
          if retval = R_FALSE then
            do { bucket \<leftarrow> bucket_read mem secondary_index;
                 retval \<leftarrow> findElement bucket k ENTRY_WIDTH;
                 Some (retval, g) }
          else Some (retval, g) }"

subsection \<open>Locks and insertion\<close>

definition lock_offset :: "int \<Rightarrow> u32 \<Rightarrow> int option" where
  "lock_offset sz k =
     do { index \<leftarrow> RDMA_index sz k 1;
          a \<leftarrow> as_int (sz * int ENTRY_WIDTH + index);
          as_int (a * 8) }"

definition lock_cas :: "int \<Rightarrow> rnode list list \<Rightarrow> u32 \<Rightarrow> int \<Rightarrow> u64 \<Rightarrow> u64 \<Rightarrow> (u64 \<times> rnode list list) option" where
  "lock_cas sz mems k targetId compare swap =
     do { off \<leftarrow> lock_offset sz k;
          mem \<leftarrow> at mems targetId;
          (old, mem) \<leftarrow> compareAndSwap mem off compare swap;
          mems \<leftarrow> upd mems targetId mem;
          Some (old, mems) }"

fun RDMA_release :: "int \<Rightarrow> rnode list list \<Rightarrow> u32 \<Rightarrow> int list \<Rightarrow> rnode list list option" where
  "RDMA_release sz mems k [] = Some mems"
| "RDMA_release sz mems k (targetId # owned) =
     do { (old, mems) \<leftarrow> lock_cas sz mems k targetId 1 0; RDMA_release sz mems k owned }"

fun prepare_loop :: "int \<Rightarrow> rnode list list \<Rightarrow> u32 \<Rightarrow> int list \<Rightarrow> int list \<Rightarrow> (int list \<times> rnode list list) option" where
  "prepare_loop sz mems k [] owned = Some (owned, mems)"
| "prepare_loop sz mems k (targetId # todo) owned =
     do { (old, mems) \<leftarrow> lock_cas sz mems k targetId 0 1;
          if old = 1 then do { mems \<leftarrow> RDMA_release sz mems k owned; Some ([], mems) }
          else prepare_loop sz mems k todo (owned @ [targetId]) }"

definition targets_from :: "int \<Rightarrow> nat \<Rightarrow> int list" where
  "targets_from startingId n = map (\<lambda>i. (startingId + int i) mod int n) [0..<n]"

definition prepareMessage :: "int \<Rightarrow> rnode list list \<Rightarrow> u32 \<Rightarrow> u32 \<Rightarrow> (int list \<times> rnode list list \<times> u32) option" where
  "prepareMessage sz mems g k =
     do { (startingId, g) \<leftarrow> pick_server (length mems) g;
          (owned, mems) \<leftarrow> prepare_loop sz mems k (targets_from startingId (length mems)) [];
          Some (owned, mems, g) }"

text \<open>A message is the array of nodes in the sent buffer; \<open>boxes\<close> are the messages that each server has received.\<close>

type_synonym rmessage = "rnode list"

definition send_message :: "rmessage list list \<Rightarrow> int \<Rightarrow> rmessage \<Rightarrow> rmessage list list option" where
  "send_message boxes targetId msg = do { b \<leftarrow> at boxes targetId; upd boxes targetId (b @ [msg]) }"

fun send_node :: "rmessage list list \<Rightarrow> rnode \<Rightarrow> int list \<Rightarrow> rmessage list list option" where
  "send_node boxes n [] = Some boxes"
| "send_node boxes n (targetId # owned) =
     do { boxes \<leftarrow> send_message boxes targetId [n]; send_node boxes n owned }"

definition RDMA_insert :: "int \<Rightarrow> rnode list list \<Rightarrow> rmessage list list \<Rightarrow> u32 \<Rightarrow> u32 \<times> u32 \<Rightarrow>
    (RRESULT \<times> rnode list list \<times> rmessage list list \<times> u32) option" where
  "RDMA_insert sz mems boxes g element =
     do { let n = Node_new (fst element) (snd element);
          (owned, mems, g) \<leftarrow> prepareMessage sz mems g (nkey n);
          if owned = [] then Some (R_ABORT_FAILURE, mems, boxes, g)
          else do { boxes \<leftarrow> send_node boxes n owned;
                    mems \<leftarrow> RDMA_release sz mems (nkey n) owned;
                    Some (R_TRUE, mems, boxes, g) } }"

fun release_sets :: "int \<Rightarrow> rnode list list \<Rightarrow> (u32 \<times> int list) list \<Rightarrow> rnode list list option" where
  "release_sets sz mems [] = Some mems"
| "release_sets sz mems ((k, owned) # rest) =
     do { mems \<leftarrow> RDMA_release sz mems k owned; release_sets sz mems rest }"

text \<open>The sets of the elements locked so far are newest first, the order in which a failure releases them.\<close>

fun prepare_elements :: "int \<Rightarrow> rnode list list \<Rightarrow> u32 \<Rightarrow> (u32 \<times> u32) list \<Rightarrow> (u32 \<times> int list) list \<Rightarrow>
    ((u32 \<times> int list) list option \<times> rnode list list \<times> u32) option" where
  "prepare_elements sz mems g [] sets = Some (Some (rev sets), mems, g)"
| "prepare_elements sz mems g (e # es) sets =
     do { (owned, mems, g) \<leftarrow> prepareMessage sz mems g (fst e);
          if owned = [] then do { mems \<leftarrow> release_sets sz mems sets; Some (None, mems, g) }
          else prepare_elements sz mems g es ((fst e, owned) # sets) }"

text \<open>The buffer of a message to several servers is 24 bytes, three nodes, whatever the number of elements; it must lie in
  the array.\<close>

fun send_elements :: "rmessage list list \<Rightarrow> rnode list \<Rightarrow> int list \<Rightarrow> rmessage list list option" where
  "send_elements boxes insertions [] = Some boxes"
| "send_elements boxes insertions (targetId # ts) =
     (if 3 \<le> length insertions
      then do { boxes \<leftarrow> send_message boxes targetId (take 3 insertions); send_elements boxes insertions ts }
      else None)"

definition RDMA_insert_all :: "int \<Rightarrow> rnode list list \<Rightarrow> rmessage list list \<Rightarrow> u32 \<Rightarrow> (u32 \<times> u32) list \<Rightarrow>
    (RRESULT \<times> rnode list list \<times> rmessage list list \<times> u32) option" where
  "RDMA_insert_all sz mems boxes g elements =
     do { (sets, mems, g) \<leftarrow> prepare_elements sz mems g elements [];
          (case sets of
             None \<Rightarrow> Some (R_ABORT_FAILURE, mems, boxes, g)
           | Some sets \<Rightarrow>
               do { let insertions = map (\<lambda>e. Node_new (fst e) (snd e)) elements;
                    boxes \<leftarrow> send_elements boxes insertions (map int [0..<length elements]);
                    mems \<leftarrow> release_sets sz mems sets;
                    Some (R_TRUE, mems, boxes, g) }) }"

subsection \<open>Server\<close>

text \<open>What a worker of a server does with a message; \<open>bytesWritten / sizeof(Node)\<close> is its length.\<close>

fun message_handler :: "nat \<Rightarrow> rcuckoo \<Rightarrow> rmessage \<Rightarrow> rcuckoo outcome" where
  "message_handler fuel c [] = Done c"
| "message_handler fuel c (n # ns) =
     (case R_insert fuel c n of
        Done (r, c) \<Rightarrow> message_handler fuel c ns
      | Fault \<Rightarrow> Fault
      | No_fuel \<Rightarrow> No_fuel)"

subsection \<open>Interleaved clients\<close>

text \<open>Where a call of \<open>insert\<close> stands: the servers it has still to lock and those it owns, the servers it has still to
  send the node to, the servers it has still to unlock.\<close>

datatype rcall =
    Locking rnode "int list" "int list"
  | Sending rnode "int list" "int list"
  | Releasing u32 "int list" RRESULT
  | Answered RRESULT

record rworld =
  rw_tables :: "rcuckoo list"
  rw_arrived :: "rmessage list list"
  rw_pending :: "rmessage list list"
  rw_calls :: "rcall list"

datatype revent =
    Call nat rnode int
  | Client nat
  | Worker nat nat

definition rw_mems :: "rworld \<Rightarrow> rnode list list" where
  "rw_mems w = map r_elements (rw_tables w)"

definition rw_write :: "rworld \<Rightarrow> rnode list list \<Rightarrow> rworld" where
  "rw_write w mems = w\<lparr>rw_tables := map2 (\<lambda>c es. c\<lparr>r_elements := es\<rparr>) (rw_tables w) mems\<rparr>"

definition after_locking :: "rnode \<Rightarrow> int list \<Rightarrow> int list \<Rightarrow> rcall" where
  "after_locking n todo owned =
     (if todo \<noteq> [] then Locking n todo owned
      else if owned = [] then Answered R_ABORT_FAILURE else Sending n owned owned)"

definition after_sending :: "rnode \<Rightarrow> int list \<Rightarrow> int list \<Rightarrow> rcall" where
  "after_sending n todo owned = (if todo \<noteq> [] then Sending n todo owned else Releasing (nkey n) owned R_TRUE)"

definition after_releasing :: "u32 \<Rightarrow> int list \<Rightarrow> RRESULT \<Rightarrow> rcall" where
  "after_releasing k todo r = (if todo \<noteq> [] then Releasing k todo r else Answered r)"

definition call_step :: "int \<Rightarrow> rworld \<Rightarrow> nat \<Rightarrow> rworld option" where
  "call_step sz w j =
     (case rw_calls w ! j of
        Locking n (t # todo) owned \<Rightarrow>
          do { (old, mems) \<leftarrow> lock_cas sz (rw_mems w) (nkey n) t 0 1;
               Some ((rw_write w mems)\<lparr>rw_calls := (rw_calls w)[j :=
                 (if old = 1 then after_releasing (nkey n) owned R_ABORT_FAILURE
                  else after_locking n todo (owned @ [t]))]\<rparr>) }
      | Sending n (t # todo) owned \<Rightarrow>
          do { arrived \<leftarrow> send_message (rw_arrived w) t [n];
               pending \<leftarrow> send_message (rw_pending w) t [n];
               Some (w\<lparr>rw_arrived := arrived, rw_pending := pending,
                       rw_calls := (rw_calls w)[j := after_sending n todo owned]\<rparr>) }
      | Releasing k (t # todo) r \<Rightarrow>
          do { (old, mems) \<leftarrow> lock_cas sz (rw_mems w) k t 1 0;
               Some ((rw_write w mems)\<lparr>rw_calls := (rw_calls w)[j := after_releasing k todo r]\<rparr>) }
      | _ \<Rightarrow> None)"

definition worker_step :: "nat \<Rightarrow> rworld \<Rightarrow> nat \<Rightarrow> nat \<Rightarrow> rworld option" where
  "worker_step fuel w s m =
     (if s < length (rw_tables w) \<and> s < length (rw_pending w) \<and> m < length (rw_pending w ! s) then
        (case message_handler fuel (rw_tables w ! s) (rw_pending w ! s ! m) of
           Done c \<Rightarrow> Some (w\<lparr>rw_tables := (rw_tables w)[s := c],
                     rw_pending := (rw_pending w)[s := take m (rw_pending w ! s) @ drop (Suc m) (rw_pending w ! s)]\<rparr>)
         | _ \<Rightarrow> None)
      else None)"

text \<open>\<open>Call j n z\<close>: client j, whose last call has returned, calls \<open>insert\<close> and draws z from \<open>fastrand\<close>.\<close>

fun rw_step :: "int \<Rightarrow> nat \<Rightarrow> revent \<Rightarrow> rworld \<Rightarrow> rworld option" where
  "rw_step sz fuel (Call j n z) w =
     (if j < length (rw_calls w) \<and> rw_tables w \<noteq> [] \<and> 0 \<le> z then
        (case rw_calls w ! j of
           Answered r \<Rightarrow>
             (let k = length (rw_tables w) in
              Some (w\<lparr>rw_calls := (rw_calls w)[j := after_locking n (targets_from (z mod int k) k) []]\<rparr>))
         | _ \<Rightarrow> None)
      else None)"
| "rw_step sz fuel (Client j) w = (if j < length (rw_calls w) then call_step sz w j else None)"
| "rw_step sz fuel (Worker s m) w = worker_step fuel w s m"

fun rw_run :: "int \<Rightarrow> nat \<Rightarrow> revent list \<Rightarrow> rworld \<Rightarrow> rworld option" where
  "rw_run sz fuel [] w = Some w"
| "rw_run sz fuel (e # es) w = do { w \<leftarrow> rw_step sz fuel e w; rw_run sz fuel es w }"

definition rw_new :: "nat \<Rightarrow> u32 \<Rightarrow> nat \<Rightarrow> rworld" where
  "rw_new servers n clients =
     \<lparr>rw_tables = replicate servers (R_new n 99), rw_arrived = replicate servers [],
      rw_pending = replicate servers [], rw_calls = replicate clients (Answered R_TRUE)\<rparr>"

end
