(* ===== verification/RRemoteInv.thy ===== *)
theory RRemoteInv
  imports RRemote RCuckooCorrect
begin

text \<open>
  Invariants of the RDMA store with interleaved clients.  The lock words of a server are the tail of its
  array; a lock word is 1 exactly while one client holds it, and an insertion by the server leaves the tail
  alone.  A second invariant states in which order the messages about one bucket arrive.
  Keys are positive: a negative key has a negative primary remainder on the client.
\<close>

subsection \<open>Lock words\<close>

definition lock_bucket :: "int \<Rightarrow> u32 \<Rightarrow> nat" where
  "lock_bucket sz k = nat (sint k mod sz)"

definition lock_word :: "rcuckoo \<Rightarrow> nat \<Rightarrow> u64" where
  "lock_word c i = node_word (r_elements c ! (8 * r_cap c + i))"

definition set_lock :: "rcuckoo \<Rightarrow> nat \<Rightarrow> u64 \<Rightarrow> rcuckoo" where
  "set_lock c i v = c\<lparr>r_elements := (r_elements c)[8 * r_cap c + i := word_node v]\<rparr>"

definition fits_sz :: "int \<Rightarrow> bool" where
  "fits_sz sz \<longleftrightarrow> 0 < sz \<and> 72 * sz \<le> int_max"

definition positive_key :: "u32 \<Rightarrow> bool" where
  "positive_key k \<longleftrightarrow> 0 < sint k"

definition replica :: "int \<Rightarrow> rcuckoo \<Rightarrow> bool" where
  "replica sz c \<longleftrightarrow> r_inv c \<and> r_unlocked c \<and> int (r_cap c) = sz"

lemma positive_key_EMPTY: "positive_key k \<Longrightarrow> k \<noteq> EMPTY"
  by (auto simp: positive_key_def EMPTY_def)

lemma lock_bucket_less: "fits_sz sz \<Longrightarrow> int (lock_bucket sz k) < sz"
  by (simp add: lock_bucket_def fits_sz_def)

lemma node_word_bits [simp]: "node_word (word_node 0) = 0" "node_word (word_node 1) = 1"
  by (simp_all add: node_word_def word_node_def Node_new_def)

lemma sint_range: "sint (k :: u32) < 2147483648" "- 2147483648 \<le> sint (k :: u32)"
  using sint_lt [of k] sint_ge [of k] by simp_all

lemma sint_word_of_int: "0 \<le> a \<Longrightarrow> a \<le> int_max \<Longrightarrow> sint (word_of_int a :: u32) = a"
  unfolding int_max_def by (simp add: sint_sbintrunc' signed_take_bit_int_eq_self)

lemma primary_index:
  assumes "fits_sz sz" "0 \<le> sint k"
  shows "RDMA_index sz k 1 = Some (sint k mod sz)"
proof -
  have "sint k smod sz = sint k mod sz" using assms by (simp add: signed_modulo_int_def fits_sz_def sgn_if)
  moreover have "0 \<le> sint k mod sz" "sint k mod sz < sz" "sz \<le> int_max" using assms by (simp_all add: fits_sz_def)
  then have "0 \<le> sint k mod sz" "sint k mod sz \<le> int_max" by linarith+
  ultimately show ?thesis using assms by (simp add: RDMA_index_def RDMA_hash_def fits_sz_def sint_word_of_int)
qed

lemma lock_offset_eq:
  assumes "fits_sz sz" "0 \<le> sint k"
  shows "lock_offset sz k = Some ((8 * sz + int (lock_bucket sz k)) * 8)"
proof -
  have b: "0 \<le> sint k mod sz" "sint k mod sz < sz" using assms by (simp_all add: fits_sz_def)
  have "sz * 8 + sint k mod sz \<le> int_max" "(sz * 8 + sint k mod sz) * 8 \<le> int_max" using assms(1) b by (auto simp: fits_sz_def)
  then show ?thesis using b assms(1)
    by (simp add: lock_offset_def primary_index [OF assms] lock_bucket_def EW exec_simps fits_sz_def mult.commute)
qed

lemma lock_cas_eq:
  assumes sz: "fits_sz sz" and k: "0 \<le> sint k" and t: "t < length cs" and c: "replica sz (cs ! t)"
  defines "i \<equiv> lock_bucket sz k"
  shows "lock_cas sz (map r_elements cs) k (int t) compare swap = Some (lock_word (cs ! t) i,
    map r_elements (if lock_word (cs ! t) i = compare then cs[t := set_lock (cs ! t) i swap] else cs))"
proof -
  have "r_shaped (cs ! t)" and cap: "int (r_cap (cs ! t)) = sz" using c by (auto simp: replica_def r_inv_def)
  then have len: "length (r_elements (cs ! t)) = 9 * r_cap (cs ! t)" by (simp add: r_shaped_def)
  have i: "i < r_cap (cs ! t)" using lock_bucket_less [OF sz, of k] cap by (simp add: i_def)
  have ix: "8 * sz + int i = int (8 * r_cap (cs ! t) + i)" using cap by simp
  have inr: "in_range (int (8 * r_cap (cs ! t) + i)) (length (r_elements (cs ! t)))" using i len by simp
  have at: "at (r_elements (cs ! t)) (8 * sz + int i) = Some (r_elements (cs ! t) ! (8 * r_cap (cs ! t) + i))"
    "upd (r_elements (cs ! t)) (8 * sz + int i) x = Some ((r_elements (cs ! t))[8 * r_cap (cs ! t) + i := x])" for x
    unfolding ix at_in [OF inr] upd_in [OF inr] by (simp_all only: nat_int)
  have "at (map r_elements cs) (int t) = Some (r_elements (cs ! t))"
    "upd (map r_elements cs) (int t) es = Some ((map r_elements cs)[t := es])" for es
    using t by (simp_all add: at_def upd_def)
  moreover have "(map r_elements cs)[t := r_elements (cs ! t)] = map r_elements cs" using t by (simp add: list_update_same_conv)
  ultimately show ?thesis
    unfolding lock_cas_def lock_offset_eq [OF sz k] i_def [symmetric]
    by (simp add: compareAndSwap_def at lock_word_def set_lock_def map_update)
qed

lemma rw_write_mems: "rw_write w (map r_elements cs) = w\<lparr>rw_tables := cs\<rparr>" 
  if "length cs = length (rw_tables w)" "\<And>t. t < length cs \<Longrightarrow> \<exists>es. cs ! t = (rw_tables w ! t)\<lparr>r_elements := es\<rparr>"
proof -
  have "map2 (\<lambda>c es. c\<lparr>r_elements := es\<rparr>) (rw_tables w) (map r_elements cs) = cs"
  proof (rule nth_equalityI)
    fix t assume "t < length (map2 (\<lambda>c es. c\<lparr>r_elements := es\<rparr>) (rw_tables w) (map r_elements cs))"
    then have t: "t < length cs" using that(1) by simp
    with that(2) obtain es where "cs ! t = (rw_tables w ! t)\<lparr>r_elements := es\<rparr>" by blast
    with t that(1) show "map2 (\<lambda>c es. c\<lparr>r_elements := es\<rparr>) (rw_tables w) (map r_elements cs) ! t = cs ! t" by simp
  qed (use that in simp)
  then show ?thesis by (simp add: rw_write_def)
qed

lemma lock_cas_write:
  assumes "fits_sz sz" "0 \<le> sint k" "t < length (rw_tables w)" "replica sz (rw_tables w ! t)"
  shows "\<exists>mems. lock_cas sz (rw_mems w) k (int t) compare swap = Some (lock_word (rw_tables w ! t) (lock_bucket sz k), mems) \<and>
    rw_write w mems = w\<lparr>rw_tables := (if lock_word (rw_tables w ! t) (lock_bucket sz k) = compare
      then (rw_tables w)[t := set_lock (rw_tables w ! t) (lock_bucket sz k) swap] else rw_tables w)\<rparr>"
proof -
  let ?cs = "if lock_word (rw_tables w ! t) (lock_bucket sz k) = compare
      then (rw_tables w)[t := set_lock (rw_tables w ! t) (lock_bucket sz k) swap] else rw_tables w"
  have "\<exists>es. ?cs ! u = (rw_tables w ! u)\<lparr>r_elements := es\<rparr>" if "u < length ?cs" for u
  proof (cases "u = t")
    case True
    then show ?thesis using assms(3) by (intro exI [of _ "r_elements (?cs ! t)"]) (auto simp: set_lock_def)
  next
    case False
    then show ?thesis by (intro exI [of _ "r_elements (rw_tables w ! u)"]) auto
  qed
  then have "rw_write w (map r_elements ?cs) = w\<lparr>rw_tables := ?cs\<rparr>" by (intro rw_write_mems) auto
  with lock_cas_eq [OF assms] show ?thesis unfolding rw_mems_def by blast
qed

lemma tail_change:
  assumes c: "replica sz c" and es: "length es = length (r_elements c)" "take (8 * r_cap c) es = take (8 * r_cap c) (r_elements c)"
  shows "replica sz (c\<lparr>r_elements := es\<rparr>)" "rmap (c\<lparr>r_elements := es\<rparr>) = rmap c" "r_cap (c\<lparr>r_elements := es\<rparr>) = r_cap c"
    "j < 8 * r_cap c \<Longrightarrow> es ! j = r_elements c ! j"
proof -
  let ?d = "c\<lparr>r_elements := es\<rparr>"
  have sh: "r_shaped c" using c by (simp add: replica_def r_inv_def)
  have cap: "r_cap ?d = r_cap c" by (simp add: r_cap_def)
  have rl: "rlist ?d = rlist c" unfolding rlist_def cap by (simp add: es)
  have nth: "es ! j = r_elements c ! j" if "j < 8 * r_cap c" for j using es(2) that by (metis nth_take)
  have "rcell ?d j s = rcell c j s" if "rin c j s" for j s
  proof -
    have "nat (j * 8 + s) < 8 * r_cap c" using cell_index(1,2) [OF sh that] by linarith
    from nth [OF this] show ?thesis by (simp add: rcell_def)
  qed
  moreover have "rhome ?d = rhome c" by (simp add: rhome_def fun_eq_iff)
  ultimately have "rplaced ?d = rplaced c" unfolding rplaced_def cap by (metis (no_types, lifting))
  moreover have "r_shaped ?d" using sh cap es(1) by (simp add: r_shaped_def)
  moreover have "r_unlocked ?d" using c cap by (simp add: replica_def r_unlocked_def)
  ultimately show "replica sz ?d" using c cap rl by (simp add: replica_def r_inv_def runique_def)
  show "rmap ?d = rmap c" by (simp add: rmap_def rl)
  show "r_cap ?d = r_cap c" by (rule cap)
  show "es ! j = r_elements c ! j" if "j < 8 * r_cap c" using nth [OF that] .
qed

lemma set_lock_keeps:
  assumes "replica sz c"
  shows "replica sz (set_lock c i v)" "rmap (set_lock c i v) = rmap c" "r_cap (set_lock c i v) = r_cap c"
  unfolding set_lock_def by (rule tail_change [OF assms]; simp)+

lemma lock_word_set_lock:
  assumes "replica sz c" "i < r_cap c" "j < r_cap c" "v \<in> {0, 1}"
  shows "lock_word (set_lock c i v) j = (if j = i then v else lock_word c j)"
proof -
  have "length (r_elements c) = 9 * r_cap c" using assms(1) by (simp add: replica_def r_inv_def r_shaped_def)
  then show ?thesis using assms set_lock_keeps(3) [OF assms(1), of i v] by (auto simp: lock_word_def set_lock_def)
qed

lemma lock_word_tail:
  assumes "replica sz c" "i < r_cap c"
  shows "lock_word c i = node_word (rtail c ! i)"
proof -
  have "length (r_elements c) = 9 * r_cap c" using assms(1) by (simp add: replica_def r_inv_def r_shaped_def)
  then show ?thesis using assms(2) by (simp add: lock_word_def rtail_def)
qed

subsection \<open>Applying a message\<close>

lemma insert_frame:
  assumes "r_inv c" "r_unlocked c" "nkey n \<noteq> EMPTY" "R_insert fuel c n = Done (r, d)"
  shows "r_inv d \<and> r_unlocked d \<and> r_cap d = r_cap c \<and> rtail d = rtail c \<and> insert_answer (rmap c) n r (rmap d)"
proof -
  have c: "rlocked c {} = c" using assms(2) by (simp add: r_unlocked_iff)
  from R_insert_ok [OF assms(1,3), of fuel, unfolded c] assms(4)
  obtain e where e: "d = rlocked e {}" "r_round c n (Some r) e" by auto
  then have "insert_answer (rmap c) n r (rmap d)" by (cases r) (auto simp: r_round_def insert_answer_def)
  with e show ?thesis by (auto simp: r_round_def r_cap_def)
qed

lemma handler_keeps:
  assumes "replica sz c" "\<forall>n\<in>set msg. nkey n \<noteq> EMPTY" "message_handler fuel c msg = Done d"
  shows "replica sz d \<and> r_cap d = r_cap c \<and> rtail d = rtail c"
  using assms
proof (induction msg arbitrary: c)
  case (Cons n msg)
  from Cons.prems(3) obtain r e where e: "R_insert fuel c n = Done (r, e)" "message_handler fuel e msg = Done d"
    by (auto split: outcome.splits)
  from insert_frame [OF _ _ _ e(1)] Cons.prems have "replica sz e \<and> r_cap e = r_cap c \<and> rtail e = rtail c"
    by (auto simp: replica_def)
  with Cons.IH [of e] e(2) Cons.prems(2) show ?case by auto
qed simp

end
