(* ===== verification/RRemoteSteps.thy ===== *)
theory RRemoteSteps
  imports RRemoteInv
begin

text \<open>
  The steps of interleaved clients and servers of the RDMA store keep the invariants: who holds which lock word,
  where each call stands, and in which order the messages about a bucket have arrived.
\<close>

subsection \<open>Holders of locks\<close>

definition holds_lock :: "int \<Rightarrow> rcall \<Rightarrow> nat \<Rightarrow> nat \<Rightarrow> bool" where
  "holds_lock sz call s i \<longleftrightarrow>
     (case call of
        Locking n todo owned \<Rightarrow> int s \<in> set owned \<and> lock_bucket sz (nkey n) = i
      | Sending n todo owned \<Rightarrow> int s \<in> set owned \<and> lock_bucket sz (nkey n) = i
      | Releasing k todo r \<Rightarrow> int s \<in> set todo \<and> lock_bucket sz k = i
      | Answered r \<Rightarrow> False)"

definition call_ok :: "nat \<Rightarrow> rcall \<Rightarrow> bool" where
  "call_ok m call \<longleftrightarrow>
     (case call of
        Locking n todo owned \<Rightarrow> positive_key (nkey n) \<and> distinct (todo @ owned) \<and> set (todo @ owned) = int ` {..<m}
      | Sending n todo owned \<Rightarrow> positive_key (nkey n) \<and> distinct todo \<and> set todo \<subseteq> set owned \<and>
          distinct owned \<and> set owned = int ` {..<m}
      | Releasing k todo r \<Rightarrow> positive_key k \<and> distinct todo \<and> set todo \<subseteq> int ` {..<m}
      | Answered r \<Rightarrow> True)"

definition exclusive :: "int \<Rightarrow> rcall list \<Rightarrow> bool" where
  "exclusive sz calls \<longleftrightarrow> (\<forall>j < length calls. \<forall>j' < length calls. \<forall>s i.
     holds_lock sz (calls ! j) s i \<longrightarrow> holds_lock sz (calls ! j') s i \<longrightarrow> j = j')"

definition word_held :: "int \<Rightarrow> rcall list \<Rightarrow> nat \<Rightarrow> nat \<Rightarrow> bool" where
  "word_held sz calls s i \<longleftrightarrow> (\<exists>j < length calls. holds_lock sz (calls ! j) s i)"

definition locks_match :: "int \<Rightarrow> rcuckoo list \<Rightarrow> rcall list \<Rightarrow> bool" where
  "locks_match sz tables calls \<longleftrightarrow> exclusive sz calls \<and>
     (\<forall>s < length tables. \<forall>i < nat sz. lock_word (tables ! s) i = (if word_held sz calls s i then 1 else 0))"

lemma word_held_update:
  assumes "j < length calls" "\<And>s i. holds_lock sz call s i \<longleftrightarrow> holds_lock sz (calls ! j) s i"
  shows "word_held sz (calls[j := call]) s i = word_held sz calls s i" "exclusive sz (calls[j := call]) = exclusive sz calls"
proof -
  have "holds_lock sz (calls[j := call] ! j') s i \<longleftrightarrow> holds_lock sz (calls ! j') s i" if "j' < length calls" for j' s i
    using assms that by (cases "j' = j") simp_all
  then show "word_held sz (calls[j := call]) s i = word_held sz calls s i" "exclusive sz (calls[j := call]) = exclusive sz calls"
    unfolding word_held_def exclusive_def length_list_update by (metis (no_types, lifting))+
qed

lemma locks_match_same:
  assumes "locks_match sz tables calls" "j < length calls" "\<And>s i. holds_lock sz call s i \<longleftrightarrow> holds_lock sz (calls ! j) s i"
  shows "locks_match sz tables (calls[j := call])"
  using assms(1) word_held_update [OF assms(2,3)] by (simp add: locks_match_def)

lemma holds_elsewhere:
  assumes "exclusive sz calls" "j < length calls" "j' < length calls" "holds_lock sz (calls ! j) s i" "j' \<noteq> j"
  shows "\<not> holds_lock sz (calls ! j') s i"
  using assms unfolding exclusive_def by blast

lemma locks_match_acquire:
  assumes lm: "locks_match sz tables calls" and j: "j < length calls"
    and t: "t < length tables" and b: "b < nat sz" and reps: "\<forall>c\<in>set tables. replica sz c"
    and free: "lock_word (tables ! t) b = 0"
    and h: "\<And>s i. holds_lock sz call s i \<longleftrightarrow> holds_lock sz (calls ! j) s i \<or> s = t \<and> i = b"
  shows "locks_match sz (tables[t := set_lock (tables ! t) b 1]) (calls[j := call])"
proof -
  have "\<not> word_held sz calls t b" using lm t b free by (auto simp: locks_match_def split: if_splits)
  then have nobody: "\<not> holds_lock sz (calls ! j') t b" if "j' < length calls" for j' using that by (auto simp: word_held_def)
  have "exclusive sz (calls[j := call])"
    unfolding exclusive_def
  proof (intro allI impI)
    fix j1 j2 s i
    assume l: "j1 < length (calls[j := call])" "j2 < length (calls[j := call])"
      and hs: "holds_lock sz (calls[j := call] ! j1) s i" "holds_lock sz (calls[j := call] ! j2) s i"
    have "holds_lock sz (calls ! j1) s i \<or> s = t \<and> i = b \<and> j1 = j" "holds_lock sz (calls ! j2) s i \<or> s = t \<and> i = b \<and> j2 = j"
      using hs l h by (cases "j1 = j"; cases "j2 = j"; simp)+
    with nobody l lm show "j1 = j2" unfolding locks_match_def exclusive_def by (metis length_list_update)
  qed
  moreover have "word_held sz (calls[j := call]) s i \<longleftrightarrow> word_held sz calls s i \<or> s = t \<and> i = b" for s i
    unfolding word_held_def length_list_update
    using h j by (metis nth_list_update_eq nth_list_update_neq)
  moreover have "replica sz (tables ! t)" using reps t by simp
  then have "lock_word (set_lock (tables ! t) b 1) i = (if i = b then 1 else lock_word (tables ! t) i)" if "i < nat sz" for i
    using lock_word_set_lock [of sz "tables ! t" b i 1] that b by (auto simp: replica_def)
  ultimately show ?thesis using lm t unfolding locks_match_def by (auto simp: nth_list_update)
qed

lemma locks_match_release:
  assumes lm: "locks_match sz tables calls" and j: "j < length calls"
    and t: "t < length tables" and b: "b < nat sz" and reps: "\<forall>c\<in>set tables. replica sz c"
    and own: "holds_lock sz (calls ! j) t b"
    and h: "\<And>s i. holds_lock sz call s i \<longleftrightarrow> holds_lock sz (calls ! j) s i \<and> \<not> (s = t \<and> i = b)"
  shows "locks_match sz (tables[t := set_lock (tables ! t) b 0]) (calls[j := call])"
proof -
  have ex: "exclusive sz calls" using lm by (simp add: locks_match_def)
  note others = holds_elsewhere [OF ex j _ own]
  have sub: "holds_lock sz (calls[j := call] ! j') s i \<longleftrightarrow> holds_lock sz (calls ! j') s i \<and> \<not> (s = t \<and> i = b)" if "j' < length calls" for j' s i
    using that h others [of j'] by (cases "j' = j") auto
  then have "exclusive sz (calls[j := call])" using ex unfolding exclusive_def length_list_update by (metis (no_types, lifting))
  moreover have "word_held sz (calls[j := call]) s i \<longleftrightarrow> word_held sz calls s i \<and> \<not> (s = t \<and> i = b)" for s i
    unfolding word_held_def length_list_update using sub by blast
  moreover have "replica sz (tables ! t)" using reps t by simp
  then have "lock_word (set_lock (tables ! t) b 0) i = (if i = b then 0 else lock_word (tables ! t) i)" if "i < nat sz" for i
    using lock_word_set_lock [of sz "tables ! t" b i 0] that b by (auto simp: replica_def)
  ultimately show ?thesis using lm t unfolding locks_match_def by (auto simp: nth_list_update)
qed

subsection \<open>Order of the messages\<close>

definition bucket_log :: "int \<Rightarrow> rmessage list \<Rightarrow> nat \<Rightarrow> rmessage list" where
  "bucket_log sz msgs i = filter (\<lambda>msg. lock_bucket sz (nkey (hd msg)) = i) msgs"

definition sending :: "int \<Rightarrow> rcall \<Rightarrow> nat \<Rightarrow> bool" where
  "sending sz call i \<longleftrightarrow> (case call of Sending n todo owned \<Rightarrow> lock_bucket sz (nkey n) = i | _ \<Rightarrow> False)"

definition same_but :: "int \<Rightarrow> rmessage list list \<Rightarrow> nat \<Rightarrow> int list \<Rightarrow> rmessage list \<Rightarrow> bool" where
  "same_but sz arrived i todo extra \<longleftrightarrow>
     (\<exists>L. \<forall>s < length arrived. bucket_log sz (arrived ! s) i = L @ (if int s \<in> set todo then [] else extra))"

definition ordered :: "int \<Rightarrow> rmessage list list \<Rightarrow> rcall list \<Rightarrow> bool" where
  "ordered sz arrived calls \<longleftrightarrow>
     (\<forall>j < length calls. \<forall>n todo owned. calls ! j = Sending n todo owned \<longrightarrow>
        same_but sz arrived (lock_bucket sz (nkey n)) todo [[n]]) \<and>
     (\<forall>i. (\<forall>j < length calls. \<not> sending sz (calls ! j) i) \<longrightarrow> same_but sz arrived i [] [])"

lemma sending_holds: "call_ok m call \<Longrightarrow> sending sz call i \<Longrightarrow> s < m \<Longrightarrow> holds_lock sz call s i"
  by (auto simp: call_ok_def sending_def holds_lock_def split: rcall.splits)

lemma ordered_other:
  assumes "ordered sz arrived calls" "j < length calls" "\<And>i. \<not> sending sz (calls ! j) i" "\<And>i. \<not> sending sz call i"
  shows "ordered sz arrived (calls[j := call])"
proof -
  have same: "(\<forall>j' < length (calls[j := call]). \<not> sending sz (calls[j := call] ! j') i) \<longleftrightarrow> (\<forall>j' < length calls. \<not> sending sz (calls ! j') i)" for i
    using assms(2-4) unfolding length_list_update by (metis nth_list_update_eq nth_list_update_neq)
  have "calls ! j' = Sending n todo owned" if "calls[j := call] ! j' = Sending n todo owned" "j' < length calls" for j' n todo owned
  proof -
    have "call \<noteq> Sending n todo owned" using assms(4) [of "lock_bucket sz (nkey n)"] by (auto simp: sending_def)
    with that show ?thesis by (cases "j' = j") auto
  qed
  with assms(1) show ?thesis unfolding ordered_def same by (auto simp only: length_list_update)
qed

lemma ordered_start:
  assumes o: "ordered sz arrived calls" and j: "j < length calls" and m: "0 < length arrived"
    and old: "\<And>i. \<not> sending sz (calls ! j) i"
    and ok: "\<forall>call\<in>set (calls[j := Sending n owned owned]). call_ok (length arrived) call"
    and ex: "exclusive sz (calls[j := Sending n owned owned])"
  shows "ordered sz arrived (calls[j := Sending n owned owned])"
proof -
  let ?calls = "calls[j := Sending n owned owned]" and ?b = "lock_bucket sz (nkey n)"
  have own: "set owned = int ` {..<length arrived}" and new: "sending sz (?calls ! j) ?b"
    using ok j set_update_memI [OF j, of "Sending n owned owned"] by (force simp: call_ok_def, simp add: sending_def)
  have okn: "call_ok (length arrived) (?calls ! j')" if "j' < length calls" for j' using ok that by simp
  have others: "\<not> sending sz (calls ! j') ?b" if "j' < length calls" for j'
  proof (cases "j' = j")
    case False
    then show ?thesis
      using holds_elsewhere [OF ex, of j j' 0 ?b] sending_holds [OF okn [OF j] new m] sending_holds [OF okn [OF that] _ m, of sz ?b] that j
      by auto
  qed (simp add: old)
  then have "same_but sz arrived ?b [] []" using o by (simp add: ordered_def)
  then have first: "same_but sz arrived ?b owned [[n]]" unfolding same_but_def using own by (auto simp: image_def)
  have "same_but sz arrived (lock_bucket sz (nkey n')) todo [[n']]"
    if "j' < length calls" "?calls ! j' = Sending n' todo owned'" for j' n' todo owned'
  proof (cases "j' = j")
    case True
    with that first j show ?thesis by simp
  next
    case False
    with that o show ?thesis by (simp add: ordered_def)
  qed
  moreover have "same_but sz arrived i [] []" if none: "\<forall>j' < length calls. \<not> sending sz (?calls ! j') i" for i
  proof -
    have "\<not> sending sz (calls ! j') i" if "j' < length calls" for j'
      using none [rule_format, OF that] old by (cases "j' = j") auto
    with o show ?thesis by (simp add: ordered_def)
  qed
  ultimately show ?thesis by (simp add: ordered_def)
qed

lemma bucket_log_append:
  "bucket_log sz (msgs @ [[n]]) i = bucket_log sz msgs i @ (if lock_bucket sz (nkey n) = i then [[n]] else [])"
  by (simp add: bucket_log_def)

lemma same_but_other:
  assumes "same_but sz arrived i todo extra" "t < length arrived" "lock_bucket sz (nkey n) \<noteq> i"
  shows "same_but sz (arrived[t := arrived ! t @ [[n]]]) i todo extra"
proof -
  have "bucket_log sz (arrived[t := arrived ! t @ [[n]]] ! s) i = bucket_log sz (arrived ! s) i" if "s < length arrived" for s
    using assms(2,3) that by (cases "s = t") (simp_all add: bucket_log_append)
  with assms(1) show ?thesis by (simp add: same_but_def)
qed

lemma same_but_send:
  assumes "same_but sz arrived (lock_bucket sz (nkey n)) (int t # todo) [[n]]" "t < length arrived" "int t \<notin> set todo"
  shows "same_but sz (arrived[t := arrived ! t @ [[n]]]) (lock_bucket sz (nkey n)) todo [[n]]"
proof -
  obtain L where L: "\<forall>s < length arrived. bucket_log sz (arrived ! s) (lock_bucket sz (nkey n)) =
      L @ (if int s \<in> set (int t # todo) then [] else [[n]])" using assms(1) by (auto simp: same_but_def)
  have "bucket_log sz (arrived[t := arrived ! t @ [[n]]] ! s) (lock_bucket sz (nkey n)) = L @ (if int s \<in> set todo then [] else [[n]])"
    if "s < length arrived" for s
  proof (cases "s = t")
    case True
    with L assms(2,3) show ?thesis by (simp add: bucket_log_append)
  next
    case False
    with L that show ?thesis by simp
  qed
  then show ?thesis by (auto simp: same_but_def)
qed

lemma ordered_send:
  assumes o: "ordered sz arrived calls" and j: "j < length calls" and t: "t < length arrived"
    and ok: "\<forall>call\<in>set calls. call_ok (length arrived) call" and ex: "exclusive sz calls"
    and old: "calls ! j = Sending n (int t # todo) owned"
    and new: "call = after_sending n todo owned"
  shows "ordered sz (arrived[t := arrived ! t @ [[n]]]) (calls[j := call])"
proof -
  let ?b = "lock_bucket sz (nkey n)" and ?arrived = "arrived[t := arrived ! t @ [[n]]]" and ?calls = "calls[j := call]"
  have dist: "int t \<notin> set todo" using ok j old nth_mem [OF j] by (force simp: call_ok_def)
  have okn: "call_ok (length arrived) (calls ! j')" if "j' < length calls" for j' using ok that by simp
  have "sending sz (calls ! j) ?b" by (simp add: old sending_def)
  note mine = sending_holds [OF okn [OF j] this t]
  have others: "\<not> sending sz (calls ! j') ?b" if "j' < length calls" "j' \<noteq> j" for j'
    using holds_elsewhere [OF ex j that(1) mine that(2)] sending_holds [OF okn [OF that(1)] _ t] by blast
  have sent: "same_but sz ?arrived ?b todo [[n]]" using o j old same_but_send [OF _ t dist] by (simp add: ordered_def)
  have call: "(call = Sending n todo owned \<and> todo \<noteq> []) \<or> (\<not> sending sz call i \<and> todo = [] \<and> (\<forall>n' todo' owned'. call \<noteq> Sending n' todo' owned'))" for i
    using new by (auto simp: after_sending_def sending_def)
  have "same_but sz ?arrived (lock_bucket sz (nkey n')) todo' [[n']]"
    if "j' < length calls" "?calls ! j' = Sending n' todo' owned'" for j' n' todo' owned'
  proof (cases "j' = j")
    case True
    with that call j sent show ?thesis by auto
  next
    case False
    with that have c: "calls ! j' = Sending n' todo' owned'" by simp
    with others [OF that(1) False] have "?b \<noteq> lock_bucket sz (nkey n')" by (auto simp: sending_def)
    with c o that(1) show ?thesis by (intro same_but_other [OF _ t]) (simp_all add: ordered_def)
  qed
  moreover have "same_but sz ?arrived i [] []" if none: "\<forall>j' < length calls. \<not> sending sz (?calls ! j') i" for i
  proof (cases "i = ?b")
    case True
    with none [rule_format, OF j] call [of i] j sent show ?thesis by (auto simp: sending_def same_but_def)
  next
    case False
    have "\<not> sending sz (calls ! j') i" if "j' < length calls" for j'
      using none [rule_format, OF that] old False by (cases "j' = j") (auto simp: sending_def)
    with o False show ?thesis by (intro same_but_other [OF _ t]) (auto simp: ordered_def)
  qed
  ultimately show ?thesis by (simp add: ordered_def)
qed

subsection \<open>The invariant of the whole system\<close>

definition clean_msgs :: "rmessage list \<Rightarrow> bool" where
  "clean_msgs msgs \<longleftrightarrow> (\<forall>msg\<in>set msgs. \<forall>n\<in>set msg. positive_key (nkey n))"

lemma ball_update:
  assumes "\<forall>x\<in>set xs. P x" "P y"
  shows "\<forall>x\<in>set (xs[i := y]). P x"
  using assms set_update_subset_insert [of xs i y] by blast

definition rw_inv :: "int \<Rightarrow> rworld \<Rightarrow> bool" where
  "rw_inv sz w \<longleftrightarrow>
     length (rw_arrived w) = length (rw_tables w) \<and> length (rw_pending w) = length (rw_tables w) \<and>
     (\<forall>c\<in>set (rw_tables w). replica sz c) \<and>
     (\<forall>msgs\<in>set (rw_pending w). clean_msgs msgs) \<and>
     (\<forall>call\<in>set (rw_calls w). call_ok (length (rw_tables w)) call) \<and>
     locks_match sz (rw_tables w) (rw_calls w) \<and>
     ordered sz (rw_arrived w) (rw_calls w)"

fun event_ok :: "revent \<Rightarrow> bool" where
  "event_ok (Call j n z) = positive_key (nkey n)"
| "event_ok (Client j) = True"
| "event_ok (Worker s m) = True"

lemma targets_from_ok:
  assumes "0 < m" "0 \<le> z" "z < int m"
  shows "distinct (targets_from z m)" "set (targets_from z m) = int ` {..<m}"
proof -
  have inj: "inj_on (\<lambda>i. (z + int i) mod int m) {0..<m}"
  proof (rule inj_onI)
    fix a b assume ab: "a \<in> {0..<m}" "b \<in> {0..<m}" "(z + int a) mod int m = (z + int b) mod int m"
    from mod_diff_cong [OF this(3), of z z] have "int a mod int m = int b mod int m" by simp
    with ab(1,2) show "a = b" by (simp flip: of_nat_mod)
  qed
  then show "distinct (targets_from z m)" by (simp add: targets_from_def distinct_map)
  have "set (targets_from z m) \<subseteq> int ` {..<m}"
  proof
    fix x assume "x \<in> set (targets_from z m)"
    then have "0 \<le> x" "x < int m" using assms by (auto simp: targets_from_def)
    then show "x \<in> int ` {..<m}" by (intro image_eqI [of _ _ "nat x"]) auto
  qed
  moreover have "card (set (targets_from z m)) = m" using card_image [OF inj] by (simp add: targets_from_def)
  ultimately show "set (targets_from z m) = int ` {..<m}" by (intro card_subset_eq) (simp_all add: card_image)
qed

lemma holds_call:
  "holds_lock sz (Locking n todo owned) s i \<longleftrightarrow> int s \<in> set owned \<and> lock_bucket sz (nkey n) = i"
  "holds_lock sz (Sending n todo owned) s i \<longleftrightarrow> int s \<in> set owned \<and> lock_bucket sz (nkey n) = i"
  "holds_lock sz (Releasing k todo r) s i \<longleftrightarrow> int s \<in> set todo \<and> lock_bucket sz k = i"
  by (simp_all add: holds_lock_def)

lemma holds_after_locking:
  "holds_lock sz (after_locking n todo owned) s i \<longleftrightarrow> int s \<in> set owned \<and> lock_bucket sz (nkey n) = i"
  by (auto simp: after_locking_def holds_lock_def)

lemma holds_after_releasing:
  "holds_lock sz (after_releasing k todo r) s i \<longleftrightarrow> int s \<in> set todo \<and> lock_bucket sz k = i"
  by (auto simp: after_releasing_def holds_lock_def)

lemma holds_after_sending:
  "holds_lock sz (after_sending n todo owned) s i \<longleftrightarrow> int s \<in> set owned \<and> lock_bucket sz (nkey n) = i"
  by (auto simp: after_sending_def holds_lock_def)

lemma not_sending [simp]:
  "\<not> sending sz (Locking n todo owned) i" "\<not> sending sz (Answered r) i"
  "\<not> sending sz (Releasing k todo r) i" "\<not> sending sz (after_releasing k todo r) i"
  by (simp_all add: sending_def after_releasing_def)

lemma in_upto: "int t \<in> int ` {..<m} \<longleftrightarrow> t < m"
  by auto

lemma send_message_eq:
  "t < length boxes \<Longrightarrow> send_message boxes (int t) msg = Some (boxes[t := boxes ! t @ [msg]])"
  by (simp add: send_message_def at_def upd_def)

lemma call_step_inv:
  assumes sz: "fits_sz sz" and inv: "rw_inv sz w" and j: "j < length (rw_calls w)" and step: "call_step sz w j = Some w'"
  shows "rw_inv sz w' \<and> length (rw_tables w') = length (rw_tables w) \<and> map rmap (rw_tables w') = map rmap (rw_tables w)"
proof -
  let ?m = "length (rw_tables w)" and ?calls = "rw_calls w" and ?cs = "rw_tables w"
  note I = inv [unfolded rw_inv_def]
  have lens: "length (rw_arrived w) = ?m" "length (rw_pending w) = ?m" and reps: "\<forall>c\<in>set ?cs. replica sz c"
    and ok: "\<forall>call\<in>set ?calls. call_ok ?m call" and lm: "locks_match sz ?cs ?calls"
    and ord: "ordered sz (rw_arrived w) ?calls" using I by simp_all
  have okj: "call_ok ?m (?calls ! j)" using ok j by simp
  have bless: "lock_bucket sz k < nat sz" for k using lock_bucket_less [OF sz, of k] by simp
  have keep: "rw_inv sz (w\<lparr>rw_tables := ?cs[t := set_lock (?cs ! t) b v], rw_calls := ?calls[j := call]\<rparr>)
      \<and> map rmap (?cs[t := set_lock (?cs ! t) b v]) = map rmap ?cs"
    if "t < ?m" "call_ok ?m call" "locks_match sz (?cs[t := set_lock (?cs ! t) b v]) (?calls[j := call])"
      "ordered sz (rw_arrived w) (?calls[j := call])" for t b v call
  proof -
    have r: "replica sz (set_lock (?cs ! t) b v)" "rmap (set_lock (?cs ! t) b v) = rmap (?cs ! t)"
      using set_lock_keeps [of sz "?cs ! t" b v] reps that(1) by simp_all
    then have "\<forall>c\<in>set (?cs[t := set_lock (?cs ! t) b v]). replica sz c"
      using reps set_update_subset_insert [of ?cs t "set_lock (?cs ! t) b v"] by blast
    moreover have "map rmap (?cs[t := set_lock (?cs ! t) b v]) = map rmap ?cs"
      using r(2) that(1) by (simp add: map_update list_update_same_conv)
    ultimately show ?thesis using I that ball_update [OF ok that(2), of j] by (simp add: rw_inv_def)
  qed
  show ?thesis
  proof (cases "?calls ! j")
    case (Locking n todo0 owned)
    with step obtain t0 todo where todo0: "todo0 = t0 # todo" by (cases todo0) (simp_all add: call_step_def)
    note L = Locking [unfolded todo0]
    have p: "positive_key (nkey n)" "distinct (t0 # todo @ owned)" "set (t0 # todo @ owned) = int ` {..<?m}"
      using okj L by (simp_all add: call_ok_def)
    then obtain t where t: "t0 = int t" "t < ?m" by auto
    let ?b = "lock_bucket sz (nkey n)"
    have k: "0 \<le> sint (nkey n)" using p(1) by (simp add: positive_key_def)
    from lock_cas_write [OF sz k t(2), of 0 1] reps t(2)
    obtain mems where cas: "lock_cas sz (rw_mems w) (nkey n) (int t) 0 1 = Some (lock_word (?cs ! t) ?b, mems)"
      and wr: "rw_write w mems = w\<lparr>rw_tables := (if lock_word (?cs ! t) ?b = 0 then ?cs[t := set_lock (?cs ! t) ?b 1] else ?cs)\<rparr>" by auto
    show ?thesis
    proof (cases "lock_word (?cs ! t) ?b = 0")
      case True
      let ?call = "after_locking n todo (owned @ [t0])"
      have w': "w' = w\<lparr>rw_tables := ?cs[t := set_lock (?cs ! t) ?b 1], rw_calls := ?calls[j := ?call]\<rparr>"
        using step L cas wr True t(1) by (simp add: call_step_def)
      have h: "holds_lock sz ?call s i \<longleftrightarrow> holds_lock sz (?calls ! j) s i \<or> s = t \<and> i = ?b" for s i
        using L t(1) by (auto simp: holds_after_locking holds_call)
      note acq = locks_match_acquire [OF lm j t(2) bless reps True h]
      have cok: "call_ok ?m ?call"
        using p by (cases todo) (auto simp: call_ok_def after_locking_def)
      have "ordered sz (rw_arrived w) (?calls[j := ?call])"
      proof (cases "todo = []")
        case False
        then show ?thesis using L by (intro ordered_other [OF ord j]) (simp_all add: after_locking_def)
      next
        case True
        then have call: "?call = Sending n (owned @ [t0]) (owned @ [t0])" by (simp add: after_locking_def)
        have ex: "exclusive sz (?calls[j := ?call])" using acq by (simp add: locks_match_def)
        show ?thesis using ball_update [OF ok cok, of j] ex L lens t(2) unfolding call
          by (intro ordered_start [OF ord j]) auto
      qed
      with keep [OF t(2) cok acq] w' show ?thesis by simp
    next
      case False
      then have one: "lock_word (?cs ! t) ?b = 1" using lm t(2) bless by (auto simp: locks_match_def split: if_splits)
      let ?call = "after_releasing (nkey n) owned R_ABORT_FAILURE"
      have w': "w' = w\<lparr>rw_calls := ?calls[j := ?call]\<rparr>" using step L cas wr one t(1) by (simp add: call_step_def)
      have "locks_match sz ?cs (?calls[j := ?call])"
        using L by (intro locks_match_same [OF lm j]) (simp add: holds_after_releasing holds_call)
      moreover have "ordered sz (rw_arrived w) (?calls[j := ?call])" using L by (intro ordered_other [OF ord j]) simp_all
      moreover have "call_ok ?m ?call" using p by (auto simp: call_ok_def after_releasing_def)
      ultimately show ?thesis using I w' ball_update [OF ok, of ?call j] by (simp add: rw_inv_def)
    qed
  next
    case (Sending n todo0 owned)
    with step obtain t0 todo where todo0: "todo0 = t0 # todo" by (cases todo0) (simp_all add: call_step_def)
    note L = Sending [unfolded todo0]
    have p: "positive_key (nkey n)" "distinct (t0 # todo)" "set (t0 # todo) \<subseteq> set owned" "distinct owned" "set owned = int ` {..<?m}"
      using okj unfolding L call_ok_def by auto
    then obtain t where t: "t0 = int t" "t < ?m" by auto
    let ?call = "after_sending n todo owned"
    have w': "w' = w\<lparr>rw_arrived := (rw_arrived w)[t := rw_arrived w ! t @ [[n]]],
        rw_pending := (rw_pending w)[t := rw_pending w ! t @ [[n]]], rw_calls := ?calls[j := ?call]\<rparr>"
      using step L t lens by (simp add: call_step_def send_message_eq)
    have "locks_match sz ?cs (?calls[j := ?call])"
      using L by (intro locks_match_same [OF lm j]) (simp add: holds_after_sending holds_call)
    moreover have "ordered sz ((rw_arrived w)[t := rw_arrived w ! t @ [[n]]]) (?calls[j := ?call])"
      using L t lens ok lm by (intro ordered_send [OF ord j, where todo = todo and owned = owned]) (simp_all add: locks_match_def)
    moreover have "call_ok ?m ?call" using p by (auto simp: call_ok_def after_sending_def)
    moreover have "clean_msgs (rw_pending w ! t)" using I t lens by simp
    then have "clean_msgs (rw_pending w ! t @ [[n]])" using p(1) by (simp add: clean_msgs_def)
    from ball_update [where P = clean_msgs, OF _ this] have "\<forall>msgs\<in>set ((rw_pending w)[t := rw_pending w ! t @ [[n]]]). clean_msgs msgs" using I by blast
    ultimately show ?thesis using I w' ball_update [OF ok, of ?call j] by (simp add: rw_inv_def)
  next
    case (Releasing k todo0 r)
    with step obtain t0 todo where todo0: "todo0 = t0 # todo" by (cases todo0) (simp_all add: call_step_def)
    note L = Releasing [unfolded todo0]
    have p: "positive_key k" "distinct (t0 # todo)" "set (t0 # todo) \<subseteq> int ` {..<?m}" using okj L by (simp_all add: call_ok_def)
    then obtain t where t: "t0 = int t" "t < ?m" by auto
    let ?b = "lock_bucket sz k" and ?call = "after_releasing k todo r"
    have kp: "0 \<le> sint k" using p(1) by (simp add: positive_key_def)
    have own: "holds_lock sz (?calls ! j) t ?b" using L t by (simp add: holds_call)
    then have one: "lock_word (?cs ! t) ?b = 1" using lm t(2) bless [of k] j by (auto simp: locks_match_def word_held_def)
    from lock_cas_write [OF sz kp t(2), of 1 0] reps t(2)
    obtain mems where cas: "lock_cas sz (rw_mems w) k (int t) 1 0 = Some (1, mems)"
      and wr: "rw_write w mems = w\<lparr>rw_tables := ?cs[t := set_lock (?cs ! t) ?b 0]\<rparr>" using one by auto
    have w': "w' = w\<lparr>rw_tables := ?cs[t := set_lock (?cs ! t) ?b 0], rw_calls := ?calls[j := ?call]\<rparr>"
      using step L cas wr t(1) by (simp add: call_step_def)
    have "holds_lock sz ?call s i \<longleftrightarrow> holds_lock sz (?calls ! j) s i \<and> \<not> (s = t \<and> i = ?b)" for s i
      using L t(1) p(2) by (auto simp: holds_after_releasing holds_call)
    note rel = locks_match_release [OF lm j t(2) bless reps own this]
    have "call_ok ?m ?call" using p by (auto simp: call_ok_def after_releasing_def)
    moreover have "ordered sz (rw_arrived w) (?calls[j := ?call])" using L by (intro ordered_other [OF ord j]) simp_all
    ultimately show ?thesis using keep [OF t(2) _ rel] w' by simp
  next
    case (Answered r)
    with step show ?thesis by (simp add: call_step_def)
  qed
qed

lemma worker_step_inv:
  assumes inv: "rw_inv sz w" and step: "worker_step fuel w s m = Some w'"
  shows "rw_inv sz w' \<and> length (rw_tables w') = length (rw_tables w)"
proof -
  let ?cs = "rw_tables w"
  note I = inv [unfolded rw_inv_def]
  from step obtain c where s: "s < length ?cs" "s < length (rw_pending w)" "m < length (rw_pending w ! s)"
    and h: "message_handler fuel (?cs ! s) (rw_pending w ! s ! m) = Done c"
    and w': "w' = w\<lparr>rw_tables := ?cs[s := c],
       rw_pending := (rw_pending w)[s := take m (rw_pending w ! s) @ drop (Suc m) (rw_pending w ! s)]\<rparr>"
    by (auto simp: worker_step_def split: if_splits outcome.splits)
  have cl: "clean_msgs (rw_pending w ! s)" using I s by simp
  then have "clean_msgs (take m (rw_pending w ! s) @ drop (Suc m) (rw_pending w ! s))"
    unfolding clean_msgs_def by (auto dest: in_set_takeD in_set_dropD)
  note pend = ball_update [where P = clean_msgs and i = s, OF _ this, of "rw_pending w"]
  have "\<forall>n\<in>set (rw_pending w ! s ! m). nkey n \<noteq> EMPTY" using cl s(3) positive_key_EMPTY unfolding clean_msgs_def by (meson nth_mem)
  moreover have rep: "replica sz (?cs ! s)" using I s(1) by simp
  ultimately have c: "replica sz c" "r_cap c = r_cap (?cs ! s)" "rtail c = rtail (?cs ! s)" using handler_keeps [OF _ _ h] by simp_all
  have "lock_word c i = lock_word (?cs ! s) i" if "i < nat sz" for i
    using lock_word_tail [OF c(1), of i] lock_word_tail [OF rep, of i] c rep that by (auto simp: replica_def)
  then have "locks_match sz (?cs[s := c]) (rw_calls w)"
    using I s(1) by (auto simp: locks_match_def nth_list_update)
  with I w' pend ball_update [of ?cs "replica sz" c s] c(1) show ?thesis by (simp add: rw_inv_def)
qed

lemma call_event_inv:
  assumes inv: "rw_inv sz w" and ev: "positive_key (nkey n)" and step: "rw_step sz fuel (Call j n z) w = Some w'"
  shows "rw_inv sz w' \<and> length (rw_tables w') = length (rw_tables w)"
proof -
  let ?m = "length (rw_tables w)"
  note I = inv [unfolded rw_inv_def]
  from step have j: "j < length (rw_calls w)" and m: "0 < ?m" and z: "0 \<le> z"
    by (auto split: if_splits)
  with step obtain r where old: "rw_calls w ! j = Answered r"
    and w': "w' = w\<lparr>rw_calls := (rw_calls w)[j := after_locking n (targets_from (z mod int ?m) ?m) []]\<rparr>"
    by (auto split: rcall.splits simp: Let_def)
  let ?T = "targets_from (z mod int ?m) ?m"
  have T: "distinct ?T" "set ?T = int ` {..<?m}" using m by (simp_all add: targets_from_ok)
  have "length ?T = ?m" by (simp add: targets_from_def)
  with m have "?T \<noteq> []" by (metis length_greater_0_conv)
  then have call: "after_locking n ?T [] = Locking n ?T []" by (simp add: after_locking_def)
  have "call_ok ?m (Locking n ?T [])" using T ev by (simp add: call_ok_def)
  with I have "\<forall>call\<in>set ((rw_calls w)[j := Locking n ?T []]). call_ok ?m call" by (intro ball_update) auto
  moreover have "locks_match sz (rw_tables w) ((rw_calls w)[j := Locking n ?T []])"
    using I j old by (intro locks_match_same) (simp_all add: holds_lock_def)
  moreover have "ordered sz (rw_arrived w) ((rw_calls w)[j := Locking n ?T []])"
    using I j old by (intro ordered_other) simp_all
  ultimately show ?thesis using I unfolding w' call by (simp add: rw_inv_def)
qed

lemma rw_run_inv:
  assumes "fits_sz sz" "rw_inv sz w" "list_all event_ok es" "rw_run sz fuel es w = Some w'"
  shows "rw_inv sz w' \<and> length (rw_tables w') = length (rw_tables w)"
  using assms(2-4)
proof (induction es arbitrary: w)
  case (Cons e es)
  from Cons.prems(3) obtain v where v: "rw_step sz fuel e w = Some v" "rw_run sz fuel es v = Some w'" by auto
  have "rw_inv sz v \<and> length (rw_tables v) = length (rw_tables w)"
  proof (cases e)
    case (Call j n z)
    have "positive_key (nkey n)" using Cons.prems(2) Call by simp
    from call_event_inv [OF Cons.prems(1) this v(1) [unfolded Call]] show ?thesis .
  next
    case (Client j)
    with call_step_inv [OF assms(1) Cons.prems(1)] v(1) show ?thesis by (auto split: if_splits)
  next
    case (Worker s m)
    with worker_step_inv [OF Cons.prems(1)] v(1) show ?thesis by simp
  qed
  with Cons.IH [of v] v(2) Cons.prems(2) show ?case by simp
qed simp

lemma rw_step_calls: "rw_step sz fuel e w = Some v \<Longrightarrow> length (rw_calls v) = length (rw_calls w)"
  by (cases e) (auto simp: Let_def call_step_def worker_step_def rw_write_def
      split: if_splits rcall.splits list.splits outcome.splits)

lemma rw_run_calls: "rw_run sz fuel es w = Some v \<Longrightarrow> length (rw_calls v) = length (rw_calls w)"
  by (induction es arbitrary: w) (auto dest: rw_step_calls)

lemma rw_new_inv:
  assumes "fits_sz (int (unat n))"
  shows "rw_inv (int (unat n)) (rw_new m n clients)"
proof -
  have n: "0 < unat n" "9 * int (unat n) \<le> int_max" using assms by (auto simp: fits_sz_def simp del: of_nat_unat uint_nat [symmetric])
  note new = R_new_ok [OF n, of 99]
  have cap: "r_cap (R_new n 99) = unat n" by (simp add: r_cap_def R_new_def)
  have rep: "replica (int (unat n)) (R_new n 99)" using new cap by (simp add: replica_def)
  have b: "9 * unat n \<le> 2147483647" using n(2) unfolding int_max_def by linarith
  then have "unat (n * 8) = unat n * 8" by (simp add: unat_word_ariths)
  then have "unat (n * 8 + n) = unat n * 9" using b by (simp add: unat_word_ariths)
  then have "r_elements (R_new n 99) = replicate (9 * unat n) (Node_new EMPTY 0)"
    by (simp add: R_new_def R_Table_new_def EW)
  then have "lock_word (R_new n 99) i = 0" if "i < unat n" for i
    using that cap by (simp add: lock_word_def node_word_def Node_new_def EMPTY_def)
  then have "locks_match (int (unat n)) (replicate m (R_new n 99)) (replicate clients (Answered R_TRUE))"
    by (auto simp: locks_match_def exclusive_def word_held_def holds_lock_def)
  moreover have "ordered (int (unat n)) (replicate m []) (replicate clients (Answered R_TRUE))"
    by (auto simp: ordered_def same_but_def bucket_log_def)
  ultimately show ?thesis using rep by (auto simp: rw_inv_def rw_new_def clean_msgs_def call_ok_def)
qed

end
