(* ===== verification/RRemoteCalls.thy ===== *)
theory RRemoteCalls
  imports RRemoteInv
begin

text \<open>
  Calls of one client of the RDMA store with nobody else at work: the buckets that \<open>get\<close> reads, the locks that
  an insertion takes on every server and gives back, and the messages it leaves.
\<close>

subsection \<open>Reading buckets\<close>

definition in_rbucket :: "rcuckoo \<Rightarrow> int \<Rightarrow> u32 \<Rightarrow> bool" where
  "in_rbucket c i k \<longleftrightarrow> (\<exists>s. in_range s ENTRY_WIDTH \<and> nkey (rcell c i s) = k)"

definition client_home :: "int \<Rightarrow> u32 \<Rightarrow> int" where
  "client_home sz k = uint (U_secondary_hash k mod word_of_int sz)"

lemma findElement_eq:
  "n \<le> length es \<Longrightarrow> findElement es k n = Some (if \<exists>i < n. nkey (es ! i) = k then R_TRUE else R_FALSE)"
proof (induction es k n rule: findElement.induct)
  case (3 e es k n)
  have "(\<exists>i < Suc n. nkey ((e # es) ! i) = k) \<longleftrightarrow> nkey e = k \<or> (\<exists>i < n. nkey (es ! i) = k)"
    by (auto simp: less_Suc_eq_0_disj)
  with 3 show ?case by auto
qed simp_all

lemma bucket_find:
  assumes "fits_sz sz" "replica sz c" "0 \<le> i" "i < sz"
  shows "\<exists>bucket. bucket_read (r_elements c) i = Some bucket \<and>
    findElement bucket k ENTRY_WIDTH = Some (if in_rbucket c i k then R_TRUE else R_FALSE)"
proof -
  have len: "length (r_elements c) = 9 * r_cap c" and cap: "int (r_cap c) = sz"
    using assms(2) by (simp_all add: replica_def r_inv_def r_shaped_def)
  have i: "i * 8 \<le> int_max" "i * 8 * 8 \<le> int_max" using assms by (auto simp: fits_sz_def)
  let ?b = "take 8 (drop (nat (i * 8)) (r_elements c))"
  have b: "bucket_read (r_elements c) i = Some ?b"
    using i assms(3,4) len cap by (simp add: bucket_read_def EW exec_simps rdma_read_def) (simp add: mult.commute)
  have room: "nat (i * 8) + 8 \<le> length (r_elements c)" using assms(3,4) len cap by linarith
  have nth: "?b ! s = rcell c i (int s)" if "s < 8" for s
  proof -
    have "nat (i * 8) + s = nat (i * 8 + int s)" using assms(3) by linarith
    then show ?thesis using that room by (simp add: rcell_def)
  qed
  have "(\<exists>s < 8. nkey (?b ! s) = k) \<longleftrightarrow> in_rbucket c i k"
  proof
    assume "\<exists>s < 8. nkey (?b ! s) = k"
    then show "in_rbucket c i k" unfolding in_rbucket_def by (metis EW(2) nth of_nat_0_le_iff of_nat_less_iff of_nat_numeral)
  next
    assume "in_rbucket c i k"
    then obtain s where s: "0 \<le> s" "s < 8" "nkey (rcell c i s) = k" by (auto simp: in_rbucket_def EW)
    then have "nat s < 8" "int (nat s) = s" by simp_all
    with nth [of "nat s"] s(3) show "\<exists>s < 8. nkey (?b ! s) = k" by (intro exI [of _ "nat s"]) simp
  qed
  moreover have "8 \<le> length ?b" using room by simp
  ultimately show ?thesis using b findElement_eq [of 8 ?b k] by (simp add: EW)
qed

lemma secondary_index:
  assumes "fits_sz sz"
  shows "RDMA_index sz k 2 = Some (client_home sz k)" "0 \<le> client_home sz k" "client_home sz k < sz"
proof -
  have sz: "0 < sz" "sz < 2147483648" using assms by (simp_all add: fits_sz_def int_max_def)
  then have w: "uint (word_of_int sz :: u32) = sz" by (simp add: uint_word_of_int)
  then have less: "uint (U_secondary_hash k mod word_of_int sz) < sz"
    using sz by (simp add: uint_mod)
  then have "sint (U_secondary_hash k mod word_of_int sz) = client_home sz k"
    unfolding client_home_def by (intro sint_small) (use sz in simp)
  then show "RDMA_index sz k 2 = Some (client_home sz k)" using sz by (simp add: RDMA_index_def RDMA_hash_def)
  show "client_home sz k < sz" using less by (simp add: client_home_def)
  show "0 \<le> client_home sz k" by (simp add: client_home_def)
qed

lemma sint_nonneg:
  assumes "0 \<le> sint (k :: u32)"
  shows "sint k = uint k"
proof (rule sint_small, rule ccontr)
  assume big: "\<not> uint k < 2 ^ 31"
  have lt: "uint k < 4294967296" using uint_lt2p [of k] by simp
  have "(word_of_int (uint k - 4294967296) :: u32) = k" by (simp flip: wi_hom_sub)
  then have "sint k = sint (word_of_int (uint k - 4294967296) :: u32)" by (simp only:)
  also have "\<dots> = signed_take_bit 31 (uint k - 4294967296)" unfolding sint_sbintrunc' by simp
  also have "\<dots> = uint k - 4294967296" by (rule signed_take_bit_int_eq_self) (use big lt in simp_all)
  finally show False using assms lt by simp
qed

lemma primary_home:
  assumes "replica sz c" "0 \<le> sint k"
  shows "rhome c 1 k = sint k mod sz"
proof -
  have "uint k = sint k" using sint_nonneg [OF assms(2)] by (rule sym)
  moreover have "uint (r_buckets c) = sz" using assms(1) by (simp add: replica_def r_cap_def)
  ultimately show ?thesis by (simp add: rhome_def uint_mod)
qed

lemma rhome_two:
  assumes "replica sz c"
  shows "rhome c 2 k = uint (R_secondary_hash k mod word_of_int sz)"
proof -
  have "uint (r_buckets c) = sz" using assms by (simp add: replica_def r_cap_def)
  then have "word_of_int sz = r_buckets c" by (metis word_of_int_uint)
  then show ?thesis by (simp add: rhome_def)
qed

lemma get_eq:
  assumes sz: "fits_sz sz" and reps: "\<forall>c\<in>set cs. replica sz c" and ne: "cs \<noteq> []" and k: "0 \<le> sint k"
  shows "\<exists>t < length cs. RDMA_get sz (map r_elements cs) g k =
    Some (if in_rbucket (cs ! t) (rhome (cs ! t) 1 k) k \<or> in_rbucket (cs ! t) (client_home sz k) k then R_TRUE else R_FALSE,
      snd (fastrand g))"
proof -
  let ?t = "nat (fst (fastrand g) mod int (length cs))"
  have t: "?t < length cs" "int ?t = fst (fastrand g) mod int (length cs)" using ne by (simp_all add: nat_less_iff)
  then have pick: "pick_server (length (map r_elements cs)) g = Some (int ?t, snd (fastrand g))"
    using ne by (simp add: pick_server_def split_def)
  have rep: "replica sz (cs ! ?t)" using reps t(1) by simp
  have at: "at (map r_elements cs) (int ?t) = Some (r_elements (cs ! ?t))" using t(1) by (simp add: at_def del: int_nat_eq)
  have home: "rhome (cs ! ?t) 1 k = sint k mod sz" "0 \<le> sint k mod sz" "sint k mod sz < sz"
    using primary_home [OF rep k] sz by (simp_all add: fits_sz_def)
  obtain b1 b2 where b: "bucket_read (r_elements (cs ! ?t)) (sint k mod sz) = Some b1"
    "findElement b1 k ENTRY_WIDTH = Some (if in_rbucket (cs ! ?t) (sint k mod sz) k then R_TRUE else R_FALSE)"
    "bucket_read (r_elements (cs ! ?t)) (client_home sz k) = Some b2"
    "findElement b2 k ENTRY_WIDTH = Some (if in_rbucket (cs ! ?t) (client_home sz k) k then R_TRUE else R_FALSE)"
    using bucket_find [OF sz rep home(2,3), of k] bucket_find [OF sz rep secondary_index(2,3) [OF sz, of k], of k] by blast
  have "RDMA_get sz (map r_elements cs) g k =
    Some (if in_rbucket (cs ! ?t) (sint k mod sz) k \<or> in_rbucket (cs ! ?t) (client_home sz k) k then R_TRUE else R_FALSE, snd (fastrand g))"
    unfolding RDMA_get_def pick using at b primary_index [OF sz k] secondary_index(1) [OF sz, of k] by simp
  with t(1) show ?thesis by (intro exI [of _ ?t]) (simp add: home(1))
qed

lemma in_bucket_dom:
  assumes "replica sz c" "k \<noteq> EMPTY"
  shows "k \<in> dom (rmap c) \<longleftrightarrow> in_rbucket c (rhome c 1 k) k \<or> in_rbucket c (rhome c 2 k) k"
  using key_cell [of c k] assms by (auto simp: replica_def in_rbucket_def)

lemma in_bucket_home:
  assumes "replica sz c" "k \<noteq> EMPTY" "in_range i (r_cap c)" "in_rbucket c i k"
  shows "i = rhome c 1 k \<or> i = rhome c 2 k"
  using assms unfolding in_rbucket_def replica_def r_inv_def rplaced_def R_isOccupied_def by metis

subsection \<open>Locks word_held by a call\<close>

text \<open>The servers with the lock words in A set, the others as they are; A holds_lock pairs of a server and a bucket.\<close>

definition with_lock_words :: "nat set \<Rightarrow> rcuckoo \<Rightarrow> rcuckoo" where
  "with_lock_words B c = c\<lparr>r_elements := map (\<lambda>p. if 8 * r_cap c \<le> p \<and> p - 8 * r_cap c \<in> B then word_node 1 else r_elements c ! p)
     [0..<length (r_elements c)]\<rparr>"

definition locked_servers :: "(nat \<times> nat) set \<Rightarrow> rcuckoo list \<Rightarrow> rcuckoo list" where
  "locked_servers A cs = map (\<lambda>s. with_lock_words {i. (s, i) \<in> A} (cs ! s)) [0..<length cs]"

definition free_lock :: "rcuckoo list \<Rightarrow> nat \<Rightarrow> nat \<Rightarrow> bool" where
  "free_lock cs s i \<longleftrightarrow> lock_word (cs ! s) i = 0"

lemma locked_servers_simps [simp]:
  "length (locked_servers A cs) = length cs"
  "s < length cs \<Longrightarrow> locked_servers A cs ! s = with_lock_words {i. (s, i) \<in> A} (cs ! s)"
  by (simp_all add: locked_servers_def)

lemma with_locks_empty [simp]: "with_lock_words {} c = c"
  by (simp add: with_lock_words_def map_nth)

lemma locked_servers_empty [simp]: "locked_servers {} cs = cs"
  by (simp add: locked_servers_def map_nth)

lemma with_locks_keeps:
  assumes "replica sz c"
  shows "replica sz (with_lock_words B c)" "r_cap (with_lock_words B c) = r_cap c"
proof -
  let ?es = "map (\<lambda>p. if 8 * r_cap c \<le> p \<and> p - 8 * r_cap c \<in> B then word_node 1 else r_elements c ! p) [0..<length (r_elements c)]"
  have "8 * r_cap c \<le> length (r_elements c)" using assms by (simp add: replica_def r_inv_def r_shaped_def)
  then have "take (8 * r_cap c) ?es = take (8 * r_cap c) (r_elements c)" by (intro nth_equalityI) simp_all
  from tail_change [OF assms _ this] show "replica sz (with_lock_words B c)" "r_cap (with_lock_words B c) = r_cap c"
    by (simp_all add: with_lock_words_def)
qed

lemma lock_word_with_locks:
  assumes "replica sz c" "i < r_cap c"
  shows "lock_word (with_lock_words B c) i = (if i \<in> B then 1 else lock_word c i)"
proof -
  have "8 * r_cap c + i < length (r_elements c)" using assms by (simp add: replica_def r_inv_def r_shaped_def)
  then show ?thesis using with_locks_keeps(2) [OF assms(1), of B] by (simp add: lock_word_def) (simp add: with_lock_words_def)
qed

lemma word_node_word: "word_node (node_word n) = n"
proof -
  have "ucast (push_bit 32 (ucast (nval n) :: u64) OR ucast (nkey n)) = nkey n"
    by (rule bit_word_eqI) (auto simp: bit_simps)
  moreover have "ucast (drop_bit 32 (push_bit 32 (ucast (nval n) :: u64) OR ucast (nkey n))) = nval n"
    by (rule bit_word_eqI) (auto simp: bit_simps dest: bit_imp_le_length)
  ultimately show ?thesis by (simp add: node_word_def word_node_def)
qed

lemma set_with_locks:
  assumes "replica sz c" "i < r_cap c"
  shows "set_lock (with_lock_words B c) i 1 = with_lock_words (insert i B) c"
    and "lock_word c i = 0 \<Longrightarrow> set_lock (with_lock_words B c) i 0 = with_lock_words (B - {i}) c"
proof -
  have len: "8 * r_cap c + i < length (r_elements c)" using assms by (simp add: replica_def r_inv_def r_shaped_def)
  have cap: "r_cap (with_lock_words B c) = r_cap c" using with_locks_keeps(2) [OF assms(1)] .
  have "(r_elements (with_lock_words B c))[8 * r_cap c + i := word_node 1] = r_elements (with_lock_words (insert i B) c)"
  proof (rule nth_equalityI)
    fix p assume "p < length ((r_elements (with_lock_words B c))[8 * r_cap c + i := word_node 1])"
    then show "(r_elements (with_lock_words B c))[8 * r_cap c + i := word_node 1] ! p = r_elements (with_lock_words (insert i B) c) ! p"
      by (cases "p = 8 * r_cap c + i") (auto simp: with_lock_words_def)
  qed (simp add: with_lock_words_def)
  then show "set_lock (with_lock_words B c) i 1 = with_lock_words (insert i B) c" by (simp add: set_lock_def cap) (simp add: with_lock_words_def)
  assume z: "lock_word c i = 0"
  have "r_elements c ! (8 * r_cap c + i) = word_node 0" using word_node_word z by (metis lock_word_def)
  then have "(r_elements (with_lock_words B c))[8 * r_cap c + i := word_node 0] = r_elements (with_lock_words (B - {i}) c)"
  proof (intro nth_equalityI)
    fix p assume "p < length ((r_elements (with_lock_words B c))[8 * r_cap c + i := word_node 0])"
    with \<open>r_elements c ! (8 * r_cap c + i) = word_node 0\<close>
    show "(r_elements (with_lock_words B c))[8 * r_cap c + i := word_node 0] ! p = r_elements (with_lock_words (B - {i}) c) ! p"
      by (cases "p = 8 * r_cap c + i") (auto simp: with_lock_words_def)
  qed (simp add: with_lock_words_def)
  then show "set_lock (with_lock_words B c) i 0 = with_lock_words (B - {i}) c" by (simp add: set_lock_def cap) (simp add: with_lock_words_def)
qed

lemma locked_cas:
  assumes sz: "fits_sz sz" and reps: "\<forall>c\<in>set cs. replica sz c" and k: "0 \<le> sint k" and t: "t < length cs"
  defines "i \<equiv> lock_bucket sz k"
  shows "(t, i) \<notin> A \<Longrightarrow> free_lock cs t i \<Longrightarrow>
      lock_cas sz (map r_elements (locked_servers A cs)) k (int t) 0 1 = Some (0, map r_elements (locked_servers (insert (t, i) A) cs))"
    and "(t, i) \<in> A \<or> lock_word (cs ! t) i = 1 \<Longrightarrow>
      lock_cas sz (map r_elements (locked_servers A cs)) k (int t) 0 1 = Some (1, map r_elements (locked_servers A cs))"
    and "(t, i) \<in> A \<Longrightarrow> free_lock cs t i \<Longrightarrow>
      lock_cas sz (map r_elements (locked_servers A cs)) k (int t) 1 0 = Some (1, map r_elements (locked_servers (A - {(t, i)}) cs))"
proof -
  have rep: "replica sz (cs ! t)" using reps t by simp
  then have i: "i < r_cap (cs ! t)" using lock_bucket_less [OF sz, of k] by (simp add: replica_def i_def)
  let ?d = "with_lock_words {i. (t, i) \<in> A} (cs ! t)"
  have d: "replica sz (locked_servers A cs ! t)" using with_locks_keeps(1) [OF rep] t by simp
  have lw: "lock_word (locked_servers A cs ! t) i = (if (t, i) \<in> A then 1 else lock_word (cs ! t) i)"
    using lock_word_with_locks [OF rep i] t by simp
  note cas = lock_cas_eq [OF sz k _ d, folded i_def, unfolded lw]
  have add: "(locked_servers A cs)[t := set_lock (locked_servers A cs ! t) i 1] = locked_servers (insert (t, i) A) cs"
  proof (rule nth_equalityI)
    fix s assume "s < length ((locked_servers A cs)[t := set_lock (locked_servers A cs ! t) i 1])"
    moreover have "insert i {i. (t, i) \<in> A} = {j. j = i \<or> (t, j) \<in> A}" by auto
    ultimately show "(locked_servers A cs)[t := set_lock (locked_servers A cs ! t) i 1] ! s = locked_servers (insert (t, i) A) cs ! s"
      using set_with_locks(1) [OF rep i, of "{i. (t, i) \<in> A}"] t by (cases "s = t") simp_all
  qed simp
  have sub: "(locked_servers A cs)[t := set_lock (locked_servers A cs ! t) i 0] = locked_servers (A - {(t, i)}) cs" if "free_lock cs t i"
  proof (rule nth_equalityI)
    fix s assume "s < length ((locked_servers A cs)[t := set_lock (locked_servers A cs ! t) i 0])"
    moreover have "{i. (t, i) \<in> A} - {i} = {j. (t, j) \<in> A \<and> j \<noteq> i}" by auto
    ultimately show "(locked_servers A cs)[t := set_lock (locked_servers A cs ! t) i 0] ! s = locked_servers (A - {(t, i)}) cs ! s"
      using set_with_locks(2) [OF rep i, of "{i. (t, i) \<in> A}"] that t by (cases "s = t") (simp_all add: free_lock_def)
  qed simp
  show "(t, i) \<notin> A \<Longrightarrow> free_lock cs t i \<Longrightarrow>
      lock_cas sz (map r_elements (locked_servers A cs)) k (int t) 0 1 = Some (0, map r_elements (locked_servers (insert (t, i) A) cs))"
    using cas [of 0 1] t add by (simp add: free_lock_def)
  show "(t, i) \<in> A \<or> lock_word (cs ! t) i = 1 \<Longrightarrow>
      lock_cas sz (map r_elements (locked_servers A cs)) k (int t) 0 1 = Some (1, map r_elements (locked_servers A cs))"
    using cas [of 0 1] t by (auto split: if_splits)
  show "(t, i) \<in> A \<Longrightarrow> free_lock cs t i \<Longrightarrow>
      lock_cas sz (map r_elements (locked_servers A cs)) k (int t) 1 0 = Some (1, map r_elements (locked_servers (A - {(t, i)}) cs))"
    using cas [of 1 0] t sub by simp
qed

subsection \<open>Locking and unlocking all servers\<close>

abbreviation mems_with :: "(nat \<times> nat) set \<Rightarrow> rcuckoo list \<Rightarrow> rnode list list" where
  "mems_with A cs \<equiv> map r_elements (locked_servers A cs)"

lemma targets_upto:
  assumes "0 < m" "0 \<le> z" "z < int m"
  shows "\<exists>ts. targets_from z m = map int ts \<and> distinct ts \<and> set ts = {..<m}"
proof -
  have inj: "inj_on (\<lambda>i. (z + int i) mod int m) {0..<m}"
  proof (rule inj_onI)
    fix a b assume ab: "a \<in> {0..<m}" "b \<in> {0..<m}" "(z + int a) mod int m = (z + int b) mod int m"
    from mod_diff_cong [OF this(3), of z z] have "int a mod int m = int b mod int m" by simp
    with ab(1,2) show "a = b" by (simp flip: of_nat_mod)
  qed
  let ?ts = "map (\<lambda>i. nat ((z + int i) mod int m)) [0..<m]"
  have "inj_on (\<lambda>i. nat ((z + int i) mod int m)) {0..<m}"
  proof (rule inj_onI)
    fix a b assume "a \<in> {0..<m}" "b \<in> {0..<m}" "nat ((z + int a) mod int m) = nat ((z + int b) mod int m)"
    moreover have "0 \<le> (z + int a) mod int m" "0 \<le> (z + int b) mod int m" using assms(1) by simp_all
    ultimately show "a = b" using inj_onD [OF inj] by (metis nat_eq_iff)
  qed
  then have d: "distinct ?ts" by (simp add: distinct_map)
  moreover have "set ?ts \<subseteq> {..<m}" using assms(1) by (auto simp: nat_less_iff)
  moreover have "card (set ?ts) = m" using distinct_card [OF d] by simp
  ultimately have "set ?ts = {..<m}" by (intro card_subset_eq) simp_all
  moreover have "targets_from z m = map int ?ts" using assms(1) by (simp add: targets_from_def)
  ultimately show ?thesis using d by blast
qed

lemma release_locked:
  assumes "fits_sz sz" "\<forall>c\<in>set cs. replica sz c" "0 \<le> sint k"
    and "distinct ts" "\<forall>t\<in>set ts. t < length cs \<and> (t, lock_bucket sz k) \<in> A \<and> free_lock cs t (lock_bucket sz k)"
  shows "RDMA_release sz (mems_with A cs) k (map int ts) = Some (mems_with (A - set ts \<times> {lock_bucket sz k}) cs)"
  using assms(4,5)
proof (induction ts arbitrary: A)
  case (Cons t ts)
  have "A - {(t, lock_bucket sz k)} - set ts \<times> {lock_bucket sz k} = A - set (t # ts) \<times> {lock_bucket sz k}" by auto
  with locked_cas(3) [OF assms(1-3), of t A] Cons.IH [of "A - {(t, lock_bucket sz k)}"] Cons.prems show ?case by auto
qed simp

lemma prepare_succeeds:
  assumes "fits_sz sz" "\<forall>c\<in>set cs. replica sz c" "0 \<le> sint k"
    and "distinct ts" "\<forall>t\<in>set ts. t < length cs \<and> (t, lock_bucket sz k) \<notin> A \<and> free_lock cs t (lock_bucket sz k)"
  shows "prepare_loop sz (mems_with A cs) k (map int ts) owned =
    Some (owned @ map int ts, mems_with (A \<union> set ts \<times> {lock_bucket sz k}) cs)"
  using assms(4,5)
proof (induction ts arbitrary: A owned)
  case (Cons t ts)
  have "insert (t, lock_bucket sz k) A \<union> set ts \<times> {lock_bucket sz k} = A \<union> set (t # ts) \<times> {lock_bucket sz k}" by auto
  with locked_cas(1) [OF assms(1-3), of t A] Cons.IH [of "insert (t, lock_bucket sz k) A" "owned @ [int t]"] Cons.prems
  show ?case by auto
qed simp

lemma prepare_fails:
  assumes "fits_sz sz" "\<forall>c\<in>set cs. replica sz c" "0 \<le> sint k"
    and "distinct (os @ ts)" "\<forall>t\<in>set os. t < length cs \<and> (t, lock_bucket sz k) \<in> A \<and> free_lock cs t (lock_bucket sz k)"
    and "\<forall>t\<in>set ts. t < length cs \<and> ((t, lock_bucket sz k) \<in> A \<or> lock_word (cs ! t) (lock_bucket sz k) \<in> {0, 1})"
    and "\<exists>t\<in>set ts. (t, lock_bucket sz k) \<in> A \<or> lock_word (cs ! t) (lock_bucket sz k) = 1"
  shows "prepare_loop sz (mems_with A cs) k (map int ts) (map int os) = Some ([], mems_with (A - set os \<times> {lock_bucket sz k}) cs)"
  using assms(4-7)
proof (induction ts arbitrary: A os)
  case (Cons t ts)
  let ?i = "lock_bucket sz k"
  show ?case
  proof (cases "(t, ?i) \<in> A \<or> lock_word (cs ! t) ?i = 1")
    case True
    with locked_cas(2) [OF assms(1-3), of t A] release_locked [OF assms(1-3), of os A] Cons.prems show ?thesis by auto
  next
    case False
    with Cons.prems have t: "t < length cs" "(t, ?i) \<notin> A" "free_lock cs t ?i" by (auto simp: free_lock_def)
    have ins: "insert (t, ?i) A - set (os @ [t]) \<times> {?i} = A - set os \<times> {?i}" using t by auto
    have "prepare_loop sz (mems_with (insert (t, ?i) A) cs) k (map int ts) (map int (os @ [t])) =
        Some ([], mems_with (insert (t, ?i) A - set (os @ [t]) \<times> {?i}) cs)"
      using Cons.prems t False by (intro Cons.IH) auto
    with locked_cas(1) [OF assms(1-3) t(1), of A] t show ?thesis unfolding ins by simp
  qed
qed simp

lemma pick_server_eq:
  "0 < m \<Longrightarrow> pick_server m g = Some (fst (fastrand g) mod int m, snd (fastrand g))"
  by (simp add: pick_server_def split_def)

lemma prepareMessage_eq:
  assumes sys: "fits_sz sz" "\<forall>c\<in>set cs. replica sz c" and ne: "cs \<noteq> []" and k: "0 \<le> sint k"
  defines "i \<equiv> lock_bucket sz k"
  shows "(\<forall>t < length cs. (t, i) \<notin> A \<and> free_lock cs t i) \<Longrightarrow>
      \<exists>ts. distinct ts \<and> set ts = {..<length cs} \<and>
        prepareMessage sz (mems_with A cs) g k = Some (map int ts, mems_with (A \<union> {..<length cs} \<times> {i}) cs, snd (fastrand g))"
    and "(\<forall>t < length cs. (t, i) \<in> A \<or> lock_word (cs ! t) i \<in> {0, 1}) \<Longrightarrow>
      (\<exists>t < length cs. (t, i) \<in> A \<or> lock_word (cs ! t) i = 1) \<Longrightarrow>
      prepareMessage sz (mems_with A cs) g k = Some ([], mems_with A cs, snd (fastrand g))"
proof -
  let ?m = "length cs" and ?z = "fst (fastrand g) mod int (length cs)"
  have m: "0 < ?m" using ne by simp
  then obtain ts where ts: "targets_from ?z ?m = map int ts" "distinct ts" "set ts = {..<?m}"
    using targets_upto [OF m, of ?z] by auto
  have pm: "prepareMessage sz (mems_with A cs) g k =
      (case prepare_loop sz (mems_with A cs) k (map int ts) (map int []) of
         None \<Rightarrow> None | Some (owned, mems) \<Rightarrow> Some (owned, mems, snd (fastrand g)))"
    using m by (simp add: prepareMessage_def pick_server_eq ts(1) split: option.split)
  show "\<exists>ts. distinct ts \<and> set ts = {..<?m} \<and>
        prepareMessage sz (mems_with A cs) g k = Some (map int ts, mems_with (A \<union> {..<?m} \<times> {i}) cs, snd (fastrand g))"
    if "\<forall>t < ?m. (t, i) \<notin> A \<and> free_lock cs t i"
    using prepare_succeeds [OF sys k ts(2), of A "[]"] that ts(2,3) unfolding pm i_def by (intro exI [of _ ts]) simp
  show "prepareMessage sz (mems_with A cs) g k = Some ([], mems_with A cs, snd (fastrand g))"
    if "\<forall>t < ?m. (t, i) \<in> A \<or> lock_word (cs ! t) i \<in> {0, 1}" "\<exists>t < ?m. (t, i) \<in> A \<or> lock_word (cs ! t) i = 1"
    using prepare_fails [OF sys k, of "[]" ts A] that ts(2,3) unfolding pm i_def by (auto simp: Bex_def)
qed

subsection \<open>Messages\<close>

lemma send_message_in:
  "t < length boxes \<Longrightarrow> send_message boxes (int t) msg = Some (boxes[t := boxes ! t @ [msg]])"
  by (simp add: send_message_def at_def upd_def)

lemma send_node_eq:
  assumes "distinct ts" "\<forall>t\<in>set ts. t < length boxes"
  shows "send_node boxes n (map int ts) = Some (map (\<lambda>s. if s \<in> set ts then boxes ! s @ [[n]] else boxes ! s) [0..<length boxes])"
  using assms
proof (induction ts arbitrary: boxes)
  case Nil
  then show ?case by (simp add: map_nth)
next
  case (Cons t ts)
  let ?b = "boxes[t := boxes ! t @ [[n]]]"
  have "map (\<lambda>s. if s \<in> set ts then ?b ! s @ [[n]] else ?b ! s) [0..<length ?b] =
      map (\<lambda>s. if s \<in> set (t # ts) then boxes ! s @ [[n]] else boxes ! s) [0..<length boxes]"
    using Cons.prems by (intro map_cong) (auto simp: nth_list_update)
  with Cons.IH [of ?b] Cons.prems show ?case by (simp add: send_message_in)
qed

lemma send_elements_eq:
  assumes "3 \<le> length ins" "distinct ts" "\<forall>t\<in>set ts. t < length boxes"
  shows "send_elements boxes ins (map int ts) =
    Some (map (\<lambda>s. if s \<in> set ts then boxes ! s @ [take 3 ins] else boxes ! s) [0..<length boxes])"
  using assms(2,3)
proof (induction ts arbitrary: boxes)
  case Nil
  then show ?case by (simp add: map_nth)
next
  case (Cons t ts)
  let ?b = "boxes[t := boxes ! t @ [take 3 ins]]"
  have "map (\<lambda>s. if s \<in> set ts then ?b ! s @ [take 3 ins] else ?b ! s) [0..<length ?b] =
      map (\<lambda>s. if s \<in> set (t # ts) then boxes ! s @ [take 3 ins] else boxes ! s) [0..<length boxes]"
    using Cons.prems by (intro map_cong) (auto simp: nth_list_update)
  with Cons.IH [of ?b] Cons.prems assms(1) show ?case by (simp add: send_message_in)
qed

lemma send_elements_out:
  assumes "length boxes < n" "k \<le> length boxes"
  shows "send_elements boxes ins (map int [k..<n]) = None"
  using assms
proof (induction "length boxes - k" arbitrary: boxes k)
  case 0
  then have "k = length boxes" "[k..<n] = k # [Suc k..<n]" by (simp_all add: upt_conv_Cons)
  then show ?case by (simp add: send_message_def at_def)
next
  case (Suc d)
  then have k: "k < length boxes" "[k..<n] = k # [Suc k..<n]" by (simp_all add: upt_conv_Cons)
  have "send_elements (boxes[k := boxes ! k @ [take 3 ins]]) ins (map int [Suc k..<n]) = None"
    using Suc.hyps(2) Suc.prems k by (intro Suc.hyps(1)) simp_all
  with k show ?case by (simp add: send_message_in)
qed

subsection \<open>insert\<close>

lemma insert_eq:
  assumes sys: "fits_sz sz" "\<forall>c\<in>set cs. replica sz c" and ne: "cs \<noteq> []" and k: "0 \<le> sint k"
    and len: "length boxes = length cs" and words: "\<forall>c\<in>set cs. lock_word c (lock_bucket sz k) \<in> {0, 1}"
  shows "RDMA_insert sz (map r_elements cs) boxes g (k, v) =
    Some (if \<forall>c\<in>set cs. lock_word c (lock_bucket sz k) = 0
      then (R_TRUE, map r_elements cs, map (\<lambda>b. b @ [[Node_new k v]]) boxes, snd (fastrand g))
      else (R_ABORT_FAILURE, map r_elements cs, boxes, snd (fastrand g)))"
proof (cases "\<forall>c\<in>set cs. lock_word c (lock_bucket sz k) = 0")
  case True
  let ?i = "lock_bucket sz k" and ?all = "{..<length cs} \<times> {lock_bucket sz k}"
  have key: "nkey (Node_new k v) = k" by (simp add: Node_new_def)
  have free: "free_lock cs t ?i" if "t < length cs" for t using True that by (simp add: free_lock_def)
  then obtain ts where ts: "distinct ts" "set ts = {..<length cs}"
    "prepareMessage sz (map r_elements cs) g k = Some (map int ts, mems_with ?all cs, snd (fastrand g))"
    using prepareMessage_eq(1) [OF sys ne k, of "{}" g] by auto
  have "0 \<in> set ts" unfolding ts(2) using ne by simp
  then have "ts \<noteq> []" by auto
  moreover have "RDMA_release sz (mems_with ?all cs) k (map int ts) = Some (map r_elements cs)"
    using release_locked [OF sys k ts(1), of ?all] ts(2) free by simp
  moreover have "map (\<lambda>s. if s \<in> set ts then boxes ! s @ [[Node_new k v]] else boxes ! s) [0..<length boxes] = map (\<lambda>b. b @ [[Node_new k v]]) boxes"
    using ts(2) len by (intro nth_equalityI) simp_all
  then have "send_node boxes (Node_new k v) (map int ts) = Some (map (\<lambda>b. b @ [[Node_new k v]]) boxes)"
    using send_node_eq [OF ts(1), of boxes "Node_new k v"] ts(2) len by simp
  ultimately have "RDMA_insert sz (map r_elements cs) boxes g (k, v) =
      Some (R_TRUE, map r_elements cs, map (\<lambda>b. b @ [[Node_new k v]]) boxes, snd (fastrand g))"
    unfolding RDMA_insert_def Let_def fst_conv snd_conv key ts(3) by simp
  then show ?thesis unfolding if_P [OF True] .
next
  case False
  have "\<forall>t < length cs. lock_word (cs ! t) (lock_bucket sz k) \<in> {0, 1}" using words by simp
  moreover have "\<exists>t < length cs. lock_word (cs ! t) (lock_bucket sz k) = 1" using words False by (metis in_set_conv_nth insertE singletonD)
  ultimately have "prepareMessage sz (map r_elements cs) g k = Some ([], map r_elements cs, snd (fastrand g))"
    using prepareMessage_eq(2) [OF sys ne k, of "{}" g] by simp
  with False show ?thesis by (simp add: RDMA_insert_def Node_new_def)
qed

subsection \<open>insert of several elements\<close>

definition set_buckets :: "int \<Rightarrow> (u32 \<times> int list) list \<Rightarrow> nat set" where
  "set_buckets sz sets = (\<lambda>x. lock_bucket sz (fst x)) ` set sets"

definition full_sets :: "int \<Rightarrow> rcuckoo list \<Rightarrow> (u32 \<times> int list) list \<Rightarrow> bool" where
  "full_sets sz cs sets \<longleftrightarrow> distinct (map (\<lambda>x. lock_bucket sz (fst x)) sets) \<and>
     (\<forall>x\<in>set sets. 0 \<le> sint (fst x) \<and> (\<forall>t < length cs. free_lock cs t (lock_bucket sz (fst x))) \<and>
        (\<exists>ts. snd x = map int ts \<and> distinct ts \<and> set ts = {..<length cs}))"

lemma full_sets_rev [simp]: "full_sets sz cs (rev sets) = full_sets sz cs sets"
  by (simp add: full_sets_def rev_map [symmetric])

lemma set_buckets_simps [simp]:
  "set_buckets sz (rev sets) = set_buckets sz sets" "set_buckets sz [] = {}"
  "set_buckets sz (x # sets) = insert (lock_bucket sz (fst x)) (set_buckets sz sets)"
  by (simp_all add: set_buckets_def)

lemma release_sets_eq:
  assumes sys: "fits_sz sz" "\<forall>c\<in>set cs. replica sz c"
    and "full_sets sz cs sets" "{..<length cs} \<times> set_buckets sz sets \<subseteq> A"
  shows "release_sets sz (mems_with A cs) sets = Some (mems_with (A - {..<length cs} \<times> set_buckets sz sets) cs)"
  using assms(3,4)
proof (induction sets arbitrary: A)
  case (Cons x sets)
  obtain k owned where x: "x = (k, owned)" by fastforce
  let ?i = "lock_bucket sz k" and ?m = "length cs"
  from Cons.prems(1) x obtain ts where k: "0 \<le> sint k" "\<forall>t < ?m. free_lock cs t ?i"
    and ts: "owned = map int ts" "distinct ts" "set ts = {..<?m}" and rest: "full_sets sz cs sets" "?i \<notin> set_buckets sz sets"
    by (auto simp: full_sets_def set_buckets_def)
  have "\<forall>t\<in>set ts. t < ?m \<and> (t, ?i) \<in> A \<and> free_lock cs t ?i" using Cons.prems(2) x ts(3) k(2) by auto
  from release_locked [OF sys k(1) ts(2) this] have one: "RDMA_release sz (mems_with A cs) k owned = Some (mems_with (A - {..<?m} \<times> {?i}) cs)"
    using ts by simp
  have "{..<?m} \<times> set_buckets sz sets \<subseteq> A - {..<?m} \<times> {?i}" using Cons.prems(2) rest(2) x by auto
  note Cons.IH [OF rest(1) this]
  moreover have "A - {..<?m} \<times> {?i} - {..<?m} \<times> set_buckets sz sets = A - {..<?m} \<times> set_buckets sz (x # sets)" using x by auto
  ultimately show ?case using one x by simp
qed simp

definition some_repeat :: "int \<Rightarrow> u32 list \<Rightarrow> bool" where
  "some_repeat sz ks \<longleftrightarrow> \<not> distinct (map (lock_bucket sz) ks)"

lemma prepare_elements_eq:
  assumes sys: "fits_sz sz" "\<forall>c\<in>set cs. replica sz c" and ne: "cs \<noteq> []"
    and "full_sets sz cs sets"
    and "\<forall>e\<in>set es. 0 \<le> sint (fst e) \<and> (\<forall>t < length cs. free_lock cs t (lock_bucket sz (fst e)))"
  shows "\<exists>sets' g'. full_sets sz cs sets' \<and>
    prepare_elements sz (mems_with ({..<length cs} \<times> set_buckets sz sets) cs) g es sets =
      Some (if some_repeat sz (map fst (sets) @ map fst es) then (None, map r_elements cs, g')
            else (Some sets', mems_with ({..<length cs} \<times> set_buckets sz sets') cs, g'))"
  using assms(4,5)
proof (induction es arbitrary: g sets)
  case Nil
  have "\<not> some_repeat sz (map fst sets)" using Nil.prems(1) by (simp add: full_sets_def some_repeat_def comp_def)
  then show ?case using Nil.prems(1) by (intro exI [of _ "rev sets"]) simp
next
  case (Cons e es)
  let ?i = "lock_bucket sz (fst e)" and ?m = "length cs" and ?A = "{..<length cs} \<times> set_buckets sz sets"
  have k: "0 \<le> sint (fst e)" and free: "\<forall>t < ?m. free_lock cs t ?i" using Cons.prems(2) by simp_all
  show ?case
  proof (cases "?i \<in> set_buckets sz sets")
    case True
    then have rep: "some_repeat sz (map fst sets @ map fst (e # es))"
      by (auto simp: some_repeat_def set_buckets_def)
    have "prepareMessage sz (mems_with ?A cs) g (fst e) = Some ([], mems_with ?A cs, snd (fastrand g))"
      using True ne by (intro prepareMessage_eq(2) [OF sys ne k]) auto
    moreover have "release_sets sz (mems_with ?A cs) sets = Some (map r_elements cs)"
      using release_sets_eq [OF sys Cons.prems(1), of ?A] by simp
    ultimately show ?thesis using rep Cons.prems(1) by (intro exI [of _ sets] exI [of _ "snd (fastrand g)"]) simp
  next
    case False
    then obtain ts where ts: "distinct ts" "set ts = {..<?m}"
      "prepareMessage sz (mems_with ?A cs) g (fst e) = Some (map int ts, mems_with (?A \<union> {..<?m} \<times> {?i}) cs, snd (fastrand g))"
      using prepareMessage_eq(1) [OF sys ne k, of ?A g] free by auto
    let ?sets = "(fst e, map int ts) # sets"
    have "0 \<in> set ts" unfolding ts(2) using ne by simp
    then have nonempty: "map int ts \<noteq> []" by auto
    have "full_sets sz cs ?sets" using Cons.prems(1) False k free ts(1,2) by (auto simp: full_sets_def set_buckets_def)
    moreover have "?A \<union> {..<?m} \<times> {?i} = {..<?m} \<times> set_buckets sz ?sets" by auto
    moreover have "some_repeat sz (map fst ?sets @ map fst es) = some_repeat sz (map fst sets @ map fst (e # es))"
      by (auto simp: some_repeat_def)
    ultimately show ?thesis using Cons.IH [of ?sets "snd (fastrand g)"] Cons.prems(2) ts(3) nonempty by simp
  qed
qed

lemma insert_all_eq:
  assumes sys: "fits_sz sz" "\<forall>c\<in>set cs. replica sz c" and ne: "cs \<noteq> []" and len: "length boxes = length cs"
    and es: "es \<noteq> []" "\<forall>e\<in>set es. 0 \<le> sint (fst e) \<and> (\<forall>t < length cs. free_lock cs t (lock_bucket sz (fst e)))"
  shows "\<exists>g'. RDMA_insert_all sz (map r_elements cs) boxes g es =
    (if some_repeat sz (map fst es) then Some (R_ABORT_FAILURE, map r_elements cs, boxes, g')
     else if length es < 3 \<or> length cs < length es then None
     else Some (R_TRUE, map r_elements cs,
       map (\<lambda>b. b @ [map (\<lambda>e. Node_new (fst e) (snd e)) (take 3 es)]) (take (length es) boxes) @ drop (length es) boxes, g'))"
proof -
  let ?ins = "map (\<lambda>e. Node_new (fst e) (snd e)) es" and ?n = "length es"
  obtain sets g' where full: "full_sets sz cs sets" and prep: "prepare_elements sz (map r_elements cs) g es [] =
      Some (if some_repeat sz (map fst es) then (None, map r_elements cs, g')
            else (Some sets, mems_with ({..<length cs} \<times> set_buckets sz sets) cs, g'))"
    using prepare_elements_eq [OF sys ne, of "[]" es g] es(2) by (auto simp: full_sets_def)
  have rel: "release_sets sz (mems_with ({..<length cs} \<times> set_buckets sz sets) cs) sets = Some (map r_elements cs)"
    using release_sets_eq [OF sys full, of "{..<length cs} \<times> set_buckets sz sets"] by simp
  have send: "send_elements boxes ?ins (map int [0..<?n]) =
      (if ?n < 3 \<or> length cs < ?n then None
       else Some (map (\<lambda>b. b @ [take 3 ?ins]) (take ?n boxes) @ drop ?n boxes))"
  proof (cases "?n < 3")
    case True
    with es(1) have "[0..<?n] = 0 # [Suc 0..<?n]" by (simp add: upt_conv_Cons)
    with True show ?thesis by simp
  next
    case False
    show ?thesis
    proof (cases "length cs < ?n")
      case True
      with send_elements_out [of boxes ?n 0] len show ?thesis by simp
    next
      case False
      have "map (\<lambda>s. if s \<in> set [0..<?n] then boxes ! s @ [take 3 ?ins] else boxes ! s) [0..<length boxes] =
          map (\<lambda>b. b @ [take 3 ?ins]) (take ?n boxes) @ drop ?n boxes"
        using False len by (intro nth_equalityI) (auto simp: nth_append)
      with send_elements_eq [of ?ins "[0..<?n]" boxes] False \<open>\<not> ?n < 3\<close> len show ?thesis by simp
    qed
  qed
  show ?thesis
    by (intro exI [of _ g']) (simp add: RDMA_insert_all_def prep send rel take_map)
qed

end
