(* ===== verification/RRemoteCorrect.thy ===== *)
theory RRemoteCorrect
  imports RRemoteSteps RRemoteCalls
begin

text \<open>
  What holds_lock of the RDMA store as a system of clients and servers.  Locks exclude each other and fix one order of the
  messages about a bucket for all servers; the workers of a server need not insert in that order, so replicas
  can differ for ever.  \<open>get\<close> finds a key only where the client's hash leads.
\<close>

text \<open>A table of three buckets: key 7 in its first bucket, key 4 in its second one.\<close>

definition demo_table :: rcuckoo where
  "demo_table = \<lparr>r_buckets = 3, r_elements = bucket_of [4] @ bucket_of [7] @ bucket_of [] @ replicate 3 (Node_new EMPTY 0),
     r_locks = replicate 3 False, r_seed = 99\<rparr>"

lemma demo_table_ok: "replica 3 demo_table" "rmap demo_table 7 = Some 8" "rmap demo_table 4 = Some 5"
proof -
  have cap: "r_cap demo_table = 3" by code_simp
  have "length (r_elements demo_table) = 27" by code_simp
  moreover have "placed_check demo_table" by code_simp
  moreover have "runique demo_table" by code_simp
  ultimately have "r_inv demo_table" using cap by (intro r_inv_check) (simp_all add: int_max_def)
  moreover have "r_unlocked demo_table" unfolding r_unlocked_def cap by (simp add: demo_table_def)
  ultimately show "replica 3 demo_table" using cap by (simp add: replica_def)
  show "rmap demo_table 7 = Some 8" by code_simp
  show "rmap demo_table 4 = Some 5" by code_simp
qed

subsection \<open>Properties\<close>

text \<open>C27: in every reachable state of the servers and clients, at most one client holds the lock of a bucket on a
  server: one of those it has locked and not yet unlocked.\<close>

theorem rdma_mutual_exclusion:
  assumes "fits_sz (int (unat n))" "list_all event_ok es" "rw_run (int (unat n)) fuel es (rw_new m n clients) = Some w"
    and "j < clients" "j' < clients" "holds_lock (int (unat n)) (rw_calls w ! j) s i" "holds_lock (int (unat n)) (rw_calls w ! j') s i"
  shows "j = j'"
proof -
  have inv: "rw_inv (int (unat n)) w" using rw_run_inv [OF assms(1) rw_new_inv [OF assms(1)] assms(2,3)] by simp
  have "length (rw_calls w) = clients" using rw_run_calls [OF assms(3)] by (simp add: rw_new_def)
  with inv assms(4-7) show ?thesis by (auto simp: rw_inv_def locks_match_def exclusive_def)
qed

definition one_insert :: "revent list" where
  "one_insert = Call 0 (Node_new 7 8) 0 # Client 0 # Client 0 # Call 1 (Node_new 3 9) 1 # [Client 1]"

theorem rdma_mutual_exclusion_witness:
  "\<exists>w. rw_run 4 1 one_insert (rw_new 2 4 2) = Some w \<and> holds_lock 4 (rw_calls w ! 0) 1 3 \<and> \<not> holds_lock 4 (rw_calls w ! 1) 1 3"
proof -
  have "(case rw_run 4 1 one_insert (rw_new 2 4 2) of Some w \<Rightarrow> holds_lock 4 (rw_calls w ! 0) 1 3 | None \<Rightarrow> False)" by code_simp
  then obtain w where r: "rw_run 4 1 one_insert (rw_new 2 4 2) = Some w" and h: "holds_lock 4 (rw_calls w ! 0) 1 3"
    by (auto split: option.splits)
  have "list_all event_ok one_insert" by code_simp
  with r h rdma_mutual_exclusion [where n = 4 and es = one_insert and fuel = 1 and m = 2 and clients = 2 and w = w and j = 0 and j' = 1 and s = 1 and i = 3]
  have "\<not> holds_lock 4 (rw_calls w ! 1) 1 3" by (auto simp: fits_sz_def int_max_def)
  with r h show ?thesis by blast
qed

text \<open>C28: the messages about a lock bucket arrive in the same order at all servers: in every reachable
  state in which no client is in the middle of sending one.\<close>

theorem rdma_same_order:
  assumes "fits_sz (int (unat n))" "list_all event_ok es" "rw_run (int (unat n)) fuel es (rw_new m n clients) = Some w"
    and "s < m" "s' < m" "list_all (\<lambda>call. \<not> sending (int (unat n)) call i) (rw_calls w)"
  shows "bucket_log (int (unat n)) (rw_arrived w ! s) i = bucket_log (int (unat n)) (rw_arrived w ! s') i"
proof -
  have inv: "rw_inv (int (unat n)) w \<and> length (rw_tables w) = m"
    using rw_run_inv [OF assms(1) rw_new_inv [OF assms(1)] assms(2,3)] by (simp add: rw_new_def)
  moreover have "\<forall>j < length (rw_calls w). \<not> sending (int (unat n)) (rw_calls w ! j) i" using assms(6) by (simp add: list_all_length)
  ultimately have "same_but (int (unat n)) (rw_arrived w) i [] []" "length (rw_arrived w) = m"
    by (simp_all add: rw_inv_def ordered_def)
  with assms(4,5) show ?thesis by (auto simp: same_but_def)
qed

text \<open>Two clients that insert different values for key 7, one after the other; the two workers of the
  second server insert in the other order.\<close>

definition two_inserts :: "revent list" where
  "two_inserts = Call 0 (Node_new 7 1) 0 # replicate 6 (Client 0) @ Call 1 (Node_new 7 2) 0 # replicate 6 (Client 1)"

theorem rdma_same_order_witness:
  "\<exists>w. rw_run 4 1 two_inserts (rw_new 2 4 2) = Some w \<and> bucket_log 4 (rw_arrived w ! 0) 3 = bucket_log 4 (rw_arrived w ! 1) 3"
proof -
  have "map_option (\<lambda>w. list_all (\<lambda>call. \<not> sending 4 call 3) (rw_calls w)) (rw_run 4 1 two_inserts (rw_new 2 4 2)) = Some True"
    by code_simp
  then obtain w where w: "rw_run 4 1 two_inserts (rw_new 2 4 2) = Some w" "list_all (\<lambda>call. \<not> sending 4 call 3) (rw_calls w)" by auto
  have "list_all event_ok two_inserts" by code_simp
  from rdma_same_order [of "4 :: u32", OF _ this, of 1 2 2 w 0 1 3] w show ?thesis
    by (intro exI [of _ w]) (simp add: fits_sz_def int_max_def)
qed


text \<open>C30: \<open>get\<close> of a positive key answers whether the server that it picks stores the key, if the client's second
  hash and the server's lead to the same bucket.\<close>

theorem rdma_get_agrees:
  assumes "fits_sz sz" "list_all (replica sz) cs" "cs \<noteq> []" "0 < sint k"
    and "U_secondary_hash k mod word_of_int sz = R_secondary_hash k mod word_of_int sz"
  shows "\<exists>t < length cs. RDMA_get sz (map r_elements cs) g k =
    Some (if k \<in> dom (rmap (cs ! t)) then R_TRUE else R_FALSE, snd (fastrand g))"
proof -
  have reps: "\<forall>c\<in>set cs. replica sz c" using assms(2) by (simp add: list_all_iff)
  have k: "0 \<le> sint k" "k \<noteq> EMPTY" using assms(4) by (auto simp: EMPTY_def)
  obtain t where t: "t < length cs" "RDMA_get sz (map r_elements cs) g k =
    Some (if in_rbucket (cs ! t) (rhome (cs ! t) 1 k) k \<or> in_rbucket (cs ! t) (client_home sz k) k then R_TRUE else R_FALSE,
      snd (fastrand g))" using get_eq [OF assms(1) reps assms(3) k(1)] by blast
  have rep: "replica sz (cs ! t)" using reps t(1) by simp
  then have "rhome (cs ! t) 2 k = client_home sz k"
    using assms(5) by (simp add: rhome_two client_home_def)
  with t in_bucket_dom [OF rep k(2)] show ?thesis by (intro exI [of _ t]) simp
qed

theorem rdma_get_agrees_witness:
  "RDMA_get 3 [r_elements demo_table, r_elements demo_table] 99 7 = Some (R_TRUE, snd (fastrand 99))"
proof -
  have "U_secondary_hash 7 mod word_of_int 3 = R_secondary_hash 7 mod word_of_int 3" by code_simp
  from rdma_get_agrees [OF _ _ _ _ this, of "[demo_table, demo_table]" 99] demo_table_ok
  show ?thesis by (auto simp: fits_sz_def int_max_def less_Suc_eq numeral_2_eq_2)
qed

text \<open>C31: \<open>get\<close> answers FALSE for a key that every server stores, if each has it in its second bucket and the
  client's second hash, which shifts an unsigned value where the server shifts a signed one, leads elsewhere.\<close>

theorem rdma_get_misses:
  assumes "fits_sz sz" "list_all (replica sz) cs" "cs \<noteq> []" "0 < sint k"
    and "list_all (\<lambda>c. k \<in> dom (rmap c) \<and> \<not> in_rbucket c (rhome c 1 k) k) cs"
    and "U_secondary_hash k mod word_of_int sz \<noteq> R_secondary_hash k mod word_of_int sz"
  shows "RDMA_get sz (map r_elements cs) g k = Some (R_FALSE, snd (fastrand g))"
proof -
  have reps: "\<forall>c\<in>set cs. replica sz c" using assms(2) by (simp add: list_all_iff)
  have k: "0 \<le> sint k" "k \<noteq> EMPTY" using assms(4) by (auto simp: EMPTY_def)
  obtain t where t: "t < length cs" "RDMA_get sz (map r_elements cs) g k =
    Some (if in_rbucket (cs ! t) (rhome (cs ! t) 1 k) k \<or> in_rbucket (cs ! t) (client_home sz k) k then R_TRUE else R_FALSE,
      snd (fastrand g))" using get_eq [OF assms(1) reps assms(3) k(1)] by blast
  have rep: "replica sz (cs ! t)" using reps t(1) by simp
  have "\<not> in_rbucket (cs ! t) (rhome (cs ! t) 1 k) k" using assms(5) t(1) by (simp add: list_all_length)
  moreover have "rhome (cs ! t) 2 k \<noteq> client_home sz k"
    using assms(6) rep by (auto simp: rhome_two client_home_def word_uint_eq_iff)
  then have "\<not> in_rbucket (cs ! t) (client_home sz k) k"
    using in_bucket_home [OF rep k(2), of "client_home sz k"] secondary_index(2,3) [OF assms(1), of k] rep calculation
    by (auto simp: replica_def)
  ultimately show ?thesis using t(2) by simp
qed

theorem rdma_get_misses_witness:
  "RDMA_get 3 [r_elements demo_table] 99 4 = Some (R_FALSE, snd (fastrand 99)) \<and> rmap demo_table 4 = Some 5"
proof -
  have "U_secondary_hash 4 mod word_of_int 3 \<noteq> R_secondary_hash 4 mod word_of_int 3" by code_simp
  moreover have "list_all (\<lambda>s. nkey (rcell demo_table (rhome demo_table 1 4) s) \<noteq> 4) entries" by code_simp
  then have "\<not> in_rbucket demo_table (rhome demo_table 1 4) 4"
    unfolding in_rbucket_def list_all_iff Ball_def set_entries by blast
  ultimately show ?thesis using rdma_get_misses [of 3 "[demo_table]" 4 99] demo_table_ok
    by (simp add: fits_sz_def int_max_def domIff)
qed

text \<open>C32: a call of \<open>insert\<close> of a client that is alone: if the lock word of the key's bucket is 0 on
  every server, each server receives the node once and the answer is TRUE; if it is 1 on some server, no server
  receives anything and the answer is ABORT_FAILURE.  The memory of the servers is as before in both
  cases.\<close>

theorem rdma_insert_all_or_nothing:
  assumes "fits_sz sz" "list_all (replica sz) cs" "cs \<noteq> []" "0 \<le> sint k" "length boxes = length cs"
    and "list_all (\<lambda>c. lock_word c (lock_bucket sz k) \<in> {0, 1}) cs"
  shows "RDMA_insert sz (map r_elements cs) boxes g (k, v) =
    Some (if list_all (\<lambda>c. lock_word c (lock_bucket sz k) = 0) cs
      then (R_TRUE, map r_elements cs, map (\<lambda>b. b @ [[Node_new k v]]) boxes, snd (fastrand g))
      else (R_ABORT_FAILURE, map r_elements cs, boxes, snd (fastrand g)))"
  using insert_eq [of sz cs k boxes g v] assms by (simp add: list_all_iff)

theorem rdma_insert_all_or_nothing_witness:
  "RDMA_insert 3 [r_elements demo_table, r_elements (set_lock demo_table 2 1)] [[], []] 99 (5, 6) =
    Some (R_ABORT_FAILURE, [r_elements demo_table, r_elements (set_lock demo_table 2 1)], [[], []], snd (fastrand 99))"
proof -
  have b: "lock_bucket 3 5 = 2" by code_simp
  have "lock_word demo_table 2 = 0" by code_simp
  moreover have "lock_word (set_lock demo_table 2 1) 2 = 1" by code_simp
  ultimately show ?thesis
    using rdma_insert_all_or_nothing [of 3 "[demo_table, set_lock demo_table 2 1]" 5 "[[], []]" 99 6]
      demo_table_ok(1) set_lock_keeps(1) [OF demo_table_ok(1), of 2 1] b by (simp add: fits_sz_def int_max_def)
qed

text \<open>\<open>insert\<close> of several elements, all locks free: two elements of one lock bucket make it abort, since the
  client meets its own lock.  Otherwise, unless there are at least three elements and at least as many servers, it
  reads or sends outside its arrays; and if it succeeds, only the first servers, as many as there are elements, receive
  a message, of only the first three elements.\<close>

theorem rdma_multi_insert:
  assumes "fits_sz sz" "list_all (replica sz) cs" "cs \<noteq> []" "length boxes = length cs" "elems \<noteq> []"
    and "list_all (\<lambda>e. 0 \<le> sint (fst e) \<and> list_all (\<lambda>c. lock_word c (lock_bucket sz (fst e)) = 0) cs) elems"
  shows "\<exists>g'. RDMA_insert_all sz (map r_elements cs) boxes g elems =
    (if some_repeat sz (map fst elems) then Some (R_ABORT_FAILURE, map r_elements cs, boxes, g')
     else if length elems < 3 \<or> length cs < length elems then None
     else Some (R_TRUE, map r_elements cs,
       map (\<lambda>b. b @ [map (\<lambda>e. Node_new (fst e) (snd e)) (take 3 elems)]) (take (length elems) boxes) @ drop (length elems) boxes, g'))"
  using assms by (intro insert_all_eq) (auto simp: list_all_iff list_all_length free_lock_def)

theorem rdma_multi_insert_witness:
  "(\<exists>g'. RDMA_insert_all 3 [r_elements demo_table] [[]] 99 [(4, 1), (7, 2)] =
     Some (R_ABORT_FAILURE, [r_elements demo_table], [[]], g')) \<and>
   RDMA_insert_all 3 [r_elements demo_table] [[]] 99 [(4, 1)] = None"
proof -
  have w: "lock_word demo_table 1 = 0" by code_simp
  have b: "lock_bucket 3 4 = 1" "lock_bucket 3 7 = 1" by code_simp+
  have "some_repeat 3 [4, 7]" "\<not> some_repeat 3 [4]" using b by (simp_all add: some_repeat_def)
  with rdma_multi_insert [of 3 "[demo_table]" "[[]]" "[(4, 1), (7, 2)]" 99] rdma_multi_insert [of 3 "[demo_table]" "[[]]" "[(4, 1)]" 99]
  show ?thesis using demo_table_ok(1) w b by (simp add: fits_sz_def int_max_def)
qed

end
