(* ===== verification/Bench.thy ===== *)
theory Bench
  imports SetObject LazyList RCuckoo "HOL-Library.Signed_Division"
begin

text \<open>
  The load generators: the loop that each thread of the cuckoo table's test runs
  (CuckooHash/Parallelize.cpp), those of the clients of the two stores (App/Client.cpp of both), their
  counters (Benchmark.hpp) and what the programs report.

  \<open>draw d seed\<close> stands for the library's \<open>(int)(d * ((double)rand_r(seed)/((double)(m)+1.0)))\<close> and the
  new seed; the draw lies between 0 and d - 1 for a positive d.  The store that a loop works on is a parameter too,
  one step function per loop.  A loop runs until another thread sets \<open>stop\<close>, so the number of its rounds is
  arbitrary.
\<close>

subsection \<open>Random numbers and counters\<close>

type_synonym draw = "int \<Rightarrow> u32 \<Rightarrow> int \<times> u32"

definition draw_ok :: "draw \<Rightarrow> bool" where
  "draw_ok draw \<longleftrightarrow> (\<forall>d g. 0 < d \<longrightarrow> 0 \<le> fst (draw d g) \<and> fst (draw d g) < d)"

function rand_range_loop :: "draw \<Rightarrow> int \<Rightarrow> int \<Rightarrow> u32 \<Rightarrow> (int \<times> u32) option" where
  "rand_range_loop draw r v seed =
     (case draw (if int_max > r then r else int_max) seed of (x, seed) \<Rightarrow>
      case as_int (v + (1 + x)) of
        None \<Rightarrow> None
      | Some v \<Rightarrow> if r - int_max > 0 then rand_range_loop draw (r - int_max) v seed else Some (v, seed))"
  by pat_completeness auto
termination by (relation "measure (\<lambda>(draw, r, v, seed). nat r)") (auto simp: int_max_def)

declare rand_range_loop.simps [simp del]

definition rand_range_re :: "draw \<Rightarrow> u32 \<Rightarrow> int \<Rightarrow> (int \<times> u32) option" where
  "rand_range_re draw seed r = rand_range_loop draw r 0 seed"

record thread_benchmark =
  b_first :: int
  b_range :: int
  b_update :: int
  b_alternate :: int
  b_effective :: int
  nb_add :: u64
  nb_added :: u64
  nb_remove :: u64
  nb_removed :: u64
  nb_contains :: u64
  nb_found :: u64
  nb_aborted :: u64
  b_seed :: u32

definition thread_benchmark_new :: "int \<Rightarrow> int \<Rightarrow> int \<Rightarrow> int \<Rightarrow> int \<Rightarrow> u32 \<Rightarrow> thread_benchmark" where
  "thread_benchmark_new first r update alternate effective seed =
     \<lparr>b_first = first, b_range = r, b_update = update, b_alternate = alternate, b_effective = effective,
      nb_add = 0, nb_added = 0, nb_remove = 0, nb_removed = 0, nb_contains = 0, nb_found = 0, nb_aborted = 0,
      b_seed = seed\<rparr>"

text \<open>The locals of a loop, with the store.\<close>

record 's txs =
  tx_unext :: bool
  tx_last :: int
  tx_data :: thread_benchmark
  tx_store :: 's

definition bench_rand :: "draw \<Rightarrow> thread_benchmark \<Rightarrow> int \<Rightarrow> (int \<times> thread_benchmark) option" where
  "bench_rand draw b r =
     do { (v, seed) \<leftarrow> rand_range_re draw (b_seed b) r; Some (v, b\<lparr>b_seed := seed\<rparr>) }"

text \<open>\<open>rand_range_re(&data->seed, data->range - 1) + 1\<close>\<close>

definition rand_val :: "draw \<Rightarrow> thread_benchmark \<Rightarrow> (int \<times> thread_benchmark) option" where
  "rand_val draw b = do { (v, b) \<leftarrow> bench_rand draw b (b_range b - 1); v \<leftarrow> as_int (v + 1); Some (v, b) }"

definition rand_update :: "draw \<Rightarrow> thread_benchmark \<Rightarrow> (bool \<times> thread_benchmark) option" where
  "rand_update draw b = do { (v, b) \<leftarrow> bench_rand draw b 100; Some (v - 1 < b_update b, b) }"

definition next_update :: "draw \<Rightarrow> thread_benchmark \<Rightarrow> (bool \<times> thread_benchmark) option" where
  "next_update draw b =
     (if b_effective b \<noteq> 0
      then Some (100 * (nb_added b + nb_removed b) < word_of_int (b_update b) * (nb_add b + nb_remove b + nb_contains b), b)
      else rand_update draw b)"

definition read_val :: "draw \<Rightarrow> int \<Rightarrow> thread_benchmark \<Rightarrow> (int \<times> int \<times> thread_benchmark) option" where
  "read_val draw prev b =
     (if b_alternate b \<noteq> 0 then
        (if b_update b = 0 then
           (if prev < 0 then Some (b_first b, b_first b, b)
            else do { (v, b) \<leftarrow> rand_val draw b; Some (v, -1, b) })
         else (if prev < 0 then do { (v, b) \<leftarrow> rand_val draw b; Some (v, prev, b) }
               else Some (prev, prev, b)))
      else do { (v, b) \<leftarrow> rand_val draw b; Some (v, prev, b) })"

subsection \<open>The loop over the cuckoo table\<close>

type_synonym 's set_step = "'s \<Rightarrow> u32 set_op \<Rightarrow> (bool \<times> 's) option"

definition local_remove :: "draw \<Rightarrow> 's set_step \<Rightarrow> thread_benchmark \<Rightarrow> 's txs \<Rightarrow> 's txs option" where
  "local_remove draw step b t =
     (if b_alternate b \<noteq> 0 then
        do { (r, s) \<leftarrow> step (tx_store t) (Remove (word_of_int (tx_last t)));
             let b = (if r then b\<lparr>nb_removed := nb_removed b + 1\<rparr> else b);
             Some (t\<lparr>tx_data := b\<lparr>nb_remove := nb_remove b + 1\<rparr>, tx_last := -1, tx_store := s\<rparr>) }
      else
        do { (v, b) \<leftarrow> rand_val draw b;
             (r, s) \<leftarrow> step (tx_store t) (Remove (word_of_int v));
             let b = (if r then b\<lparr>nb_removed := nb_removed b + 1\<rparr> else b);
             Some (t\<lparr>tx_data := b\<lparr>nb_remove := nb_remove b + 1\<rparr>, tx_last := (if r then -1 else tx_last t), tx_store := s\<rparr>) })"

definition local_write :: "draw \<Rightarrow> 's set_step \<Rightarrow> 's txs \<Rightarrow> 's txs option" where
  "local_write draw step t =
     do { (z, b) \<leftarrow> bench_rand draw (tx_data t) (b_range (tx_data t));
          if z smod 100 < 60 then
            do { (v, b) \<leftarrow> rand_val draw b;
                 (r, s) \<leftarrow> step (tx_store t) (Insert (word_of_int v));
                 let b = (if r then b\<lparr>nb_added := nb_added b + 1\<rparr> else b);
                 Some (t\<lparr>tx_data := b\<lparr>nb_add := nb_add b + 1\<rparr>, tx_last := (if r then v else tx_last t), tx_store := s\<rparr>) }
          else local_remove draw step b t }"

definition local_read :: "draw \<Rightarrow> 's set_step \<Rightarrow> 's txs \<Rightarrow> 's txs option" where
  "local_read draw step t =
     do { (v, prev, b) \<leftarrow> read_val draw (tx_last t) (tx_data t);
          (r, s) \<leftarrow> step (tx_store t) (Contains (word_of_int v));
          let b = (if r then b\<lparr>nb_found := nb_found b + 1\<rparr> else b);
          Some (t\<lparr>tx_data := b\<lparr>nb_contains := nb_contains b + 1\<rparr>, tx_last := prev, tx_store := s\<rparr>) }"

definition then_next :: "draw \<Rightarrow> 's txs \<Rightarrow> 's txs option" where
  "then_next draw t = do { (u, b) \<leftarrow> next_update draw (tx_data t); Some (t\<lparr>tx_unext := u, tx_data := b\<rparr>) }"

definition local_tx :: "draw \<Rightarrow> 's set_step \<Rightarrow> 's txs \<Rightarrow> 's txs option" where
  "local_tx draw step t =
     do { t \<leftarrow> (if tx_unext t then local_write draw step t else local_read draw step t); then_next draw t }"

definition start_txs :: "draw \<Rightarrow> thread_benchmark \<Rightarrow> 's \<Rightarrow> 's txs option" where
  "start_txs draw b s =
     do { (u, b) \<leftarrow> rand_update draw b; Some \<lparr>tx_unext = u, tx_last = -1, tx_data = b, tx_store = s\<rparr> }"

text \<open>n rounds of a loop with the given body\<close>

fun rounds :: "('s txs \<Rightarrow> 's txs option) \<Rightarrow> nat \<Rightarrow> 's txs \<Rightarrow> 's txs option" where
  "rounds body 0 t = Some t"
| "rounds body (Suc n) t = do { t \<leftarrow> body t; rounds body n t }"

definition execute_local_txs :: "draw \<Rightarrow> 's set_step \<Rightarrow> nat \<Rightarrow> thread_benchmark \<Rightarrow> 's \<Rightarrow> 's txs option" where
  "execute_local_txs draw step n b s = do { t \<leftarrow> start_txs draw b s; rounds (local_tx draw step) n t }"

subsection \<open>The client of the distributed store\<close>

type_synonym 's insert_fun = "'s \<Rightarrow> int \<Rightarrow> int \<Rightarrow> (RESULT \<times> 's) option"
type_synonym 's get_fun = "'s \<Rightarrow> int \<Rightarrow> (RESULT \<times> 's) option"

definition note_insert :: "RESULT \<Rightarrow> thread_benchmark \<Rightarrow> thread_benchmark" where
  "note_insert r b =
     (if r = TRUE then b\<lparr>nb_added := nb_added b + 1\<rparr>
      else if r = ABORT_FAILURE then b\<lparr>nb_aborted := nb_aborted b + 1\<rparr> else b)"

definition note_get :: "RESULT \<Rightarrow> thread_benchmark \<Rightarrow> thread_benchmark" where
  "note_get r b =
     (if r = TRUE then b\<lparr>nb_found := nb_found b + 1\<rparr>
      else if r = ABORT_FAILURE then b\<lparr>nb_aborted := nb_aborted b + 1\<rparr> else b)"

definition client_write :: "draw \<Rightarrow> 's insert_fun \<Rightarrow> 's txs \<Rightarrow> 's txs option" where
  "client_write draw ins t =
     do { (v, b) \<leftarrow> rand_val draw (tx_data t);
          (v2, b) \<leftarrow> rand_val draw b;
          (r, s) \<leftarrow> ins (tx_store t) v v2;
          let b = note_insert r b;
          Some (t\<lparr>tx_data := b\<lparr>nb_add := nb_add b + 1\<rparr>, tx_last := (if r = TRUE then v else tx_last t), tx_store := s\<rparr>) }"

definition client_read :: "draw \<Rightarrow> 's get_fun \<Rightarrow> 's txs \<Rightarrow> 's txs option" where
  "client_read draw get t =
     do { (v, prev, b) \<leftarrow> read_val draw (tx_last t) (tx_data t);
          (r, s) \<leftarrow> get (tx_store t) v;
          let b = note_get r b;
          Some (t\<lparr>tx_data := b\<lparr>nb_contains := nb_contains b + 1\<rparr>, tx_last := prev, tx_store := s\<rparr>) }"

definition client_tx :: "draw \<Rightarrow> 's insert_fun \<Rightarrow> 's get_fun \<Rightarrow> 's txs \<Rightarrow> 's txs option" where
  "client_tx draw ins get t =
     do { t \<leftarrow> (if tx_unext t then client_write draw ins t else client_read draw get t); then_next draw t }"

definition execute_remote_txs :: "draw \<Rightarrow> 's insert_fun \<Rightarrow> 's get_fun \<Rightarrow> nat \<Rightarrow> thread_benchmark \<Rightarrow> 's \<Rightarrow> 's txs option" where
  "execute_remote_txs draw ins get n b s = do { t \<leftarrow> start_txs draw b s; rounds (client_tx draw ins get) n t }"

subsection \<open>The client of the RDMA store\<close>

type_synonym 's rinsert_fun = "'s \<Rightarrow> int \<Rightarrow> int \<Rightarrow> (RRESULT \<times> 's) option"
type_synonym 's rget_fun = "'s \<Rightarrow> int \<Rightarrow> (RRESULT \<times> 's) option"

text \<open>With a last value, three random elements are put in a vector, but the first alone is inserted.\<close>

definition rdma_write :: "draw \<Rightarrow> 's rinsert_fun \<Rightarrow> 's txs \<Rightarrow> 's txs option" where
  "rdma_write draw ins t =
     (let b = tx_data t in
      if tx_last t < 0 then
        do { (v, b) \<leftarrow> bench_rand draw b (b_range b);
             (r, s) \<leftarrow> ins (tx_store t) v v;
             let b = (if r = R_TRUE then b\<lparr>nb_added := nb_added b + 1\<rparr>
                      else if r = R_ABORT_FAILURE then b\<lparr>nb_aborted := nb_aborted b + 1\<rparr> else b);
             Some (t\<lparr>tx_data := b\<lparr>nb_add := nb_add b + 1\<rparr>, tx_last := (if r = R_TRUE then v else tx_last t), tx_store := s\<rparr>) }
      else
        do { (v, b) \<leftarrow> bench_rand draw b (b_range b);
             (v2, b) \<leftarrow> bench_rand draw b (b_range b);
             (v3, b) \<leftarrow> bench_rand draw b (b_range b);
             (r, s) \<leftarrow> ins (tx_store t) v v;
             let b = (if r = R_TRUE then b\<lparr>nb_removed := nb_removed b + 3\<rparr>
                      else if r = R_ABORT_FAILURE then b\<lparr>nb_aborted := nb_aborted b + 1\<rparr> else b);
             Some (t\<lparr>tx_data := b\<lparr>nb_remove := nb_remove b + 3\<rparr>, tx_last := (if r = R_TRUE then -1 else tx_last t), tx_store := s\<rparr>) })"

definition rdma_read_tx :: "draw \<Rightarrow> 's rget_fun \<Rightarrow> 's txs \<Rightarrow> 's txs option" where
  "rdma_read_tx draw get t =
     do { (v, b) \<leftarrow> bench_rand draw (tx_data t) (b_range (tx_data t));
          (r, s) \<leftarrow> get (tx_store t) v;
          let b = (if r = R_TRUE then b\<lparr>nb_found := nb_found b + 1\<rparr>
                   else if r = R_ABORT_FAILURE then b\<lparr>nb_aborted := nb_aborted b + 1\<rparr> else b);
          Some (t\<lparr>tx_data := b\<lparr>nb_contains := nb_contains b + 1\<rparr>, tx_store := s\<rparr>) }"

definition rdma_tx :: "draw \<Rightarrow> 's rinsert_fun \<Rightarrow> 's rget_fun \<Rightarrow> 's txs \<Rightarrow> 's txs option" where
  "rdma_tx draw ins get t =
     do { t \<leftarrow> (if tx_unext t then rdma_write draw ins t else rdma_read_tx draw get t); then_next draw t }"

definition rdma_execute_txs :: "draw \<Rightarrow> 's rinsert_fun \<Rightarrow> 's rget_fun \<Rightarrow> nat \<Rightarrow> thread_benchmark \<Rightarrow> 's \<Rightarrow> 's txs option" where
  "rdma_execute_txs draw ins get n b s = do { t \<leftarrow> start_txs draw b s; rounds (rdma_tx draw ins get) n t }"

subsection \<open>A run and its report\<close>

definition spawn_data :: "nat \<Rightarrow> (u32 \<Rightarrow> thread_benchmark) \<Rightarrow> (nat \<Rightarrow> u32) \<Rightarrow> (int \<times> thread_benchmark) list" where
  "spawn_data n new_benchmark seeds = map (\<lambda>i. (int i, new_benchmark (seeds i))) [0..<n]"

record timespec =
  tv_sec :: int
  tv_nsec :: int

definition timeout_of :: "int \<Rightarrow> timespec" where
  "timeout_of duration = \<lparr>tv_sec = duration sdiv 1000, tv_nsec = (duration smod 1000) * 1000000\<rparr>"

text \<open>Milliseconds between two times of day, each in seconds and microseconds\<close>

definition test_duration :: "int \<times> int \<Rightarrow> int \<times> int \<Rightarrow> int" where
  "test_duration start stop = (fst stop * 1000 + snd stop sdiv 1000) - (fst start * 1000 + snd start sdiv 1000)"

record totals =
  t_reads :: u64
  t_effreads :: u64
  t_updates :: u64
  t_effupds :: u64
  t_aborted :: u64
  t_size :: u64

definition totals_add :: "totals \<Rightarrow> thread_benchmark \<Rightarrow> totals" where
  "totals_add t b =
     \<lparr>t_reads = t_reads t + nb_contains b,
      t_effreads = t_effreads t + (nb_contains b + (nb_add b - nb_added b) + (nb_remove b - nb_removed b)),
      t_updates = t_updates t + (nb_add b + nb_remove b),
      t_effupds = t_effupds t + (nb_removed b + nb_added b),
      t_aborted = t_aborted t + nb_aborted b,
      t_size = t_size t + (nb_added b - nb_removed b)\<rparr>"

fun totals_loop :: "thread_benchmark list \<Rightarrow> int list \<Rightarrow> totals \<Rightarrow> totals option" where
  "totals_loop bs [] t = Some t"
| "totals_loop bs (i # is) t = do { b \<leftarrow> at bs i; totals_loop bs is (totals_add t b) }"

definition totals_zero :: "u64 \<Rightarrow> totals" where
  "totals_zero n = \<lparr>t_reads = 0, t_effreads = 0, t_updates = 0, t_effupds = 0, t_aborted = 0, t_size = n\<rparr>"

text \<open>The loop of the test and of the RDMA client runs over all threads; the client of the distributed store has
  \<open>nb_threads = 1\<close>.\<close>

definition test_totals :: "int \<Rightarrow> nat \<Rightarrow> thread_benchmark list \<Rightarrow> totals option" where
  "test_totals set_size nb_threads bs = totals_loop bs (map int [0..<nb_threads]) (totals_zero (word_of_int set_size))"

definition client_totals :: "thread_benchmark list \<Rightarrow> totals option" where
  "client_totals bs = totals_loop bs (map int [0..<1]) (totals_zero 0)"

definition rdma_totals :: "thread_benchmark list \<Rightarrow> totals option" where
  "rdma_totals bs = totals_loop bs (map int [0..<length bs]) (totals_zero 0)"

text \<open>The numbers printed after the totals, without the rates per second: all transactions, the reads, and the
  updates, each counted by effect or by kind of call.\<close>

record report =
  rep_txs :: u64
  rep_reads :: u64
  rep_contains :: "u64 option"
  rep_updates :: u64
  rep_trials :: "u64 option"

definition client_report :: "int \<Rightarrow> totals \<Rightarrow> report" where
  "client_report effective t =
     \<lparr>rep_txs = t_reads t + t_updates t,
      rep_reads = (if effective \<noteq> 0 then t_effreads t else t_reads t),
      rep_contains = (if effective \<noteq> 0 then Some (t_reads t) else None),
      rep_updates = (if effective \<noteq> 0 then t_effupds t else t_updates t),
      rep_trials = (if effective \<noteq> 0 then Some (t_updates t) else None)\<rparr>"

subsection \<open>Several threads\<close>

text \<open>The threads of the test work on one table; \<open>js\<close> says whose round is next.\<close>

fun local_threads :: "draw \<Rightarrow> 's set_step \<Rightarrow> nat list \<Rightarrow> 's txs list \<Rightarrow> 's \<Rightarrow> ('s txs list \<times> 's) option" where
  "local_threads draw step [] ts s = Some (ts, s)"
| "local_threads draw step (j # js) ts s =
     (if j < length ts then
        do { t \<leftarrow> local_tx draw step ((ts ! j)\<lparr>tx_store := s\<rparr>);
             local_threads draw step js (ts[j := t]) (tx_store t) }
      else None)"

fun start_threads :: "draw \<Rightarrow> (int \<times> thread_benchmark) list \<Rightarrow> 's \<Rightarrow> 's txs list option" where
  "start_threads draw [] s = Some []"
| "start_threads draw (b # bs) s =
     do { t \<leftarrow> start_txs draw (snd b) s; ts \<leftarrow> start_threads draw bs s; Some (t # ts) }"

subsection \<open>Options\<close>

record config =
  c_duration :: int
  c_initial :: int
  c_threads :: int
  c_range :: int
  c_seed :: int
  c_update :: int
  c_unit_tx :: int
  c_alternate :: int
  c_effective :: int

definition default_config :: config where
  "default_config = \<lparr>c_duration = 10000, c_initial = 256, c_threads = 1, c_range = 0x7FFFFFFF, c_seed = 0,
     c_update = 20, c_unit_tx = 2, c_alternate = 0, c_effective = 1\<rparr>"

datatype 'a parsed = Parsed 'a | Exited int

text \<open>The options of the test as \<open>getopt_long\<close> delivers them; \<open>num\<close> is the library's \<open>atoi\<close> and
  \<open>atol\<close>.\<close>

fun test_options :: "(string \<Rightarrow> int) \<Rightarrow> (char \<times> string) list \<Rightarrow> config \<Rightarrow> config parsed" where
  "test_options num [] c = Parsed c"
| "test_options num ((o1, arg) # os) c =
     (if o1 = CHR ''h'' then Exited 0
      else if o1 = CHR ''A'' then test_options num os (c\<lparr>c_alternate := 1\<rparr>)
      else if o1 = CHR ''f'' then test_options num os (c\<lparr>c_effective := num arg\<rparr>)
      else if o1 = CHR ''d'' then test_options num os (c\<lparr>c_duration := num arg\<rparr>)
      else if o1 = CHR ''i'' then test_options num os (c\<lparr>c_initial := num arg\<rparr>)
      else if o1 = CHR ''t'' then test_options num os (c\<lparr>c_threads := num arg\<rparr>)
      else if o1 = CHR ''r'' then test_options num os (c\<lparr>c_range := num arg\<rparr>)
      else if o1 = CHR ''S'' then test_options num os (c\<lparr>c_seed := num arg\<rparr>)
      else if o1 = CHR ''u'' then test_options num os (c\<lparr>c_update := num arg\<rparr>)
      else if o1 = CHR ''?'' then Exited 0
      else Exited 1)"

definition test_config_ok :: "config \<Rightarrow> bool" where
  "test_config_ok c \<longleftrightarrow> 0 \<le> c_duration c \<and> 0 \<le> c_initial c \<and> 0 < c_threads c \<and>
     (0 < c_range c \<and> c_initial c \<le> c_range c) \<and> (0 \<le> c_update c \<and> c_update c \<le> 100)"

text \<open>The options of the two clients; others are ignored.\<close>

fun client_options :: "(string \<Rightarrow> int) \<Rightarrow> (char \<times> string) list \<Rightarrow> config \<Rightarrow> config" where
  "client_options num [] c = c"
| "client_options num ((o1, arg) # os) c =
     client_options num os
       (if o1 = CHR ''d'' then c\<lparr>c_duration := num arg\<rparr>
        else if o1 = CHR ''r'' then c\<lparr>c_range := num arg\<rparr>
        else if o1 = CHR ''u'' then c\<lparr>c_update := num arg\<rparr>
        else c)"

fun rdma_options :: "(string \<Rightarrow> int) \<Rightarrow> (char \<times> string) list \<Rightarrow> config \<Rightarrow> config" where
  "rdma_options num [] c = c"
| "rdma_options num ((o1, arg) # os) c =
     rdma_options num os
       (if o1 = CHR ''d'' then c\<lparr>c_duration := num arg\<rparr>
        else if o1 = CHR ''r'' then c\<lparr>c_range := num arg\<rparr>
        else if o1 = CHR ''u'' then c\<lparr>c_update := num arg\<rparr>
        else if o1 = CHR ''A'' then c\<lparr>c_alternate := 1\<rparr>
        else if o1 = CHR ''f'' then c\<lparr>c_effective := num arg\<rparr>
        else c)"

subsection \<open>The whole test\<close>

text \<open>Filling the table; \<open>rnd\<close> is the library's \<open>rand\<close> on its state.  Nothing bounds the number of tries.\<close>

fun populate :: "('r \<Rightarrow> int \<times> 'r) \<Rightarrow> 's set_step \<Rightarrow> int \<Rightarrow> int \<Rightarrow> nat \<Rightarrow> int \<Rightarrow> int \<Rightarrow> 'r \<Rightarrow> 's \<Rightarrow> (int \<times> 'r \<times> 's) outcome" where
  "populate rnd step r initial 0 i prev g s = No_fuel"
| "populate rnd step r initial (Suc fuel) i prev g s =
     (if i < initial then
        (case rnd g of (z, g) \<Rightarrow>
           if r = 0 then Fault
           else case as_int (z smod r + 1) of
             None \<Rightarrow> Fault
           | Some v \<Rightarrow>
               (case step s (Insert (word_of_int v)) of
                  None \<Rightarrow> Fault
                | Some (b, s) \<Rightarrow>
                    if b then populate rnd step r initial fuel (i + 1) v g s
                    else populate rnd step r initial fuel i prev g s))
      else Done (prev, g, s))"

text \<open>Fill the table, let the threads work on it in some interleaving, add up their counters.\<close>

definition test_run :: "draw \<Rightarrow> ('r \<Rightarrow> int \<times> 'r) \<Rightarrow> 's set_step \<Rightarrow> ('s \<Rightarrow> int) \<Rightarrow> nat \<Rightarrow> nat list \<Rightarrow> config \<Rightarrow> (nat \<Rightarrow> u32) \<Rightarrow> 'r \<Rightarrow> 's \<Rightarrow>
    (totals \<times> 's) outcome" where
  "test_run draw rnd step size_of fuel js c seeds g s =
     (case populate rnd step (c_range c) (c_initial c) fuel 0 0 g s of
        Fault \<Rightarrow> Fault
      | No_fuel \<Rightarrow> No_fuel
      | Done (first, g, s) \<Rightarrow>
          (case (do { ts \<leftarrow> start_threads draw (spawn_data (nat (c_threads c))
                        (thread_benchmark_new first (c_range c) (c_update c) (c_alternate c) (c_effective c)) seeds) s;
                      (ts, s') \<leftarrow> local_threads draw step js ts s;
                      t \<leftarrow> test_totals (size_of s) (nat (c_threads c)) (map tx_data ts);
                      Some (t, s') }) of
             None \<Rightarrow> Fault
           | Some x \<Rightarrow> Done x))"

end
