(* ===== verification/BenchCorrect.thy ===== *)
theory BenchCorrect
  imports Bench CuckooCorrect
begin

text \<open>
  What the load generators count: random numbers are in range, the counters of the threads of the test add up
  to the change of the table's size, the rate of successful updates stays below the requested one, and what the
  programs print is consistent.
\<close>

subsection \<open>Random numbers\<close>

lemma rand_range_ok:
  assumes "draw_ok draw" "1 \<le> r" "r \<le> int_max"
  shows "\<exists>v g'. rand_range_re draw g r = Some (v, g') \<and> 1 \<le> v \<and> v \<le> r"
proof -
  have x: "0 \<le> fst (draw r g)" "fst (draw r g) < r" using assms(1,2) by (auto simp: draw_ok_def)
  have "(if int_max > r then r else int_max) = r" using assms(3) by simp
  then have "rand_range_re draw g r = Some (1 + fst (draw r g), snd (draw r g))"
    using x assms(2,3) by (simp add: rand_range_re_def rand_range_loop.simps [of draw r] split_def exec_simps)
  with x show ?thesis by auto
qed

text \<open>What the calls of a loop leave alone: all but the seed\<close>

definition same_counts :: "thread_benchmark \<Rightarrow> thread_benchmark \<Rightarrow> bool" where
  "same_counts b b' \<longleftrightarrow> (\<exists>g. b' = b\<lparr>b_seed := g\<rparr>)"

lemma same_counts_trans: "same_counts a b \<Longrightarrow> same_counts b c \<Longrightarrow> same_counts a c"
  by (auto simp: same_counts_def)

lemma same_counts_refl [simp]: "same_counts b b"
  unfolding same_counts_def by (rule exI [of _ "b_seed b"]) simp

lemma bench_rand_same: "bench_rand draw b r = Some (v, b') \<Longrightarrow> same_counts b b'"
  by (auto simp: bench_rand_def same_counts_def)

lemma rand_val_same: "rand_val draw b = Some (v, b') \<Longrightarrow> same_counts b b'"
  by (auto simp: rand_val_def dest: bench_rand_same)

lemma rand_update_same: "rand_update draw b = Some (u, b') \<Longrightarrow> same_counts b b'"
  by (auto simp: rand_update_def dest: bench_rand_same)

lemma next_update_same: "next_update draw b = Some (u, b') \<Longrightarrow> same_counts b b'"
  by (auto simp: next_update_def dest: rand_update_same split: if_splits)

lemma read_val_same: "read_val draw l b = Some (v, l', b') \<Longrightarrow> same_counts b b'"
  by (auto simp: read_val_def dest: rand_val_same split: if_splits)

lemma rand_val_range:
  assumes "draw_ok draw" "2 \<le> b_range b" "b_range b \<le> int_max" "rand_val draw b = Some (v, b')"
  shows "1 \<le> v" "v \<le> int_max"
proof -
  obtain w g where "rand_range_re draw (b_seed b) (b_range b - 1) = Some (w, g)" "1 \<le> w" "w \<le> b_range b - 1"
    using rand_range_ok [OF assms(1), of "b_range b - 1" "b_seed b"] assms(2,3) by auto
  with assms show "1 \<le> v" "v \<le> int_max" by (auto simp: rand_val_def bench_rand_def as_int_def split: if_splits)
qed

subsection \<open>The size of the table\<close>

definition usable :: "int \<Rightarrow> bool" where
  "usable v \<longleftrightarrow> v = -1 \<or> 1 \<le> v \<and> v \<le> int_max"

definition txs_ok :: "'s txs \<Rightarrow> bool" where
  "txs_ok t \<longleftrightarrow> usable (tx_last t) \<and> usable (b_first (tx_data t)) \<and>
     2 \<le> b_range (tx_data t) \<and> b_range (tx_data t) \<le> int_max"

lemma usable_word: "usable v \<Longrightarrow> (word_of_int v :: u32) \<noteq> EMPTY"
proof -
  assume u: "usable v"
  have "(word_of_int v :: u32) = 0 \<longleftrightarrow> v mod 4294967296 = 0" by (simp add: word_of_int_eq_0_iff dvd_eq_mod_eq_0)
  moreover have "v mod 4294967296 \<noteq> 0" using u zdvd_imp_le [of 4294967296 v] by (auto simp: usable_def int_max_def)
  ultimately show ?thesis by (simp add: EMPTY_def)
qed

lemma read_val_usable:
  assumes "draw_ok draw" "usable l" "usable (b_first b)" "2 \<le> b_range b" "b_range b \<le> int_max"
    and "read_val draw l b = Some (v, l', b')"
  shows "usable v" "usable l'"
  using assms rand_val_range [OF assms(1,4,5)]
  by (auto simp: read_val_def usable_def split: if_splits)

definition added_size :: "thread_benchmark \<Rightarrow> u64" where
  "added_size b = nb_added b - nb_removed b"

lemma added_size_upd [simp]:
  "added_size (b\<lparr>nb_add := x\<rparr>) = added_size b"
  "added_size (b\<lparr>nb_remove := x\<rparr>) = added_size b"
  "added_size (b\<lparr>nb_aborted := x\<rparr>) = added_size b"
  "added_size (b\<lparr>nb_added := nb_added b + 1\<rparr>) = added_size b + 1"
  "added_size (b\<lparr>nb_removed := nb_removed b + 1\<rparr>) = added_size b - 1"
  by (simp_all add: added_size_def)

text \<open>The last two after the normalisation of sums\<close>

lemma added_size_upd' [simp]:
  "added_size (b\<lparr>nb_added := nb_added b + 1, nb_add := x\<rparr>) = added_size b + 1"
  "added_size (b\<lparr>nb_removed := nb_removed b + 1, nb_remove := x\<rparr>) = added_size b - 1"
  by (simp_all add: added_size_def)

text \<open>What a random number leaves as it is\<close>

definition data_ok :: "thread_benchmark \<Rightarrow> bool" where
  "data_ok b \<longleftrightarrow> usable (b_first b) \<and> 2 \<le> b_range b \<and> b_range b \<le> int_max"

lemma data_ok_same: "same_counts b b' \<Longrightarrow> data_ok b \<Longrightarrow> data_ok b' \<and> added_size b' = added_size b"
  by (auto simp: same_counts_def data_ok_def added_size_def)

lemma rand_val_ok:
  assumes "draw_ok draw" "data_ok b" "rand_val draw b = Some (v, b')"
  shows "usable v \<and> data_ok b' \<and> added_size b' = added_size b"
  using rand_val_range [OF assms(1) _ _ assms(3)] data_ok_same [OF rand_val_same [OF assms(3)] assms(2)] assms(2)
  by (auto simp: data_ok_def usable_def)

lemma sum_list_replace:
  "k < length xs \<Longrightarrow> sum_list (xs[k := x]) = sum_list xs + x - (xs ! k :: 'a :: ab_group_add)"
proof (induction xs arbitrary: k)
  case (Cons y xs)
  then show ?case by (cases k) (simp_all add: algebra_simps)
qed simp

context set_object
begin

lemma step_card:
  assumes "inv s" "allowed (operand x)" "step s x = Some (b, s')" "finite (elems s)"
  shows "inv s'" "finite (elems s')"
    "of_nat (card (elems s')) = (of_nat (card (elems s)) :: u64) +
      (case x of Insert v \<Rightarrow> if b then 1 else 0 | Remove v \<Rightarrow> if b then -1 else 0 | Contains v \<Rightarrow> 0)"
proof -
  have r: "inv s'" "(b, elems s') = spec_op x (elems s)" using step_refines [OF assms(1-3)] by simp_all
  then show "inv s'" by simp
  show "finite (elems s')" using r(2) assms(4) by (cases x) simp_all
  show "of_nat (card (elems s')) = (of_nat (card (elems s)) :: u64) +
      (case x of Insert v \<Rightarrow> if b then 1 else 0 | Remove v \<Rightarrow> if b then -1 else 0 | Contains v \<Rightarrow> 0)"
  proof (cases x)
    case (Insert v)
    have "b = (v \<notin> elems s)" "elems s' = insert v (elems s)" using r(2) Insert by simp_all
    with Insert assms(4) show ?thesis by (simp add: insert_absorb)
  next
    case (Remove v)
    have rb: "b = (v \<in> elems s)" "elems s' = elems s - {v}" using r(2) Remove by simp_all
    show ?thesis
    proof (cases "v \<in> elems s")
      case True
      then have "card (elems s) = Suc (card (elems s - {v}))" using assms(4) by (rule card.remove [rotated])
      with True rb Remove show ?thesis by simp
    next
      case False
      then have "elems s - {v} = elems s" by blast
      with False rb Remove show ?thesis by simp
    qed
  next
    case (Contains v)
    with r(2) show ?thesis by simp
  qed
qed

end

text \<open>A finite set of words that allows every value a loop uses.\<close>

locale word_set = set_object step inv elems allowed
  for step :: "'s \<Rightarrow> u32 set_op \<Rightarrow> (bool \<times> 's) option" and inv elems allowed +
  assumes finite_elems: "inv s \<Longrightarrow> finite (elems s)"
    and usable_allowed: "usable v \<Longrightarrow> allowed (word_of_int v)"
begin

definition gap :: "'s txs \<Rightarrow> u64" where
  "gap t = of_nat (card (elems (tx_store t))) - added_size (tx_data t)"

definition loop_ok :: "'s txs \<Rightarrow> bool" where
  "loop_ok t \<longleftrightarrow> txs_ok t \<and> inv (tx_store t)"

lemma local_remove_ok:
  assumes d: "draw_ok draw" and t: "loop_ok t" and b: "data_ok b" "added_size b = added_size (tx_data t)"
    and w: "local_remove draw step b t = Some t'"
  shows "loop_ok t' \<and> gap t' = gap t"
proof -
  have inv: "inv (tx_store t)" "usable (tx_last t)" using t by (simp_all add: loop_ok_def txs_ok_def)
  show ?thesis
  proof (cases "b_alternate b \<noteq> 0")
    case True
    with w obtain r s where s: "step (tx_store t) (Remove (word_of_int (tx_last t))) = Some (r, s)"
      and t': "t' = (let b = (if r then b\<lparr>nb_removed := nb_removed b + 1\<rparr> else b) in
        t\<lparr>tx_data := b\<lparr>nb_remove := nb_remove b + 1\<rparr>, tx_last := -1, tx_store := s\<rparr>)"
      by (auto simp: local_remove_def Let_def)
    from step_card [OF inv(1) _ s finite_elems [OF inv(1)]] usable_allowed inv b t' show ?thesis
      by (cases r) (simp_all add: loop_ok_def txs_ok_def gap_def usable_def data_ok_def)
  next
    case False
    with w obtain v b' r s where v: "rand_val draw b = Some (v, b')" and s: "step (tx_store t) (Remove (word_of_int v)) = Some (r, s)"
      and t': "t' = (let b = (if r then b'\<lparr>nb_removed := nb_removed b' + 1\<rparr> else b') in
        t\<lparr>tx_data := b\<lparr>nb_remove := nb_remove b + 1\<rparr>, tx_last := (if r then -1 else tx_last t), tx_store := s\<rparr>)"
      by (auto simp: local_remove_def Let_def)
    from step_card [OF inv(1) _ s finite_elems [OF inv(1)]] usable_allowed rand_val_ok [OF d b(1) v] inv b(2) t' show ?thesis
      by (cases r) (simp_all add: loop_ok_def txs_ok_def gap_def usable_def data_ok_def)
  qed
qed

lemma local_write_ok:
  assumes d: "draw_ok draw" and t: "loop_ok t"
    and w: "local_write draw step t = Some t'"
  shows "loop_ok t' \<and> gap t' = gap t"
proof -
  from w obtain z b where z: "bench_rand draw (tx_data t) (b_range (tx_data t)) = Some (z, b)" by (auto simp: local_write_def)
  have "data_ok (tx_data t)" and inv: "inv (tx_store t)" "usable (tx_last t)" using t by (simp_all add: loop_ok_def txs_ok_def data_ok_def)
  with data_ok_same [OF bench_rand_same [OF z]] have b: "data_ok b" "added_size b = added_size (tx_data t)" by simp_all
  show ?thesis
  proof (cases "z smod 100 < 60")
    case True
    with w z obtain v b' r s where v: "rand_val draw b = Some (v, b')" and s: "step (tx_store t) (Insert (word_of_int v)) = Some (r, s)"
      and t': "t' = (let b = (if r then b'\<lparr>nb_added := nb_added b' + 1\<rparr> else b') in
        t\<lparr>tx_data := b\<lparr>nb_add := nb_add b + 1\<rparr>, tx_last := (if r then v else tx_last t), tx_store := s\<rparr>)"
      by (auto simp: local_write_def Let_def)
    from step_card [OF inv(1) _ s finite_elems [OF inv(1)]] usable_allowed rand_val_ok [OF d b(1) v] inv b(2) t' show ?thesis
      by (cases r) (simp_all add: loop_ok_def txs_ok_def gap_def data_ok_def)
  next
    case False
    with w z have "local_remove draw step b t = Some t'" by (simp add: local_write_def)
    from local_remove_ok [OF d t b this] show ?thesis .
  qed
qed

lemma local_read_ok:
  assumes d: "draw_ok draw" and t: "loop_ok t"
    and w: "local_read draw step t = Some t'"
  shows "loop_ok t' \<and> gap t' = gap t"
proof -
  have b: "usable (b_first (tx_data t))" "2 \<le> b_range (tx_data t)" "b_range (tx_data t) \<le> int_max" "usable (tx_last t)"
    "inv (tx_store t)" using t by (simp_all add: loop_ok_def txs_ok_def)
  from w obtain v l b' r s where v: "read_val draw (tx_last t) (tx_data t) = Some (v, l, b')"
    and s: "step (tx_store t) (Contains (word_of_int v)) = Some (r, s)"
    and t': "t' = (let b = (if r then b'\<lparr>nb_found := nb_found b' + 1\<rparr> else b') in
        t\<lparr>tx_data := b\<lparr>nb_contains := nb_contains b + 1\<rparr>, tx_last := l, tx_store := s\<rparr>)"
    by (auto simp: local_read_def Let_def)
  note u = read_val_usable [OF d b(4,1,2,3) v]
  from step_card [OF b(5) _ s finite_elems [OF b(5)]] usable_allowed [OF u(1)] u(2) read_val_same [OF v] b t' show ?thesis
    by (cases r) (auto simp: loop_ok_def txs_ok_def gap_def added_size_def same_counts_def)
qed

lemma local_tx_ok:
  assumes d: "draw_ok draw" and t: "loop_ok t"
    and w: "local_tx draw step t = Some t'"
  shows "loop_ok t' \<and> gap t' = gap t"
proof -
  from w obtain u where u: "(if tx_unext t then local_write draw step t else local_read draw step t) = Some u"
    and n: "then_next draw u = Some t'" by (auto simp: local_tx_def)
  have "loop_ok u \<and> gap u = gap t"
    using u local_write_ok [OF d t] local_read_ok [OF d t] by (auto split: if_splits)
  moreover obtain x b where "next_update draw (tx_data u) = Some (x, b)" "t' = u\<lparr>tx_unext := x, tx_data := b\<rparr>"
    using n by (auto simp: then_next_def)
  ultimately show ?thesis using next_update_same
    by (force simp: same_counts_def loop_ok_def txs_ok_def gap_def added_size_def)
qed

lemma local_threads_ok:
  assumes d: "draw_ok draw"
    and "\<forall>t\<in>set ts. txs_ok t" "inv s" "local_threads draw step js ts s = Some (ts', s')"
  shows "inv s' \<and> length ts' = length ts \<and>
    of_nat (card (elems s')) - (\<Sum>t\<leftarrow>ts'. added_size (tx_data t)) =
      of_nat (card (elems s)) - (\<Sum>t\<leftarrow>ts. added_size (tx_data t))"
  using assms(2-4)
proof (induction js arbitrary: ts s)
  case (Cons j js)
  from Cons.prems(3) obtain t where j: "j < length ts" and t: "local_tx draw step ((ts ! j)\<lparr>tx_store := s\<rparr>) = Some t"
    and r: "local_threads draw step js (ts[j := t]) (tx_store t) = Some (ts', s')" by (auto split: if_splits)
  have "txs_ok (ts ! j)" using Cons.prems(1) j by simp
  then have "loop_ok ((ts ! j)\<lparr>tx_store := s\<rparr>)" using Cons.prems(2) by (simp add: loop_ok_def txs_ok_def)
  from local_tx_ok [OF d this t] have ok: "loop_ok t" and g: "gap t = of_nat (card (elems s)) - added_size (tx_data (ts ! j))"
    by (simp_all add: gap_def)
  have "\<forall>t\<in>set (ts[j := t]). txs_ok t"
    using Cons.prems(1) ok set_update_subset_insert [of ts j t] by (auto simp: loop_ok_def)
  from Cons.IH [OF this _ r] ok have IH: "inv s' \<and> length ts' = length ts \<and>
      of_nat (card (elems s')) - (\<Sum>t\<leftarrow>ts'. added_size (tx_data t)) =
      of_nat (card (elems (tx_store t))) - (\<Sum>t\<leftarrow>ts[j := t]. added_size (tx_data t))" by (auto simp: loop_ok_def)
  have "(\<Sum>t\<leftarrow>ts[j := t]. added_size (tx_data t)) = (\<Sum>t\<leftarrow>ts. added_size (tx_data t)) + added_size (tx_data t) - added_size (tx_data (ts ! j))"
    using sum_list_replace [of j "map (\<lambda>t. added_size (tx_data t)) ts" "added_size (tx_data t)"] j by (simp add: map_update)
  then have "of_nat (card (elems (tx_store t))) - (\<Sum>t\<leftarrow>ts[j := t]. added_size (tx_data t)) =
      gap t + added_size (tx_data (ts ! j)) - (\<Sum>t\<leftarrow>ts. added_size (tx_data t))" by (simp add: gap_def)
  also have "\<dots> = of_nat (card (elems s)) - (\<Sum>t\<leftarrow>ts. added_size (tx_data t))" unfolding g by simp
  finally show ?case using IH by simp
qed simp

lemma populate_ok:
  assumes rnd: "\<forall>g. 0 \<le> fst (rnd g)" and r: "0 < r" "r \<le> int_max"
    and "populate rnd step r initial fuel i prev g s = Done (v, g', s')"
    and "inv s" "int (card (elems s)) = i" "i \<le> initial" "0 < i \<Longrightarrow> usable prev"
  shows "inv s' \<and> int (card (elems s')) = initial \<and> (0 < initial \<longrightarrow> usable v)"
  using assms(4-)
proof (induction fuel arbitrary: i prev g s)
  case (Suc fuel)
  show ?case
  proof (cases "i < initial")
    case True
    obtain z g1 where z: "rnd g = (z, g1)" by fastforce
    have z0: "0 \<le> z" using rnd z by (metis fst_conv)
    have "z smod r = z mod r" using z0 r by (simp add: signed_modulo_int_def sgn_if)
    moreover have "0 \<le> z mod r" "z mod r < r" using pos_mod_sign [OF r(1)] pos_mod_bound [OF r(1)] by blast+
    ultimately have w: "1 \<le> z smod r + 1" "z smod r + 1 \<le> r" by linarith+
    then have int: "as_int (z smod r + 1) = Some (z smod r + 1)" and us: "usable (z smod r + 1)"
      using r by (simp_all add: exec_simps usable_def)
    from Suc.prems(1) True z int r obtain b s1 where s1: "step s (Insert (word_of_int (z smod r + 1))) = Some (b, s1)"
      and rest: "(if b then populate rnd step r initial fuel (i + 1) (z smod r + 1) g1 s1 else populate rnd step r initial fuel i prev g1 s1) = Done (v, g', s')"
      by (auto split: option.splits prod.splits)
    have sp: "inv s1" "(b, elems s1) = spec_op (Insert (word_of_int (z smod r + 1))) (elems s)"
      using step_refines [OF Suc.prems(2) _ s1] usable_allowed [OF us] by simp_all
    have fin: "finite (elems s)" using finite_elems [OF Suc.prems(2)] .
    show ?thesis
    proof (cases b)
      case True
      then have "card (elems s1) = Suc (card (elems s))" using sp(2) fin by simp
      then have "int (card (elems s1)) = i + 1" using Suc.prems(3) by simp
      with Suc.IH [of "i + 1" "z smod r + 1" g1 s1] rest True sp(1) us \<open>i < initial\<close> show ?thesis by simp
    next
      case False
      then have "elems s1 = elems s" using sp(2) by (auto simp: insert_absorb)
      with Suc.IH [of i prev g1 s1] rest False sp(1) Suc.prems(3-) show ?thesis by simp
    qed
  next
    case False
    with Suc.prems show ?thesis by auto
  qed
qed simp

lemma start_threads_ok:
  assumes "start_threads draw bs s = Some ts" "\<forall>b\<in>set bs. usable (b_first (snd b)) \<and> 2 \<le> b_range (snd b) \<and> b_range (snd b) \<le> int_max \<and> added_size (snd b) = 0"
  shows "length ts = length bs \<and> (\<forall>t\<in>set ts. txs_ok t \<and> added_size (tx_data t) = 0)"
  using assms
proof (induction bs arbitrary: ts)
  case (Cons b bs)
  from Cons.prems(1) obtain t us where t: "start_txs draw (snd b) s = Some t" and us: "start_threads draw bs s = Some us" "ts = t # us" by auto
  from t obtain u b' where u: "rand_update draw (snd b) = Some (u, b')" and t': "t = \<lparr>tx_unext = u, tx_last = -1, tx_data = b', tx_store = s\<rparr>"
    by (auto simp: start_txs_def)
  have "txs_ok t \<and> added_size (tx_data t) = 0"
    using rand_update_same [OF u] Cons.prems(2) t' by (auto simp: same_counts_def txs_ok_def added_size_def usable_def)
  with Cons.IH [OF us(1)] Cons.prems(2) us(2) show ?case by simp
qed simp

end

interpretation cuckoo_bench: word_set "cuckoo_call fuel" cuckoo_ok cuckoo_elems "\<lambda>v. v \<noteq> EMPTY"
  by unfold_locales (simp_all add: cuckoo_elems_def usable_word)

lemma distinct_size: "\<forall>v. count M v \<le> 1 \<Longrightarrow> card (set_mset M) = size M"
  by (simp add: size_multiset_overloaded_eq) (metis (no_types, lifting) One_nat_def card_eq_sum count_greater_eq_one_iff le_antisym sum.cong)

subsection \<open>Times\<close>

lemma timeout_exact:
  assumes "0 \<le> d"
  shows "tv_sec (timeout_of d) * 1000000000 + tv_nsec (timeout_of d) = d * 1000000"
    "0 \<le> tv_nsec (timeout_of d)" "tv_nsec (timeout_of d) < 1000000000"
proof -
  have q: "d sdiv 1000 = d div 1000" "d smod 1000 = d mod 1000"
    using assms by (simp_all add: signed_divide_int_def signed_modulo_int_def sgn_if)
  have "0 \<le> d mod 1000" "d mod 1000 < 1000" "d div 1000 * 1000 + d mod 1000 = d" by simp_all
  then show "tv_sec (timeout_of d) * 1000000000 + tv_nsec (timeout_of d) = d * 1000000"
    "0 \<le> tv_nsec (timeout_of d)" "tv_nsec (timeout_of d) < 1000000000"
    unfolding timeout_of_def timespec.simps q by linarith+
qed

lemma test_duration_error:
  assumes "0 \<le> snd a" "0 \<le> snd b"
  shows "\<bar>1000 * test_duration a b - ((fst b * 1000000 + snd b) - (fst a * 1000000 + snd a))\<bar> < 1000"
proof -
  have "x sdiv 1000 = x div 1000" if "0 \<le> x" for x :: int using that by (simp add: signed_divide_int_def sgn_if)
  then have "test_duration a b = (fst b * 1000 + snd b div 1000) - (fst a * 1000 + snd a div 1000)"
    using assms by (simp add: test_duration_def)
  moreover have "snd b div 1000 * 1000 + snd b mod 1000 = snd b" "snd a div 1000 * 1000 + snd a mod 1000 = snd a"
    "0 \<le> snd a mod 1000" "snd a mod 1000 < 1000" "0 \<le> snd b mod 1000" "snd b mod 1000 < 1000" by simp_all
  ultimately show ?thesis by linarith
qed

subsection \<open>Totals\<close>

lemma totals_loop_all:
  "totals_loop bs (map int [m..<length bs]) t = Some (foldl totals_add t (drop m bs))"
proof (induction "length bs - m" arbitrary: m t)
  case (Suc d)
  then have m: "m < length bs" by simp
  then have "[m..<length bs] = m # [Suc m..<length bs]" "drop m bs = bs ! m # drop (Suc m) bs"
    by (simp_all add: upt_conv_Cons Cons_nth_drop_Suc)
  with Suc m show ?case by (simp add: at_def)
qed simp

lemma foldl_totals_size: "t_size (foldl totals_add t bs) = t_size t + (\<Sum>b\<leftarrow>bs. added_size b)"
  by (induction bs arbitrary: t) (simp_all add: totals_add_def added_size_def algebra_simps)

lemma foldl_totals_balance:
  "t_reads t + t_updates t = t_effreads t + t_effupds t \<Longrightarrow>
   t_reads (foldl totals_add t bs) + t_updates (foldl totals_add t bs) =
     t_effreads (foldl totals_add t bs) + t_effupds (foldl totals_add t bs)"
  by (induction bs arbitrary: t) (simp_all add: totals_add_def algebra_simps)

lemma client_report_sum:
  "t_reads t + t_updates t = t_effreads t + t_effupds t \<Longrightarrow>
   rep_txs (client_report e t) = rep_reads (client_report e t) + rep_updates (client_report e t)"
  by (simp add: client_report_def)

subsection \<open>The rate of updates\<close>

text \<open>After k rounds with u percent of updates asked for, at most u percent of them, and part of one more, succeeded.\<close>

definition rate_data :: "nat \<Rightarrow> nat \<Rightarrow> thread_benchmark \<Rightarrow> bool" where
  "rate_data u k b \<longleftrightarrow> b_update b = int u \<and> b_effective b \<noteq> 0 \<and> nb_removed b = 0 \<and> nb_remove b = 0 \<and>
     unat (nb_add b) + unat (nb_contains b) = k \<and> 100 * unat (nb_added b) \<le> u * k + (100 - u)"

definition rate_txs :: "nat \<Rightarrow> nat \<Rightarrow> 's txs \<Rightarrow> bool" where
  "rate_txs u k t \<longleftrightarrow> rate_data u k (tx_data t) \<and>
     (tx_unext t \<longrightarrow> k = 0 \<and> nb_added (tx_data t) = 0 \<or> 100 * unat (nb_added (tx_data t)) < u * k)"

lemma rate_data_same: "same_counts b b' \<Longrightarrow> rate_data u k b' = rate_data u k b"
  by (auto simp: same_counts_def rate_data_def)

lemma unat_suc: "unat x < 2 ^ 60 \<Longrightarrow> unat (x + 1 :: u64) = unat x + 1"
  by (simp add: unat_word_ariths)

lemma rate_bounds:
  assumes "rate_data u k b" "u \<le> 100" "k < 2 ^ 50"
  shows "unat (nb_add b) < 2 ^ 60" "unat (nb_contains b) < 2 ^ 60" "unat (nb_added b) < 2 ^ 52"
proof -
  have "unat (nb_add b) + unat (nb_contains b) = k" using assms(1) by (simp add: rate_data_def)
  then have "unat (nb_add b) \<le> k" "unat (nb_contains b) \<le> k" by simp_all
  with assms(3) show "unat (nb_add b) < 2 ^ 60" "unat (nb_contains b) < 2 ^ 60" by simp_all
  have "100 * unat (nb_added b) \<le> u * k + (100 - u)" using assms(1) by (simp add: rate_data_def)
  with mult_le_mono1 [OF assms(2), of k] have "unat (nb_added b) \<le> k + 1" by linarith
  with assms(3) show "unat (nb_added b) < 2 ^ 52" by simp
qed

lemma next_update_rate:
  assumes "rate_data u k b" "u \<le> 100" "k < 2 ^ 50" "next_update draw b = Some (x, b')"
  shows "b' = b" "x \<longleftrightarrow> 100 * unat (nb_added b) < u * k"
proof -
  note d = assms(1) [unfolded rate_data_def] and r = rate_bounds [OF assms(1-3)]
  show "b' = b" using assms(4) d by (simp add: next_update_def)
  have "u * k \<le> 100 * k" using assms(2) by (rule mult_le_mono1)
  moreover have "k < 1125899906842624" using assms(3) by simp
  ultimately have small: "u * k < 18446744073709551616" by linarith
  have "unat (nb_add b + nb_contains b) = k" using d r by (simp add: unat_word_ariths)
  moreover have "unat (word_of_int (int u) :: u64) = u" using assms(2) by (simp add: unat_of_nat)
  ultimately have "unat (word_of_int (int u) * (nb_add b + nb_contains b)) = u * k" using small by (simp add: unat_word_ariths)
  moreover have "unat (100 * nb_added b) = 100 * unat (nb_added b)" using r(3) by (simp add: unat_word_ariths)
  moreover have "x \<longleftrightarrow> 100 * nb_added b < word_of_int (int u) * (nb_add b + nb_contains b)"
    using assms(4) d by (auto simp add: next_update_def)
  ultimately show "x \<longleftrightarrow> 100 * unat (nb_added b) < u * k" by (simp add: word_less_nat_alt)
qed

lemma client_write_rate:
  assumes t: "rate_txs u k t" "tx_unext t" and u: "u \<le> 100" and k: "k < 2 ^ 50" and w: "client_write draw ins t = Some t'"
  shows "rate_data u (Suc k) (tx_data t')"
proof -
  have d: "rate_data u k (tx_data t)" using t by (simp add: rate_txs_def)
  have room: "100 * unat (nb_added (tx_data t)) + 100 \<le> u * Suc k + (100 - u)"
    using t u by (auto simp: rate_txs_def)
  from w obtain v b1 v2 b2 r s where v: "rand_val draw (tx_data t) = Some (v, b1)" "rand_val draw b1 = Some (v2, b2)"
    and t': "t' = (let b = note_insert r b2 in t\<lparr>tx_data := b\<lparr>nb_add := nb_add b + 1\<rparr>, tx_last := (if r = TRUE then v else tx_last t), tx_store := s\<rparr>)"
    by (auto simp: client_write_def Let_def)
  have same: "same_counts (tx_data t) b2" using rand_val_same v same_counts_trans by blast
  then have d2: "rate_data u k b2" and a: "nb_added b2 = nb_added (tx_data t)" using rate_data_same d by (auto simp: same_counts_def)
  note r2 = rate_bounds [OF d2 u k]
  have "unat (nb_add b2 + 1) = unat (nb_add b2) + 1" "unat (nb_added b2 + 1) = unat (nb_added b2) + 1"
    using r2 by (simp_all add: unat_suc)
  with d2 room a t' show ?thesis by (auto simp: rate_data_def Let_def note_insert_def)
qed

lemma client_read_rate:
  assumes t: "rate_txs u k t" and u: "u \<le> 100" and k: "k < 2 ^ 50" and w: "client_read draw get t = Some t'"
  shows "rate_data u (Suc k) (tx_data t')"
proof -
  have d: "rate_data u k (tx_data t)" using t by (simp add: rate_txs_def)
  from w obtain v l b r s where v: "read_val draw (tx_last t) (tx_data t) = Some (v, l, b)"
    and t': "t' = (let b' = note_get r b in t\<lparr>tx_data := b'\<lparr>nb_contains := nb_contains b' + 1\<rparr>, tx_last := l, tx_store := s\<rparr>)"
    by (auto simp: client_read_def Let_def)
  have d2: "rate_data u k b" using rate_data_same [OF read_val_same [OF v]] d by simp
  have "unat (nb_contains b + 1) = unat (nb_contains b) + 1" using rate_bounds [OF d2 u k] by (simp add: unat_suc)
  with d2 t' show ?thesis by (auto simp: rate_data_def Let_def note_get_def)
qed

lemma client_tx_rate:
  assumes t: "rate_txs u k t" and u: "u \<le> 100" and k: "Suc k < 2 ^ 50" and w: "client_tx draw ins get t = Some t'"
  shows "rate_txs u (Suc k) t'"
proof -
  have k': "k < 2 ^ 50" using k by simp
  from w obtain t1 where t1: "(if tx_unext t then client_write draw ins t else client_read draw get t) = Some t1"
    and n: "then_next draw t1 = Some t'" by (auto simp: client_tx_def)
  have d: "rate_data u (Suc k) (tx_data t1)"
    using t1 client_write_rate [OF t _ u k'] client_read_rate [OF t u k'] by (auto split: if_splits)
  from n obtain x b where x: "next_update draw (tx_data t1) = Some (x, b)" "t' = t1\<lparr>tx_unext := x, tx_data := b\<rparr>"
    by (auto simp: then_next_def)
  from next_update_rate [OF d u k x(1)] x(2) d show ?thesis by (simp add: rate_txs_def)
qed

lemma client_rounds_rate:
  assumes "rate_txs u k t" "u \<le> 100" "k + n < 2 ^ 50" "rounds (client_tx draw ins get) n t = Some t'"
  shows "rate_txs u (k + n) t'"
  using assms(1,3,4)
proof (induction n arbitrary: k t)
  case (Suc n)
  from Suc.prems(3) obtain t1 where t1: "client_tx draw ins get t = Some t1" "rounds (client_tx draw ins get) n t1 = Some t'" by auto
  from client_tx_rate [OF Suc.prems(1) assms(2) _ t1(1)] Suc.prems(2) have "rate_txs u (Suc k) t1" by simp
  from Suc.IH [OF this _ t1(2)] Suc.prems(2) show ?case by simp
qed simp

subsection \<open>The RDMA client\<close>

text \<open>A store that counts the insertions it accepts\<close>

definition counting :: "'s rinsert_fun \<Rightarrow> ('s \<times> u64) rinsert_fun" where
  "counting ins p v w = do { (r, s) \<leftarrow> ins (fst p) v w; Some (r, (s, if r = R_TRUE then snd p + 1 else snd p)) }"

definition keep_count :: "'s rget_fun \<Rightarrow> ('s \<times> u64) rget_fun" where
  "keep_count get p v = do { (r, s) \<leftarrow> get (fst p) v; Some (r, (s, snd p)) }"

definition counted :: "('s \<times> u64) txs \<Rightarrow> bool" where
  "counted t \<longleftrightarrow> (\<exists>k. nb_removed (tx_data t) = 3 * k \<and> nb_added (tx_data t) + k = snd (tx_store t))"

lemma rdma_write_counted:
  assumes "counted t" "rdma_write draw (counting ins) t = Some t'"
  shows "counted t'"
proof -
  obtain k where k: "nb_removed (tx_data t) = 3 * k" "nb_added (tx_data t) + k = snd (tx_store t)" using assms(1) by (auto simp: counted_def)
  show ?thesis
  proof (cases "tx_last t < 0")
    case True
    with assms(2) obtain v b r s where v: "bench_rand draw (tx_data t) (b_range (tx_data t)) = Some (v, b)"
      and i: "ins (fst (tx_store t)) v v = Some (r, s)"
      and t': "t' = (let b' = (if r = R_TRUE then b\<lparr>nb_added := nb_added b + 1\<rparr>
                      else if r = R_ABORT_FAILURE then b\<lparr>nb_aborted := nb_aborted b + 1\<rparr> else b) in
        t\<lparr>tx_data := b'\<lparr>nb_add := nb_add b' + 1\<rparr>, tx_last := (if r = R_TRUE then v else tx_last t),
          tx_store := (s, if r = R_TRUE then snd (tx_store t) + 1 else snd (tx_store t))\<rparr>)"
      by (auto simp: rdma_write_def counting_def Let_def)
    have "nb_removed b = 3 * k" "nb_added b + k = snd (tx_store t)" using bench_rand_same [OF v] k by (auto simp: same_counts_def)
    then show ?thesis unfolding counted_def t' by (intro exI [of _ k]) (simp add: Let_def algebra_simps)
  next
    case False
    with assms(2) obtain v b v2 b2 v3 b3 r s where v: "bench_rand draw (tx_data t) (b_range (tx_data t)) = Some (v, b)"
      "bench_rand draw b (b_range b) = Some (v2, b2)" "bench_rand draw b2 (b_range b2) = Some (v3, b3)"
      and i: "ins (fst (tx_store t)) v v = Some (r, s)"
      and t': "t' = (let b' = (if r = R_TRUE then b3\<lparr>nb_removed := nb_removed b3 + 3\<rparr>
                      else if r = R_ABORT_FAILURE then b3\<lparr>nb_aborted := nb_aborted b3 + 1\<rparr> else b3) in
        t\<lparr>tx_data := b'\<lparr>nb_remove := nb_remove b' + 3\<rparr>, tx_last := (if r = R_TRUE then -1 else tx_last t),
          tx_store := (s, if r = R_TRUE then snd (tx_store t) + 1 else snd (tx_store t))\<rparr>)"
      by (auto simp: rdma_write_def counting_def Let_def)
    have "same_counts (tx_data t) b3" using v bench_rand_same same_counts_trans by metis
    then have "nb_removed b3 = 3 * k" "nb_added b3 + k = snd (tx_store t)" using k by (auto simp: same_counts_def)
    then show ?thesis unfolding counted_def t'
      by (intro exI [of _ "if r = R_TRUE then k + 1 else k"]) (simp add: Let_def algebra_simps)
  qed
qed

lemma rdma_read_counted:
  assumes "counted t" "rdma_read_tx draw (keep_count get) t = Some t'"
  shows "counted t'"
proof -
  obtain k where k: "nb_removed (tx_data t) = 3 * k" "nb_added (tx_data t) + k = snd (tx_store t)" using assms(1) by (auto simp: counted_def)
  from assms(2) obtain v b r s where v: "bench_rand draw (tx_data t) (b_range (tx_data t)) = Some (v, b)"
    and t': "t' = (let b' = (if r = R_TRUE then b\<lparr>nb_found := nb_found b + 1\<rparr>
                   else if r = R_ABORT_FAILURE then b\<lparr>nb_aborted := nb_aborted b + 1\<rparr> else b) in
      t\<lparr>tx_data := b'\<lparr>nb_contains := nb_contains b' + 1\<rparr>, tx_store := (s, snd (tx_store t))\<rparr>)"
    by (auto simp: rdma_read_tx_def keep_count_def Let_def)
  have "nb_removed b = 3 * k" "nb_added b + k = snd (tx_store t)" using bench_rand_same [OF v] k by (auto simp: same_counts_def)
  then show ?thesis unfolding counted_def t' by (intro exI [of _ k]) (simp add: Let_def)
qed

lemma rdma_rounds_counted:
  assumes "counted t" "rounds (rdma_tx draw (counting ins) (keep_count get)) n t = Some t'"
  shows "counted t'"
  using assms
proof (induction n arbitrary: t)
  case (Suc n)
  from Suc.prems(2) obtain v where vt: "rdma_tx draw (counting ins) (keep_count get) t = Some v"
    and r: "rounds (rdma_tx draw (counting ins) (keep_count get)) n v = Some t'" by auto
  from vt obtain u where u: "(if tx_unext t then rdma_write draw (counting ins) t else rdma_read_tx draw (keep_count get) t) = Some u"
    and v: "then_next draw u = Some v" by (auto simp: rdma_tx_def)
  have "counted u" using u rdma_write_counted [OF Suc.prems(1)] rdma_read_counted [OF Suc.prems(1)] by (auto split: if_splits)
  moreover obtain x b where "next_update draw (tx_data u) = Some (x, b)" "v = u\<lparr>tx_unext := x, tx_data := b\<rparr>"
    using v by (auto simp: then_next_def)
  ultimately have "counted v" using next_update_same by (force simp: counted_def same_counts_def)
  from Suc.IH [OF this r] show ?case .
qed simp

subsection \<open>Properties\<close>

text \<open>\<open>rand_range_re\<close> of a range that fits an \<open>int\<close> is a number between 1 and the range.\<close>

theorem rand_range_bounds:
  assumes "draw_ok draw" "1 \<le> r" "r \<le> int_max"
  shows "\<exists>v g'. rand_range_re draw g r = Some (v, g') \<and> 1 \<le> v \<and> v \<le> r"
  by (rule rand_range_ok [OF assms])

text \<open>A draw that depends on the seed\<close>

definition some_draw :: draw where
  "some_draw d g = (if 0 < d then uint (drop_bit 16 (g * 1103515245 + 12345)) mod d else 0, g * 1103515245 + 12345)"

lemma some_draw_ok: "draw_ok some_draw"
  by (simp add: draw_ok_def some_draw_def)

theorem rand_range_bounds_witness:
  "\<exists>v g'. rand_range_re some_draw 7 100 = Some (v, g') \<and> 1 \<le> v \<and> v \<le> 100"
  by (rule rand_range_bounds [OF some_draw_ok]) (simp_all add: int_max_def)


definition demo_config :: config where
  "demo_config = default_config\<lparr>c_initial := 2, c_threads := 2, c_range := 100\<rparr>"


text \<open>The number of transactions that the RDMA client prints is the sum of the read and update transactions
  that it prints, in both modes, for all counters of the threads; the same holds of the test's
  totals.\<close>

theorem report_balances:
  "\<exists>t u. rdma_totals bs = Some t \<and> test_totals initial (length bs) bs = Some u \<and>
     rep_txs (client_report e t) = rep_reads (client_report e t) + rep_updates (client_report e t) \<and>
     rep_txs (client_report e u) = rep_reads (client_report e u) + rep_updates (client_report e u)"
  using totals_loop_all [of bs 0 "totals_zero 0"] totals_loop_all [of bs 0 "totals_zero (word_of_int initial)"]
  by (simp add: rdma_totals_def test_totals_def client_report_sum foldl_totals_balance totals_zero_def)



text \<open>The RDMA client counts three effective updates for every insertion of its multi-insert branch
  that the store accepts, although the branch inserts one element: the accepted insertions are nb_added plus a third of
  nb_removed.\<close>

theorem rdma_client_overcounts:
  assumes "rdma_execute_txs draw (counting ins) (keep_count get) n (thread_benchmark_new first r update alternate effective seed) (s, 0) = Some t"
  shows "\<exists>k. nb_removed (tx_data t) = 3 * k \<and> snd (tx_store t) = nb_added (tx_data t) + k"
proof -
  from assms obtain x b where x: "rand_update draw (thread_benchmark_new first r update alternate effective seed) = Some (x, b)"
    and run: "rounds (rdma_tx draw (counting ins) (keep_count get)) n \<lparr>tx_unext = x, tx_last = -1, tx_data = b, tx_store = (s, 0)\<rparr> = Some t"
    by (auto simp: rdma_execute_txs_def start_txs_def)
  have "counted \<lparr>tx_unext = x, tx_last = -1, tx_data = b, tx_store = (s, 0)\<rparr>"
    using rand_update_same [OF x] by (auto simp: counted_def same_counts_def thread_benchmark_new_def)
  from rdma_rounds_counted [OF this run] show ?thesis by (auto simp: counted_def)
qed

theorem rdma_client_overcounts_witness:
  "\<exists>t k. rdma_execute_txs some_draw (counting (\<lambda>s v w. Some (R_TRUE, s))) (keep_count (\<lambda>s v. Some (R_FALSE, s))) 2
      (thread_benchmark_new 1 50 100 0 1 3) ((), 0) = Some t
     \<and> nb_removed (tx_data t) = 3 * k \<and> snd (tx_store t) = nb_added (tx_data t) + k"
proof -
  have "rdma_execute_txs some_draw (counting (\<lambda>s v w. Some (R_TRUE, s))) (keep_count (\<lambda>s v. Some (R_FALSE, s))) 2
      (thread_benchmark_new 1 50 100 0 1 3) ((), 0) \<noteq> None" by code_simp
  then obtain t where t: "rdma_execute_txs some_draw (counting (\<lambda>s v w. Some (R_TRUE, s))) (keep_count (\<lambda>s v. Some (R_FALSE, s))) 2
      (thread_benchmark_new 1 50 100 0 1 3) ((), 0) = Some t" by auto
  from rdma_client_overcounts [OF t] t show ?thesis by blast
qed

end
