(* ===== verification/BankMap.thy ===== *)
theory BankMap
  imports MapObject
begin

text \<open>
  The accounts of the bank, Banker/bankers-map/src/simplemap.h: an array of chains, each ascending in the keys.  A
  chain is the list of its nodes after the sentinel.  The map is an instance of the contract of theory
  MapObject.  The variant of the file for OPTIMIZED is never compiled: the macro is set after the
  inclusion.
\<close>

type_synonym 'v chain = "(int \<times> 'v) list"

record 'v simplemap =
  sm_buckets :: u32
  sm_values :: "'v chain list"

definition simplemap_new :: "u32 \<Rightarrow> 'v simplemap" where
  "simplemap_new n = \<lparr>sm_buckets = n, sm_values = replicate (unat n) []\<rparr>"

text \<open>The remainder is unsigned: the key is converted first.\<close>

definition sm_hash :: "'v simplemap \<Rightarrow> int \<Rightarrow> u32 option" where
  "sm_hash m k = (if sm_buckets m = 0 then None else Some (word_of_int k mod sm_buckets m))"

fun chain_insert :: "int \<Rightarrow> 'v \<Rightarrow> 'v chain \<Rightarrow> bool \<times> 'v chain" where
  "chain_insert k v [] = (True, [(k, v)])"
| "chain_insert k v ((k', v') # c) =
     (if k' < k then (case chain_insert k v c of (b, c) \<Rightarrow> (b, (k', v') # c))
      else if k' \<noteq> k then (True, (k, v) # (k', v') # c)
      else (False, (k', v') # c))"

fun chain_update :: "int \<Rightarrow> 'v \<Rightarrow> 'v chain \<Rightarrow> bool \<times> 'v chain" where
  "chain_update k v [] = (False, [])"
| "chain_update k v ((k', v') # c) =
     (if k' < k then (case chain_update k v c of (b, c) \<Rightarrow> (b, (k', v') # c))
      else if k' = k then (True, (k', v) # c)
      else (False, (k', v') # c))"

fun chain_remove :: "int \<Rightarrow> 'v chain \<Rightarrow> bool \<times> 'v chain" where
  "chain_remove k [] = (False, [])"
| "chain_remove k ((k', v') # c) =
     (if k' < k then (case chain_remove k c of (b, c) \<Rightarrow> (b, (k', v') # c))
      else if k' = k then (True, c)
      else (False, (k', v') # c))"

fun chain_lookup :: "int \<Rightarrow> 'v chain \<Rightarrow> 'v option" where
  "chain_lookup k [] = None"
| "chain_lookup k ((k', v') # c) =
     (if k' < k then chain_lookup k c else if k' = k then Some v' else None)"

definition on_chain :: "'v simplemap \<Rightarrow> int \<Rightarrow> ('v chain \<Rightarrow> bool \<times> 'v chain) \<Rightarrow> (bool \<times> 'v simplemap) option" where
  "on_chain m k f =
     do { h \<leftarrow> sm_hash m k;
          c \<leftarrow> at (sm_values m) (uint h);
          let (b, c) = f c;
          vs \<leftarrow> upd (sm_values m) (uint h) c;
          Some (b, m\<lparr>sm_values := vs\<rparr>) }"

definition sm_insert :: "'v simplemap \<Rightarrow> int \<Rightarrow> 'v \<Rightarrow> (bool \<times> 'v simplemap) option" where
  "sm_insert m k v = on_chain m k (chain_insert k v)"

definition sm_update :: "'v simplemap \<Rightarrow> int \<Rightarrow> 'v \<Rightarrow> (bool \<times> 'v simplemap) option" where
  "sm_update m k v = on_chain m k (chain_update k v)"

definition sm_remove :: "'v simplemap \<Rightarrow> int \<Rightarrow> (bool \<times> 'v simplemap) option" where
  "sm_remove m k = on_chain m k (chain_remove k)"

text \<open>The pair that \<open>lookup\<close> returns: the value, 0 for an absent key, and whether the key is there.\<close>

definition sm_lookup :: "'v :: zero simplemap \<Rightarrow> int \<Rightarrow> ('v \<times> bool) option" where
  "sm_lookup m k =
     do { h \<leftarrow> sm_hash m k;
          c \<leftarrow> at (sm_values m) (uint h);
          Some (case chain_lookup k c of Some v \<Rightarrow> (v, True) | None \<Rightarrow> (0, False)) }"

text \<open>\<open>apply\<close> calls f, a function on a state, on each pair.\<close>

definition sm_apply :: "(int \<Rightarrow> 'v \<Rightarrow> 's \<Rightarrow> 's) \<Rightarrow> 'v simplemap \<Rightarrow> 's \<Rightarrow> 's" where
  "sm_apply f m s = fold (\<lambda>c s. fold (\<lambda>(k, v). f k v) c s) (sm_values m) s"

subsection \<open>Chains\<close>

definition chain_ok :: "'v chain \<Rightarrow> bool" where
  "chain_ok c \<longleftrightarrow> sorted_wrt (<) (map fst c)"

definition chain_keys :: "'v chain \<Rightarrow> int set" where
  "chain_keys c = fst ` set c"

lemma chain_keys_simps [simp]: "chain_keys [] = {}" "chain_keys ((k, v) # c) = insert k (chain_keys c)"
  by (simp_all add: chain_keys_def)

lemma chain_ok_simps [simp]:
  "chain_ok []" "chain_ok ((k, v) # c) \<longleftrightarrow> (\<forall>x\<in>chain_keys c. k < x) \<and> chain_ok c"
  by (auto simp: chain_ok_def chain_keys_def)

lemma chain_dom [simp]: "dom (map_of c) = chain_keys c"
  by (simp add: chain_keys_def dom_map_of_conv_image_fst)

lemma chain_above: "\<forall>x\<in>chain_keys c. j < x \<Longrightarrow> k \<le> j \<Longrightarrow> k \<notin> chain_keys c"
  by fastforce

lemma chain_none: "map_of c k = None \<longleftrightarrow> k \<notin> chain_keys c"
  by (simp add: chain_keys_def map_of_eq_None_iff)

lemma chain_insert_ok:
  assumes "chain_ok c"
  shows "chain_ok (snd (chain_insert k v c)) \<and> chain_keys (snd (chain_insert k v c)) = insert k (chain_keys c) \<and>
    fst (chain_insert k v c) = (k \<notin> chain_keys c) \<and>
    map_of (snd (chain_insert k v c)) = (if k \<in> chain_keys c then map_of c else (map_of c)(k \<mapsto> v))"
  using assms
proof (induction k v c rule: chain_insert.induct)
  case (2 k v k' v' c)
  consider "k' < k" | "k < k'" | "k = k'" by linarith
  then show ?case
  proof cases
    case 1
    with 2 obtain b d where d: "chain_insert k v c = (b, d)" "chain_ok d" "chain_keys d = insert k (chain_keys c)"
      "b = (k \<notin> chain_keys c)" "map_of d = (if k \<in> chain_keys c then map_of c else (map_of c)(k \<mapsto> v))"
      by (cases "chain_insert k v c") simp
    with 1 "2.prems" show ?thesis by (auto simp: fun_upd_twist)
  next
    case 2
    with chain_above [of c k' k] "2.prems" show ?thesis by auto
  next
    case 3
    with "2.prems" show ?thesis by auto
  qed
qed simp

lemma chain_update_ok:
  assumes "chain_ok c"
  shows "map fst (snd (chain_update k v c)) = map fst c \<and> fst (chain_update k v c) = (k \<in> chain_keys c) \<and>
    map_of (snd (chain_update k v c)) = (if k \<in> chain_keys c then (map_of c)(k \<mapsto> v) else map_of c)"
  using assms
proof (induction k v c rule: chain_update.induct)
  case (2 k v k' v' c)
  consider "k' < k" | "k < k'" | "k = k'" by linarith
  then show ?case
  proof cases
    case 1
    with 2 obtain b d where d: "chain_update k v c = (b, d)" "map fst d = map fst c" "b = (k \<in> chain_keys c)"
      "map_of d = (if k \<in> chain_keys c then (map_of c)(k \<mapsto> v) else map_of c)"
      by (cases "chain_update k v c") simp
    with 1 "2.prems" show ?thesis by (auto simp: fun_eq_iff)
  next
    case 2
    with chain_above [of c k' k] "2.prems" show ?thesis by auto
  next
    case 3
    with "2.prems" show ?thesis by auto
  qed
qed simp

lemma chain_remove_ok:
  assumes "chain_ok c"
  shows "chain_ok (snd (chain_remove k c)) \<and> chain_keys (snd (chain_remove k c)) = chain_keys c - {k} \<and>
    fst (chain_remove k c) = (k \<in> chain_keys c) \<and> map_of (snd (chain_remove k c)) = (map_of c)(k := None)"
  using assms
proof (induction k c rule: chain_remove.induct)
  case (2 k k' v' c)
  consider "k' < k" | "k < k'" | "k = k'" by linarith
  then show ?case
  proof cases
    case 1
    with 2 obtain b d where d: "chain_remove k c = (b, d)" "chain_ok d" "chain_keys d = chain_keys c - {k}"
      "b = (k \<in> chain_keys c)" "\<forall>x. map_of d x = (if x = k then None else map_of c x)"
      by (cases "chain_remove k c") (simp add: fun_eq_iff)
    with 1 "2.prems" show ?thesis by (auto simp: fun_eq_iff)
  next
    case 2
    with chain_above [of c k' k] "2.prems" show ?thesis by (auto simp: chain_none)
  next
    case 3
    with chain_above [of c k' k] "2.prems" chain_none [of c k] show ?thesis by auto
  qed
qed simp

lemma chain_lookup_ok: "chain_ok c \<Longrightarrow> chain_lookup k c = map_of c k"
proof (induction k c rule: chain_lookup.induct)
  case (2 k k' v' c)
  with chain_above [of c k' k] show ?case by (auto simp: chain_none [symmetric])
qed simp

lemma chain_same_keys: "map fst d = map fst c \<Longrightarrow> chain_ok d = chain_ok c \<and> chain_keys d = chain_keys c"
  by (simp add: chain_ok_def chain_keys_def flip: set_map)

subsection \<open>The map\<close>

definition sm_index :: "'v simplemap \<Rightarrow> int \<Rightarrow> nat" where
  "sm_index m k = unat ((word_of_int k :: u32) mod sm_buckets m)"

definition sm_ok :: "'v simplemap \<Rightarrow> bool" where
  "sm_ok m \<longleftrightarrow> sm_buckets m \<noteq> 0 \<and> length (sm_values m) = unat (sm_buckets m) \<and>
     (\<forall>i < length (sm_values m). chain_ok (sm_values m ! i) \<and> (\<forall>k\<in>chain_keys (sm_values m ! i). sm_index m k = i))"

definition sm_map :: "'v simplemap \<Rightarrow> int \<rightharpoonup> 'v" where
  "sm_map m k = map_of (sm_values m ! sm_index m k) k"

lemma sm_index_less: "sm_ok m \<Longrightarrow> sm_index m k < length (sm_values m)"
  by (simp add: sm_ok_def sm_index_def unat_mod_distrib unat_gt_0 [symmetric])

lemma sm_dom: "k \<in> dom (sm_map m) \<longleftrightarrow> k \<in> chain_keys (sm_values m ! sm_index m k)"
  by (simp add: sm_map_def dom_def flip: chain_dom)

lemma on_chain_ok:
  assumes ok: "sm_ok m" and f: "f (sm_values m ! sm_index m k) = (b, c)" "chain_ok c"
    and keys: "chain_keys c \<subseteq> insert k (chain_keys (sm_values m ! sm_index m k))"
    and rest: "\<And>j. j \<noteq> k \<Longrightarrow> map_of c j = map_of (sm_values m ! sm_index m k) j"
  shows "\<exists>m'. on_chain m k f = Some (b, m') \<and> sm_ok m' \<and> sm_buckets m' = sm_buckets m \<and>
    sm_map m' = (sm_map m)(k := map_of c k)"
proof -
  let ?i = "sm_index m k" and ?m = "m\<lparr>sm_values := (sm_values m)[sm_index m k := c]\<rparr>"
  have i: "?i < length (sm_values m)" by (rule sm_index_less [OF ok])
  have h: "sm_hash m k = Some (word_of_int k mod sm_buckets m)" "sm_buckets m \<noteq> 0" using ok by (simp_all add: sm_hash_def sm_ok_def)
  have u: "uint ((word_of_int k :: u32) mod sm_buckets m) = int ?i" by (simp add: sm_index_def)
  have "on_chain m k f = Some (b, ?m)"
    unfolding on_chain_def h(1) using u i f(1) by (simp add: at_def upd_def del: uint_mod)
  moreover have ix: "sm_index ?m j = sm_index m j" for j by (simp add: sm_index_def)
  have "sm_ok ?m" unfolding sm_ok_def
  proof (intro conjI allI impI)
    fix j assume j: "j < length (sm_values ?m)"
    show "chain_ok (sm_values ?m ! j)" using ok f(2) j by (cases "j = ?i") (simp_all add: sm_ok_def)
    show "\<forall>k\<in>chain_keys (sm_values ?m ! j). sm_index ?m k = j"
    proof (cases "j = ?i")
      case True
      with keys i ok show ?thesis by (auto simp: sm_ok_def ix)
    next
      case False
      with j ok show ?thesis by (simp add: sm_ok_def ix)
    qed
  qed (use ok in \<open>simp_all add: sm_ok_def\<close>)
  moreover have "sm_map ?m = (sm_map m)(k := map_of c k)"
  proof
    fix j
    show "sm_map ?m j = ((sm_map m)(k := map_of c k)) j"
    proof (cases "sm_index m j = ?i")
      case True
      then show ?thesis using i rest [of j] by (simp add: sm_map_def ix)
    next
      case False
      then show ?thesis by (auto simp: sm_map_def ix)
    qed
  qed
  ultimately show ?thesis by (intro exI [of _ ?m]) simp
qed

lemma sm_chain_ok: "sm_ok m \<Longrightarrow> chain_ok (sm_values m ! sm_index m k)"
  using sm_index_less [of m k] by (simp add: sm_ok_def)

lemma sm_insert_ok:
  assumes "sm_ok m"
  shows "\<exists>m'. sm_insert m k v = Some (k \<notin> dom (sm_map m), m') \<and> sm_ok m' \<and> sm_buckets m' = sm_buckets m \<and>
    sm_map m' = (if k \<in> dom (sm_map m) then sm_map m else (sm_map m)(k \<mapsto> v))"
proof -
  let ?c = "sm_values m ! sm_index m k"
  note c = chain_insert_ok [OF sm_chain_ok [OF assms, of k], of k v]
  obtain b d where d: "chain_insert k v ?c = (b, d)" by fastforce
  from on_chain_ok [where f = "chain_insert k v", OF assms d] c d
  obtain m' where "sm_insert m k v = Some (b, m')" "sm_ok m'" "sm_buckets m' = sm_buckets m" "sm_map m' = (sm_map m)(k := map_of d k)"
    by (auto simp: sm_insert_def)
  moreover have "b = (k \<notin> dom (sm_map m))" using c d by (simp add: sm_dom)
  moreover have "map_of d k = (if k \<in> dom (sm_map m) then sm_map m k else Some v)" using c d by (simp add: sm_dom) (simp add: sm_map_def)
  ultimately show ?thesis by (intro exI [of _ m']) auto
qed

lemma sm_update_ok:
  assumes "sm_ok m"
  shows "\<exists>m'. sm_update m k v = Some (k \<in> dom (sm_map m), m') \<and> sm_ok m' \<and> sm_buckets m' = sm_buckets m \<and>
    sm_map m' = (if k \<in> dom (sm_map m) then (sm_map m)(k \<mapsto> v) else sm_map m)"
proof -
  let ?c = "sm_values m ! sm_index m k"
  note c = chain_update_ok [OF sm_chain_ok [OF assms, of k], of k v]
  obtain b d where d: "chain_update k v ?c = (b, d)" by fastforce
  have keys: "chain_ok d" "chain_keys d = chain_keys ?c"
    using chain_same_keys [of d ?c] c d sm_chain_ok [OF assms] by simp_all
  from keys(2) have "chain_keys d \<subseteq> insert k (chain_keys ?c)" by blast
  from on_chain_ok [where f = "chain_update k v", OF assms d keys(1) this] c d
  obtain m' where "sm_update m k v = Some (b, m')" "sm_ok m'" "sm_buckets m' = sm_buckets m" "sm_map m' = (sm_map m)(k := map_of d k)"
    by (auto simp: sm_update_def)
  moreover have "b = (k \<in> dom (sm_map m))" using c d by (simp add: sm_dom)
  moreover have "map_of d k = (if k \<in> dom (sm_map m) then Some v else sm_map m k)" using c d by (simp add: sm_dom) (simp add: sm_map_def)
  ultimately show ?thesis by (intro exI [of _ m']) auto
qed

lemma sm_remove_ok:
  assumes "sm_ok m"
  shows "\<exists>m'. sm_remove m k = Some (k \<in> dom (sm_map m), m') \<and> sm_ok m' \<and> sm_buckets m' = sm_buckets m \<and> sm_map m' = (sm_map m)(k := None)"
proof -
  let ?c = "sm_values m ! sm_index m k"
  note c = chain_remove_ok [OF sm_chain_ok [OF assms, of k], of k]
  obtain b d where d: "chain_remove k ?c = (b, d)" by fastforce
  from on_chain_ok [where f = "chain_remove k", OF assms d] c d
  obtain m' where "sm_remove m k = Some (b, m')" "sm_ok m'" "sm_buckets m' = sm_buckets m" "sm_map m' = (sm_map m)(k := map_of d k)"
    by (auto simp: sm_remove_def)
  with c d show ?thesis by (intro exI [of _ m']) (auto simp: sm_dom)
qed

lemma sm_lookup_ok:
  assumes "sm_ok m"
  shows "sm_lookup m k = Some (case sm_map m k of Some v \<Rightarrow> (v, True) | None \<Rightarrow> (0, False))"
proof -
  have "sm_hash m k = Some (word_of_int k mod sm_buckets m)" using assms by (simp add: sm_hash_def sm_ok_def)
  moreover have "uint ((word_of_int k :: u32) mod sm_buckets m) = int (sm_index m k)" by (simp add: sm_index_def)
  ultimately show ?thesis
    using sm_index_less [OF assms, of k] chain_lookup_ok [OF sm_chain_ok [OF assms, of k], of k]
    by (simp add: sm_lookup_def at_def sm_map_def del: uint_mod)
qed

lemma simplemap_new_ok:
  assumes "n \<noteq> 0"
  shows "sm_ok (simplemap_new n :: 'v simplemap)" "sm_map (simplemap_new n :: 'v simplemap) = Map.empty"
proof -
  show ok: "sm_ok (simplemap_new n :: 'v simplemap)" using assms by (simp add: sm_ok_def simplemap_new_def)
  have "sm_values (simplemap_new n :: 'v simplemap) ! sm_index (simplemap_new n :: 'v simplemap) k = []" for k
    using sm_index_less [OF ok, of k] unfolding simplemap_new_def by simp
  then show "sm_map (simplemap_new n :: 'v simplemap) = Map.empty" by (simp add: fun_eq_iff sm_map_def)
qed

subsection \<open>The contract\<close>

fun sm_call :: "'v :: zero simplemap \<Rightarrow> (int, 'v) map_op \<Rightarrow> ((bool \<times> 'v option) \<times> 'v simplemap) option" where
  "sm_call m (Add k v) = map_option (\<lambda>(b, m'). ((b, None), m')) (sm_insert m k v)"
| "sm_call m (Change k v) = map_option (\<lambda>(b, m'). ((b, None), m')) (sm_update m k v)"
| "sm_call m (Delete k) = map_option (\<lambda>(b, m'). ((b, None), m')) (sm_remove m k)"
| "sm_call m (Lookup k) = map_option (\<lambda>(v, b). ((b, if b then Some v else None), m)) (sm_lookup m k)"
| "sm_call m _ = None"

fun sm_offers :: "(int, 'v) map_op \<Rightarrow> bool" where
  "sm_offers (Store k v) = False" | "sm_offers (Has k) = False" | "sm_offers _ = True"

lemma sm_call_ok:
  assumes ok: "sm_ok m" and x: "sm_offers x"
  shows "\<exists>a m'. sm_call m x = Some (a, m') \<and> sm_ok m' \<and> (a, sm_map m') = map_spec x (sm_map m)"
proof (cases x)
  case (Add k v)
  with sm_insert_ok [OF ok, of k v] show ?thesis by auto
next
  case (Change k v)
  with sm_update_ok [OF ok, of k v] show ?thesis by auto
next
  case (Delete k)
  with sm_remove_ok [OF ok, of k] show ?thesis by auto
next
  case (Lookup k)
  with sm_lookup_ok [OF ok, of k] ok show ?thesis by (cases "sm_map m k") auto
qed (use x in simp_all)

interpretation accounts: total_map_object "sm_call :: 'v :: zero simplemap \<Rightarrow> _" sm_ok sm_map sm_offers
proof (unfold_locales)
  fix m :: "'v simplemap" and x a m'
  assume m: "sm_ok m" "sm_offers x" "sm_call m x = Some (a, m')"
  from sm_call_ok [OF m(1,2)] m(3) show "sm_ok m' \<and> (a, sm_map m') = map_spec x (sm_map m)" by auto
next
  fix m :: "'v simplemap" and x :: "(int, 'v) map_op"
  assume "sm_ok m" "sm_offers x"
  from sm_call_ok [OF this] show "sm_call m x \<noteq> None" by auto
qed

end
