(* ===== verification/Bank.thy ===== *)
theory Bank
  imports BankMap LockOrder
begin

text \<open>
  The bank (Banker/bankers-map/src): threads move money between random accounts and add up all accounts.  A deposit
  takes the write locks of the two buckets it touches, a balance the read locks of all buckets, both in
  ascending order (locks.cc, tests.cc).

  Amounts are of any type with addition; the program uses \<open>float\<close>.  The first part is the code of one thread
  with nobody else at work.  The second part splits a deposit and a balance into the calls of the lock
  functions and of the map, and interleaves threads.  \<open>draw\<close> stands for the scaled call of the
  library's \<open>rand_r\<close>, as in theory Bench.
\<close>

subsection \<open>Random keys\<close>

function rand_integer_loop :: "(int \<Rightarrow> u32 \<Rightarrow> int \<times> u32) \<Rightarrow> int \<Rightarrow> u32 \<Rightarrow> u32 \<Rightarrow> u32 \<times> u32" where
  "rand_integer_loop draw r v seed =
     (case draw (if int_max > r then r else int_max) seed of (x, seed) \<Rightarrow>
        let v = v + (1 + word_of_int x) in
        if r - int_max > 0 then rand_integer_loop draw (r - int_max) v seed else (v, seed))"
  by pat_completeness auto
termination by (relation "measure (\<lambda>(draw, r, v, seed). nat r)") (auto simp: int_max_def)

declare rand_integer_loop.simps [simp del]

definition rand_integer :: "(int \<Rightarrow> u32 \<Rightarrow> int \<times> u32) \<Rightarrow> u32 \<Rightarrow> int \<Rightarrow> u32 \<times> u32" where
  "rand_integer draw seed r = rand_integer_loop draw r 0 seed"

subsection \<open>One thread\<close>

record 'v thread_data =
  td_seed :: u32
  td_keyRange :: u32
  td_iters :: u32
  td_deposit :: 'v
  td_nb_deposits :: u64
  td_deposits :: u64
  td_nb_balances :: u64
  td_balances :: u64

definition constructThreadData :: "u32 \<Rightarrow> u32 \<Rightarrow> u32 \<Rightarrow> 'v \<Rightarrow> 'v thread_data" where
  "constructThreadData seed keyRange iters amount =
     \<lparr>td_seed = seed, td_keyRange = keyRange, td_iters = iters, td_deposit = amount,
      td_nb_deposits = 0, td_deposits = 0, td_nb_balances = 0, td_balances = 0\<rparr>"

definition applyDeposit :: "'v :: {zero, plus, minus} simplemap \<Rightarrow> int \<Rightarrow> int \<Rightarrow> 'v \<Rightarrow> (bool \<times> 'v simplemap) option" where
  "applyDeposit m keySource keyTarget amount =
     do { (source, found) \<leftarrow> sm_lookup m keySource;
          if found then
            do { (b, m) \<leftarrow> sm_update m keySource (source - amount);
                 (target, found) \<leftarrow> sm_lookup m keyTarget;
                 if found then do { (b, m) \<leftarrow> sm_update m keyTarget (target + amount); Some (True, m) }
                 else do { (b, m) \<leftarrow> sm_update m keySource source; Some (False, m) } }
          else Some (False, m) }"

fun balance_loop :: "'v :: {zero, plus} simplemap \<Rightarrow> int list \<Rightarrow> 'v \<Rightarrow> 'v option" where
  "balance_loop m [] tot = Some tot"
| "balance_loop m (i # is) tot = do { (v, b) \<leftarrow> sm_lookup m i; balance_loop m is (tot + v) }"

definition balance :: "'v :: {zero, plus} simplemap \<Rightarrow> u32 \<Rightarrow> 'v option" where
  "balance m rng = balance_loop m (map int [0..<unat rng]) 0"

text \<open>The keys are unsigned, the parameters of \<open>applyDeposit\<close> signed.\<close>

definition deposit_keys :: "(int \<Rightarrow> u32 \<Rightarrow> int \<times> u32) \<Rightarrow> 'v thread_data \<Rightarrow> int \<times> int \<times> 'v thread_data" where
  "deposit_keys draw td =
     (case rand_integer draw (td_seed td) (uint (td_keyRange td - 1)) of (s, g) \<Rightarrow>
      case rand_integer draw g (uint (td_keyRange td - 1)) of (t, g) \<Rightarrow> (sint s, sint t, td\<lparr>td_seed := g\<rparr>))"

definition deposit :: "(int \<Rightarrow> u32 \<Rightarrow> int \<times> u32) \<Rightarrow> 'v :: {zero, plus, minus} simplemap \<Rightarrow> 'v thread_data \<Rightarrow>
    (bool \<times> 'v simplemap \<times> 'v thread_data) option" where
  "deposit draw m td =
     (case deposit_keys draw td of (s, t, td) \<Rightarrow>
        do { (b, m) \<leftarrow> applyDeposit m s t (td_deposit td); Some (b, m, td) })"

definition work_round :: "(int \<Rightarrow> u32 \<Rightarrow> int \<times> u32) \<Rightarrow> 'v :: {zero, plus, minus} simplemap \<Rightarrow> 'v thread_data \<Rightarrow>
    ('v simplemap \<times> 'v thread_data) option" where
  "work_round draw m td =
     (case rand_integer draw (td_seed td) 100 of (z, g) \<Rightarrow>
        let td = td\<lparr>td_seed := g\<rparr> in
        if 20 \<le> z then
          do { (result, m, td) \<leftarrow> deposit draw m td;
               let td = (if result then td\<lparr>td_nb_deposits := td_nb_deposits td + 1\<rparr> else td);
               Some (m, td\<lparr>td_deposits := td_deposits td + 1\<rparr>) }
        else
          do { result \<leftarrow> balance m (td_keyRange td);
               let td = (if result \<noteq> 0 then td\<lparr>td_nb_balances := td_nb_balances td + 1\<rparr> else td);
               Some (m, td\<lparr>td_balances := td_balances td + 1\<rparr>) })"

fun work_rounds :: "(int \<Rightarrow> u32 \<Rightarrow> int \<times> u32) \<Rightarrow> nat \<Rightarrow> 'v :: {zero, plus, minus} simplemap \<Rightarrow> 'v thread_data \<Rightarrow>
    ('v simplemap \<times> 'v thread_data) option" where
  "work_rounds draw 0 m td = Some (m, td)"
| "work_rounds draw (Suc n) m td = do { (m, td) \<leftarrow> work_round draw m td; work_rounds draw n m td }"

definition do_work :: "(int \<Rightarrow> u32 \<Rightarrow> int \<times> u32) \<Rightarrow> 'v :: {zero, plus, minus} simplemap \<Rightarrow> 'v thread_data \<Rightarrow>
    ('v simplemap \<times> 'v thread_data) option" where
  "do_work draw m td = work_rounds draw (unat (td_iters td)) m td"

text \<open>The accounts at the start: keys 0 to \<open>key_max\<close> - 1 with the same balance.\<close>

fun fill_loop :: "'v simplemap \<Rightarrow> 'v \<Rightarrow> int list \<Rightarrow> 'v simplemap option" where
  "fill_loop m x [] = Some m"
| "fill_loop m x (i # is) = do { (b, m) \<leftarrow> sm_insert m i x; fill_loop m x is }"

definition fill_accounts :: "u32 \<Rightarrow> int \<Rightarrow> 'v \<Rightarrow> 'v simplemap option" where
  "fill_accounts buckets key_max x = fill_loop (simplemap_new buckets) x (map int [0..<nat key_max])"

subsection \<open>Locks\<close>

text \<open>What a thread asks for: the buckets of source and target of a deposit, or all buckets for a balance.\<close>

datatype bank_request = Deposit_locks u32 u32 | Balance_locks

definition acquireWriteLocks :: "u32 \<Rightarrow> u32 \<Rightarrow> claim list" where
  "acquireWriteLocks i j = [(sint i, Exclusive), (sint j, Exclusive)]"

definition acquireWriteLock :: "u32 \<Rightarrow> claim list" where
  "acquireWriteLock i = [(sint i, Exclusive)]"

definition acquireAll_Reader :: "u32 \<Rightarrow> claim list" where
  "acquireAll_Reader lockSize = map (\<lambda>i. (int i, Shared)) [0..<unat lockSize]"

fun bank_plan :: "u32 \<Rightarrow> bank_request \<Rightarrow> claim list" where
  "bank_plan n (Deposit_locks sourceBucket targetBucket) =
     (if sourceBucket < targetBucket then acquireWriteLocks sourceBucket targetBucket
      else if targetBucket < sourceBucket then acquireWriteLocks targetBucket sourceBucket
      else acquireWriteLock targetBucket)"
| "bank_plan n Balance_locks = acquireAll_Reader n"

definition deposit_plan :: "u32 \<Rightarrow> int \<Rightarrow> int \<Rightarrow> claim list" where
  "deposit_plan n s t = bank_plan n (Deposit_locks (word_of_int s mod n) (word_of_int t mod n))"

subsection \<open>Interleaved threads\<close>

text \<open>Where a thread stands.  \<open>DLock s t todo held\<close> has taken the locks \<open>held\<close>; \<open>DSub s t v\<close> has read the source;
  \<open>DRead2\<close> has written it and reads the target; \<open>DAdd\<close> has read the target; \<open>DBack\<close> found no target and
  restores the source; \<open>DFree\<close> releases.  \<open>BLock\<close>, \<open>BRead i tot\<close> and \<open>BFree\<close> are the balance's.\<close>

datatype 'v bank_pc =
    DLock int int "claim list" "claim list"
  | DRead int int
  | DSub int int 'v
  | DRead2 int int 'v
  | DAdd int int 'v
  | DBack int int 'v
  | DFree bool "claim list"
  | DDone bool
  | BLock "claim list" "claim list"
  | BRead nat 'v
  | BFree 'v "claim list"
  | BDone 'v

fun claims :: "u32 \<Rightarrow> 'v bank_pc \<Rightarrow> claim list" where
  "claims n (DLock s t todo held) = held"
| "claims n (DRead s t) = deposit_plan n s t"
| "claims n (DSub s t v) = deposit_plan n s t"
| "claims n (DRead2 s t v) = deposit_plan n s t"
| "claims n (DAdd s t v) = deposit_plan n s t"
| "claims n (DBack s t v) = deposit_plan n s t"
| "claims n (DFree b held) = held"
| "claims n (DDone b) = []"
| "claims n (BLock todo held) = held"
| "claims n (BRead i tot) = bank_plan n Balance_locks"
| "claims n (BFree tot held) = held"
| "claims n (BDone tot) = []"

definition free_of :: "claim \<Rightarrow> claim list \<Rightarrow> bool" where
  "free_of c others \<longleftrightarrow> list_all (\<lambda>c'. \<not> conflict c c') others"

fun bank_pc_step :: "u32 \<Rightarrow> nat \<Rightarrow> 'v :: {zero, plus, minus} \<Rightarrow> claim list \<Rightarrow> 'v simplemap \<Rightarrow> 'v bank_pc \<Rightarrow>
    ('v simplemap \<times> 'v bank_pc) option" where
  "bank_pc_step n rng amount others m (DLock s t (c # todo) held) =
     (if free_of c others then Some (m, if todo = [] then DRead s t else DLock s t todo (held @ [c])) else None)"
| "bank_pc_step n rng amount others m (DRead s t) =
     do { (v, found) \<leftarrow> sm_lookup m s; Some (m, if found then DSub s t v else DFree False (deposit_plan n s t)) }"
| "bank_pc_step n rng amount others m (DSub s t v) =
     do { (b, m) \<leftarrow> sm_update m s (v - amount); Some (m, DRead2 s t v) }"
| "bank_pc_step n rng amount others m (DRead2 s t v) =
     do { (w, found) \<leftarrow> sm_lookup m t; Some (m, if found then DAdd s t w else DBack s t v) }"
| "bank_pc_step n rng amount others m (DAdd s t w) =
     do { (b, m) \<leftarrow> sm_update m t (w + amount); Some (m, DFree True (deposit_plan n s t)) }"
| "bank_pc_step n rng amount others m (DBack s t v) =
     do { (b, m) \<leftarrow> sm_update m s v; Some (m, DFree False (deposit_plan n s t)) }"
| "bank_pc_step n rng amount others m (DFree b (c # held)) = Some (m, if held = [] then DDone b else DFree b held)"
| "bank_pc_step n rng amount others m (BLock (c # todo) held) =
     (if free_of c others then Some (m, if todo = [] then BRead 0 0 else BLock todo (held @ [c])) else None)"
| "bank_pc_step n rng amount others m (BRead i tot) =
     (if i < rng then do { (v, found) \<leftarrow> sm_lookup m (int i); Some (m, BRead (Suc i) (tot + v)) }
      else Some (m, BFree tot (bank_plan n Balance_locks)))"
| "bank_pc_step n rng amount others m (BFree tot (c # held)) = Some (m, if held = [] then BDone tot else BFree tot held)"
| "bank_pc_step n rng amount others m _ = None"

record 'v bank =
  bk_map :: "'v simplemap"
  bk_pcs :: "'v bank_pc list"

datatype bank_event = Begin_deposit nat int int | Begin_balance nat | Go nat

definition idle_pc :: "'v bank_pc \<Rightarrow> bool" where
  "idle_pc pc \<longleftrightarrow> (case pc of DDone b \<Rightarrow> True | BDone tot \<Rightarrow> True | _ \<Rightarrow> False)"

text \<open>The locks that the threads other than j hold\<close>

definition others_claims :: "u32 \<Rightarrow> 'v bank_pc list \<Rightarrow> nat \<Rightarrow> claim list" where
  "others_claims n pcs j = concat (map (\<lambda>i. if i = j then [] else claims n (pcs ! i)) [0..<length pcs])"

fun bank_step :: "nat \<Rightarrow> 'v :: {zero, plus, minus} \<Rightarrow> bank_event \<Rightarrow> 'v bank \<Rightarrow> 'v bank option" where
  "bank_step rng amount (Begin_deposit j s t) b =
     (if j < length (bk_pcs b) \<and> idle_pc (bk_pcs b ! j)
      then Some (b\<lparr>bk_pcs := (bk_pcs b)[j := DLock s t (deposit_plan (sm_buckets (bk_map b)) s t) []]\<rparr>) else None)"
| "bank_step rng amount (Begin_balance j) b =
     (if j < length (bk_pcs b) \<and> idle_pc (bk_pcs b ! j)
      then Some (b\<lparr>bk_pcs := (bk_pcs b)[j := BLock (bank_plan (sm_buckets (bk_map b)) Balance_locks) []]\<rparr>) else None)"
| "bank_step rng amount (Go j) b =
     (if j < length (bk_pcs b) then
        (let n = sm_buckets (bk_map b) in
         do { (m, pc) \<leftarrow> bank_pc_step n rng amount (others_claims n (bk_pcs b) j) (bk_map b) (bk_pcs b ! j);
              Some (b\<lparr>bk_map := m, bk_pcs := (bk_pcs b)[j := pc]\<rparr>) })
      else None)"

fun bank_run :: "nat \<Rightarrow> 'v :: {zero, plus, minus} \<Rightarrow> bank_event list \<Rightarrow> 'v bank \<Rightarrow> 'v bank option" where
  "bank_run rng amount [] b = Some b"
| "bank_run rng amount (e # es) b = do { b \<leftarrow> bank_step rng amount e b; bank_run rng amount es b }"

definition bank_new :: "'v simplemap \<Rightarrow> nat \<Rightarrow> 'v bank" where
  "bank_new m threads = \<lparr>bk_map = m, bk_pcs = replicate threads (DDone False)\<rparr>"

end
