(* ===== verification/BankInv.thy ===== *)
theory BankInv
  imports Bank
begin

text \<open>
  The bank keeps its money.  Amounts are of a group: additions are exact, which holds of the program's
  \<open>float\<close>s only while no sum is rounded.  The lock requests ascend, so threads never deadlock; while a balance
  holds its read locks no deposit is under way, so it sees the whole sum.
\<close>

subsection \<open>Sums over the accounts\<close>

definition holdings :: "nat \<Rightarrow> (int \<rightharpoonup> 'v :: ab_group_add) \<Rightarrow> 'v" where
  "holdings n f = (\<Sum>i<n. the (f (int i)))"

definition accounts_ok :: "nat \<Rightarrow> 'v simplemap \<Rightarrow> bool" where
  "accounts_ok n m \<longleftrightarrow> sm_ok m \<and> dom (sm_map m) = int ` {..<n}"

lemma account_found:
  assumes "accounts_ok n m" "i < n"
  shows "sm_map m (int i) = Some (the (sm_map m (int i)))"
proof -
  have "int i \<in> dom (sm_map m)" using assms by (auto simp: accounts_ok_def)
  then show ?thesis by auto
qed

lemma account_key: "accounts_ok n m \<Longrightarrow> sm_map m k = Some v \<Longrightarrow> 0 \<le> k \<and> nat k < n \<and> int (nat k) = k"
proof -
  assume a: "accounts_ok n m" "sm_map m k = Some v"
  then have "k \<in> int ` {..<n}" unfolding accounts_ok_def by blast
  then show ?thesis by auto
qed

lemma holdings_update:
  assumes "accounts_ok n m" "sm_map m k = Some v"
  shows "holdings n ((sm_map m)(k \<mapsto> x)) = holdings n (sm_map m) - v + x"
proof -
  have k: "nat k < n" "int (nat k) = k" using account_key [OF assms] by simp_all
  have "holdings n ((sm_map m)(k \<mapsto> x)) = x + (\<Sum>i\<in>{..<n} - {nat k}. the (((sm_map m)(k \<mapsto> x)) (int i)))"
    unfolding holdings_def using k by (subst sum.remove [of _ "nat k"]) simp_all
  also have "(\<Sum>i\<in>{..<n} - {nat k}. the (((sm_map m)(k \<mapsto> x)) (int i))) = (\<Sum>i\<in>{..<n} - {nat k}. the (sm_map m (int i)))"
    using k by (intro sum.cong) auto
  finally have 1: "holdings n ((sm_map m)(k \<mapsto> x)) = x + (\<Sum>i\<in>{..<n} - {nat k}. the (sm_map m (int i)))" .
  have "holdings n (sm_map m) = the (sm_map m k) + (\<Sum>i\<in>{..<n} - {nat k}. the (sm_map m (int i)))"
    unfolding holdings_def using k by (subst sum.remove [of _ "nat k"]) simp_all
  with 1 assms(2) show ?thesis by simp
qed

text \<open>What an update of an account does\<close>

lemma update_account:
  assumes "accounts_ok n m" "sm_map m k = Some v"
  shows "\<exists>m'. sm_update m k x = Some (True, m') \<and> accounts_ok n m' \<and> sm_buckets m' = sm_buckets m \<and>
    sm_map m' = (sm_map m)(k \<mapsto> x) \<and> holdings n (sm_map m') = holdings n (sm_map m) - v + x"
proof -
  have k: "k \<in> dom (sm_map m)" using assms(2) by auto
  from sm_update_ok [of m k x] assms(1) k obtain m' where m': "sm_update m k x = Some (True, m')" "sm_ok m'"
    "sm_buckets m' = sm_buckets m" "sm_map m' = (sm_map m)(k \<mapsto> x)" by (auto simp: accounts_ok_def)
  moreover have "dom (sm_map m') = dom (sm_map m)" unfolding m'(4) using k by auto
  ultimately show ?thesis using assms(1) holdings_update [OF assms] by (auto simp: accounts_ok_def)
qed

lemma lookup_account: "accounts_ok n m \<Longrightarrow> sm_lookup m k = Some (case sm_map m k of Some v \<Rightarrow> (v, True) | None \<Rightarrow> (0, False))"
  by (rule sm_lookup_ok) (simp add: accounts_ok_def)

subsection \<open>One thread\<close>

lemma applyDeposit_ok:
  assumes "accounts_ok n (m :: 'v :: ab_group_add simplemap)"
  shows "\<exists>m'. applyDeposit m s t a = Some (s \<in> dom (sm_map m) \<and> t \<in> dom (sm_map m), m') \<and> accounts_ok n m' \<and>
    holdings n (sm_map m') = holdings n (sm_map m)"
proof (cases "sm_map m s")
  case None
  then show ?thesis using lookup_account [OF assms, of s] assms by (auto simp: applyDeposit_def)
next
  case (Some v)
  from update_account [OF assms Some, of "v - a"] obtain m1 where m1: "sm_update m s (v - a) = Some (True, m1)" "accounts_ok n m1"
    "sm_map m1 = (sm_map m)(s \<mapsto> v - a)" "holdings n (sm_map m1) = holdings n (sm_map m) - v + (v - a)" by auto
  show ?thesis
  proof (cases "sm_map m1 t")
    case None
    have "sm_map m1 s = Some (v - a)" using m1(3) by simp
    from update_account [OF m1(2) this, of v] obtain m2 where m2: "sm_update m1 s v = Some (True, m2)" "accounts_ok n m2"
      "holdings n (sm_map m2) = holdings n (sm_map m1) - (v - a) + v" by auto
    have "t \<notin> dom (sm_map m)" using None m1(3) by (auto split: if_splits)
    with m1 m2 None Some lookup_account [OF assms, of s] lookup_account [OF m1(2), of t] show ?thesis by (simp add: applyDeposit_def)
  next
    case w: (Some w)
    from update_account [OF m1(2) w, of "w + a"] obtain m2 where m2: "sm_update m1 t (w + a) = Some (True, m2)" "accounts_ok n m2"
      "holdings n (sm_map m2) = holdings n (sm_map m1) - w + (w + a)" by auto
    have "t \<in> dom (sm_map m)" using w m1(3) Some by (auto split: if_splits)
    with m1 m2 w Some lookup_account [OF assms, of s] lookup_account [OF m1(2), of t] show ?thesis by (auto simp: applyDeposit_def)
  qed
qed

lemma balance_loop_ok:
  assumes "accounts_ok n (m :: 'v :: ab_group_add simplemap)" "k \<le> n"
  shows "balance_loop m (map int [k..<n]) x = Some (x + (\<Sum>i\<in>{k..<n}. the (sm_map m (int i))))"
  using assms(2)
proof (induction "n - k" arbitrary: k x)
  case (Suc d)
  then have k: "k < n" by simp
  then have "[k..<n] = k # [Suc k..<n]" by (simp add: upt_conv_Cons)
  moreover have "{k..<n} = insert k {Suc k..<n}" using k by auto
  moreover obtain v where "sm_map m (int k) = Some v" using account_found [OF assms(1) k] by blast
  ultimately show ?case using Suc lookup_account [OF assms(1), of "int k"] by (simp add: add.assoc)
qed simp

lemma balance_ok: "accounts_ok (unat rng) (m :: 'v :: ab_group_add simplemap) \<Longrightarrow> balance m rng = Some (holdings (unat rng) (sm_map m))"
  using balance_loop_ok [of "unat rng" m 0 0] by (simp add: balance_def holdings_def atLeast0LessThan)

lemma work_rounds_ok:
  assumes "accounts_ok n (m :: 'v :: ab_group_add simplemap)" "n = unat (td_keyRange td)"
  shows "\<exists>m' td'. work_rounds draw k m td = Some (m', td') \<and> accounts_ok n m' \<and> holdings n (sm_map m') = holdings n (sm_map m)"
  using assms
proof (induction k arbitrary: m td)
  case (Suc k)
  obtain z g where z: "rand_integer draw (td_seed td) 100 = (z, g)" by fastforce
  let ?td = "td\<lparr>td_seed := g\<rparr>"
  have "\<exists>m1 td1. work_round draw m td = Some (m1, td1) \<and> accounts_ok n m1 \<and> holdings n (sm_map m1) = holdings n (sm_map m) \<and>
      td_keyRange td1 = td_keyRange td"
  proof (cases "20 \<le> z")
    case True
    obtain s t td1 where k: "deposit_keys draw ?td = (s, t, td1)" by (cases "deposit_keys draw ?td") auto
    then have td1: "td_keyRange td1 = td_keyRange td" by (auto simp: deposit_keys_def split: prod.splits)
    from applyDeposit_ok [OF Suc.prems(1), of s t "td_deposit td1"] obtain b m1 where
      m1: "applyDeposit m s t (td_deposit td1) = Some (b, m1)" "accounts_ok n m1" "holdings n (sm_map m1) = holdings n (sm_map m)"
      by blast
    let ?td1 = "if b then td1\<lparr>td_nb_deposits := td_nb_deposits td1 + 1\<rparr> else td1"
    have "work_round draw m td = Some (m1, ?td1\<lparr>td_deposits := td_deposits ?td1 + 1\<rparr>)"
      using True z k m1(1) by (simp add: work_round_def deposit_def Let_def)
    with m1 td1 show ?thesis by (intro exI [of _ m1] exI [of _ "?td1\<lparr>td_deposits := td_deposits ?td1 + 1\<rparr>"]) simp
  next
    case False
    with z balance_ok [of "td_keyRange td" m] Suc.prems show ?thesis by (auto simp: work_round_def Let_def)
  qed
  then obtain m1 td1 where r: "work_round draw m td = Some (m1, td1)" "accounts_ok n m1" "holdings n (sm_map m1) = holdings n (sm_map m)"
    "td_keyRange td1 = td_keyRange td" by blast
  with Suc.IH [OF r(2), of td1] Suc.prems show ?case by auto
qed auto

lemma fill_loop_ok:
  assumes "sm_ok m" "dom (sm_map m) = int ` {..<k}" "k \<le> n" "\<forall>i < k. sm_map m (int i) = Some x"
  shows "\<exists>m'. fill_loop m x (map int [k..<n]) = Some m' \<and> accounts_ok n m' \<and> sm_buckets m' = sm_buckets m \<and> (\<forall>i < n. sm_map m' (int i) = Some x)"
  using assms
proof (induction "n - k" arbitrary: m k)
  case 0
  then show ?case by (simp add: accounts_ok_def)
next
  case (Suc d)
  then have k: "k < n" "[k..<n] = k # [Suc k..<n]" by (simp_all add: upt_conv_Cons)
  have "int k \<notin> dom (sm_map m)" using Suc.prems(2) by auto
  with sm_insert_ok [OF Suc.prems(1), of "int k" x] obtain m' where m': "sm_insert m (int k) x = Some (True, m')" "sm_ok m'"
    "sm_buckets m' = sm_buckets m" "sm_map m' = (sm_map m)(int k \<mapsto> x)" by auto
  have d: "dom (sm_map m') = int ` {..<Suc k}" using Suc.prems(2) m'(4) by (auto simp: lessThan_Suc)
  have x: "\<forall>i < Suc k. sm_map m' (int i) = Some x" using Suc.prems(4) m'(4) by (auto simp: less_Suc_eq)
  from Suc.hyps(1) [of "Suc k" m'] Suc.hyps(2) m'(1-3) d x k show ?case by auto
qed

lemma fill_accounts_ok:
  assumes "buckets \<noteq> 0"
  shows "\<exists>m. fill_accounts buckets key_max (x :: 'v :: ab_group_add) = Some m \<and> accounts_ok (nat key_max) m \<and> sm_buckets m = buckets \<and>
    holdings (nat key_max) (sm_map m) = (\<Sum>i<nat key_max. x)"
proof -
  obtain m where m: "fill_accounts buckets key_max x = Some m" "accounts_ok (nat key_max) m" "sm_buckets m = buckets"
    "\<forall>i < nat key_max. sm_map m (int i) = Some x"
    using fill_loop_ok [of "simplemap_new buckets" 0 "nat key_max" x] simplemap_new_ok [OF assms, where 'v = 'v]
    by (auto simp: fill_accounts_def simplemap_new_def)
  have "holdings (nat key_max) (sm_map m) = (\<Sum>i<nat key_max. x)" unfolding holdings_def using m(4) by (intro sum.cong) simp_all
  with m show ?thesis by blast
qed

subsection \<open>Lock requests ascend\<close>

lemma bucket_less: "n \<noteq> 0 \<Longrightarrow> unat ((k :: u32) mod n) < unat n"
  by (simp add: unat_mod_distrib unat_gt_0)

lemma bucket_sint:
  assumes "n \<noteq> 0" "uint n \<le> int_max"
  shows "sint ((k :: u32) mod n) = int (unat (k mod n))"
proof -
  have "int (unat (k mod n)) < int (unat n)" using bucket_less [OF assms(1), of k] by (simp only: of_nat_less_iff)
  with assms(2) have "uint (k mod n) < 2 ^ 31" unfolding uint_nat int_max_def by simp
  from sint_small [OF this] show ?thesis by (simp only: uint_nat)
qed

text \<open>Requests name keys, or are a balance; with more buckets than an \<open>int\<close> counts the lock functions could not
  be called.\<close>

definition key_plan :: "u32 \<Rightarrow> (int \<times> int) option \<Rightarrow> claim list" where
  "key_plan n r =
     (if n = 0 \<or> uint n > int_max then []
      else case r of Some (s, t) \<Rightarrow> deposit_plan n s t | None \<Rightarrow> bank_plan n Balance_locks)"

lemma deposit_plan_eq:
  assumes "n \<noteq> 0" "uint n \<le> int_max" "i = word_of_int s mod n" "j = word_of_int t mod n"
  shows "deposit_plan n s t =
    (if unat i < unat j then [(int (unat i), Exclusive), (int (unat j), Exclusive)]
     else if unat j < unat i then [(int (unat j), Exclusive), (int (unat i), Exclusive)]
     else [(int (unat j), Exclusive)])"
proof -
  have "sint i = int (unat i)" "sint j = int (unat j)" unfolding assms(3,4) by (rule bucket_sint [OF assms(1,2)])+
  then show ?thesis
    unfolding deposit_plan_def bank_plan.simps acquireWriteLocks_def acquireWriteLock_def assms(3) [symmetric] assms(4) [symmetric]
      word_less_nat_alt by (simp only:)
qed

lemma key_plan_ascending: "ascending (map fst (key_plan n r))"
proof (cases "n = 0 \<or> uint n > int_max")
  case False
  then have n: "n \<noteq> 0" "uint n \<le> int_max" by simp_all
  show ?thesis
  proof (cases r)
    case None
    then show ?thesis using False by (simp add: key_plan_def acquireAll_Reader_def ascending_def sorted_wrt_map comp_def)
  next
    case (Some st)
    obtain s t where st: "st = (s, t)" by fastforce
    have "ascending (map fst (deposit_plan n s t))"
      unfolding deposit_plan_eq [OF n refl refl] ascending_def
      by (cases "unat (word_of_int s mod n :: u32)" "unat (word_of_int t mod n :: u32)" rule: linorder_cases) (simp_all only: if_True if_False list.map sorted_wrt.simps fst_conv of_nat_less_iff list.set ball_simps less_irrefl less_not_sym simp_thms)
    then show ?thesis using n Some st by (simp add: key_plan_def)
  qed
qed (simp add: key_plan_def ascending_def)

interpretation bank_locks: ordered_requests "key_plan n"
  by unfold_locales (rule key_plan_ascending)

end
