(* ===== verification/BankSteps.thy ===== *)
theory BankSteps
  imports BankInv
begin

text \<open>
  The interleaved threads of the bank.  Their lock calls implement the lock system of theory LockOrder with the
  requests of deposits and balances (\<open>lock_view\<close>), so its exclusion and its progress hold of them.  The
  invariant then follows the money: what the accounts hold and what deposits have under way is the total.
\<close>

subsection \<open>What a thread claims\<close>

definition slot :: "u32 \<Rightarrow> int \<Rightarrow> int" where
  "slot n k = sint (word_of_int k mod n)"

lemma deposit_plan_slots: "(slot n s, Exclusive) \<in> set (deposit_plan n s t)" "(slot n t, Exclusive) \<in> set (deposit_plan n s t)"
proof -
  consider "word_of_int s mod n < (word_of_int t mod n :: u32)" | "word_of_int t mod n < (word_of_int s mod n :: u32)"
    | "word_of_int s mod n = (word_of_int t mod n :: u32)" by (rule linorder_cases)
  then show "(slot n s, Exclusive) \<in> set (deposit_plan n s t)" "(slot n t, Exclusive) \<in> set (deposit_plan n s t)"
    by (cases, simp_all only: deposit_plan_def bank_plan.simps acquireWriteLocks_def acquireWriteLock_def slot_def if_True if_False
      less_irrefl less_not_sym list.set insert_iff simp_thms)+
qed

lemma deposit_plan_length: "deposit_plan n s t \<noteq> []" "length (deposit_plan n s t) \<le> 2"
  by (simp_all add: deposit_plan_def acquireWriteLocks_def acquireWriteLock_def)

lemma balance_plan_slot:
  assumes "n \<noteq> 0" "uint n \<le> int_max"
  shows "(slot n k, Shared) \<in> set (bank_plan n Balance_locks)"
  unfolding slot_def bucket_sint [OF assms] acquireAll_Reader_def bank_plan.simps
  using bucket_less [OF assms(1), of "word_of_int k"] by (simp only: set_map set_upt) (rule image_eqI, rule refl, simp only: atLeastLessThan_iff le0 simp_thms)

lemma balance_plan_length: "length (bank_plan n Balance_locks) = unat n"
  by (simp add: acquireAll_Reader_def)

lemma key_plan_deposit: "n \<noteq> 0 \<Longrightarrow> uint n \<le> int_max \<Longrightarrow> key_plan n (Some (s, t)) = deposit_plan n s t"
  by (simp add: key_plan_def)

lemma key_plan_balance: "n \<noteq> 0 \<Longrightarrow> uint n \<le> int_max \<Longrightarrow> key_plan n None = bank_plan n Balance_locks"
  by (simp add: key_plan_def)

lemma key_plan_distinct: "distinct (key_plan n r)"
  using key_plan_ascending [of n r] unfolding ascending_def by (simp add: strict_sorted_iff distinct_map)

subsection \<open>The threads as users of locks\<close>

fun todo_of :: "'v bank_pc \<Rightarrow> claim list" where
  "todo_of (DLock s t todo held) = todo"
| "todo_of (BLock todo held) = todo"
| "todo_of pc = []"

definition lock_view :: "'v bank \<Rightarrow> lock_sys" where
  "lock_view b =
     (let n = sm_buckets (bk_map b); pcs = bk_pcs b in
      \<lparr>holding = (\<lambda>j. if j < length pcs then rev (claims n (pcs ! j)) else []),
       wanting = (\<lambda>j. if j < length pcs then todo_of (pcs ! j) else [])\<rparr>)"

text \<open>The locks of a thread belong to its request.\<close>

fun lock_pc :: "u32 \<Rightarrow> 'v bank_pc \<Rightarrow> bool" where
  "lock_pc n (DLock s t todo held) \<longleftrightarrow> held @ todo = deposit_plan n s t \<and> todo \<noteq> []"
| "lock_pc n (BLock todo held) \<longleftrightarrow> held @ todo = bank_plan n Balance_locks \<and> todo \<noteq> []"
| "lock_pc n (DFree b held) \<longleftrightarrow> distinct held \<and> held \<noteq> [] \<and> length held \<le> 2"
| "lock_pc n (BFree tot held) \<longleftrightarrow> distinct held \<and> held \<noteq> []"
| "lock_pc n pc \<longleftrightarrow> True"

text \<open>What a step does to the locks of its thread: nothing, a grant, or a release\<close>

definition lock_move :: "claim list \<Rightarrow> claim list \<Rightarrow> claim list \<Rightarrow> claim list \<Rightarrow> claim list \<Rightarrow> bool" where
  "lock_move others held todo held' todo' \<longleftrightarrow>
     held' = held \<and> todo' = todo
     \<or> (\<exists>c. todo = c # todo' \<and> held' = held @ [c] \<and> free_of c others)
     \<or> (\<exists>c. todo = [] \<and> todo' = [] \<and> held = c # held' \<and> c \<notin> set held')"

lemma plan_distinct:
  assumes "n \<noteq> 0" "uint n \<le> int_max"
  shows "distinct (deposit_plan n s t)" "distinct (bank_plan n Balance_locks)"
  using key_plan_distinct [of n "Some (s, t)"] key_plan_distinct [of n None]
  by (simp_all only: key_plan_deposit [OF assms] key_plan_balance [OF assms])

lemma balance_plan_some: "n \<noteq> 0 \<Longrightarrow> bank_plan n Balance_locks \<noteq> []"
  using balance_plan_length [of n] by (metis length_greater_0_conv unat_gt_0)

lemma pc_step_locks:
  assumes n: "n \<noteq> 0" "uint n \<le> int_max"
    and pc: "lock_pc n pc" and step: "bank_pc_step n rng amount others m pc = Some (m', pc')"
  shows "lock_pc n pc' \<and> lock_move others (claims n pc) (todo_of pc) (claims n pc') (todo_of pc')"
proof (cases pc)
  case (DLock s t todo held)
  then obtain c cs where todo: "todo = c # cs" using pc by (cases todo) auto
  then show ?thesis using pc step DLock by (auto simp: lock_move_def split: if_splits)
next
  case (BLock todo held)
  then obtain c cs where todo: "todo = c # cs" using pc by (cases todo) auto
  then show ?thesis using pc step BLock by (auto simp: lock_move_def simp del: bank_plan.simps split: if_splits)
next
  case (DFree b held)
  then obtain c cs where "held = c # cs" using pc by (cases held) auto
  then show ?thesis using pc step DFree by (auto simp: lock_move_def split: if_splits)
next
  case (BFree tot held)
  then obtain c cs where "held = c # cs" using pc by (cases held) auto
  then show ?thesis using pc step BFree by (auto simp: lock_move_def split: if_splits)
qed (use pc step n plan_distinct [OF n] deposit_plan_length [of n] balance_plan_some [of n] in
  \<open>auto simp: lock_move_def simp del: bank_plan.simps split: if_splits bind_splits\<close>)

text \<open>The lock system of the bank\<close>

definition lock_pcs :: "'v bank \<Rightarrow> bool" where
  "lock_pcs b \<longleftrightarrow> list_all (lock_pc (sm_buckets (bk_map b))) (bk_pcs b)"

lemma view_update:
  assumes "j < length (bk_pcs b)" "sm_buckets m = sm_buckets (bk_map b)"
  shows "lock_view (b\<lparr>bk_map := m, bk_pcs := (bk_pcs b)[j := pc]\<rparr>) =
    (lock_view b)\<lparr>wanting := (wanting (lock_view b))(j := todo_of pc),
      holding := (holding (lock_view b))(j := rev (claims (sm_buckets (bk_map b)) pc))\<rparr>"
  using assms by (auto simp: lock_view_def Let_def fun_eq_iff nth_list_update)

lemma others_claims_set: "set (others_claims n pcs j) = (\<Union>i\<in>{..<length pcs} - {j}. set (claims n (pcs ! i)))"
  by (auto simp: others_claims_def split: if_splits)

lemma free_grantable:
  assumes "free_of c (others_claims n (bk_pcs b) j)" "n = sm_buckets (bk_map b)"
  shows "grantable (lock_view b) j c"
  using assms by (auto simp: grantable_def free_of_def list_all_iff others_claims_set lock_view_def Let_def)

lemma grantable_free:
  assumes "grantable (lock_view b) j c" "n = sm_buckets (bk_map b)"
  shows "free_of c (others_claims n (bk_pcs b) j)"
  using assms by (auto simp: grantable_def free_of_def list_all_iff others_claims_set lock_view_def Let_def)

lemma view_move:
  assumes j: "j < length (bk_pcs b)" and m: "sm_buckets m = sm_buckets (bk_map b)"
    and move: "lock_move (others_claims (sm_buckets (bk_map b)) (bk_pcs b) j)
      (claims (sm_buckets (bk_map b)) (bk_pcs b ! j)) (todo_of (bk_pcs b ! j)) (claims (sm_buckets (bk_map b)) pc) (todo_of pc)"
    and b': "b' = b\<lparr>bk_map := m, bk_pcs := (bk_pcs b)[j := pc]\<rparr>"
  shows "lock_view b' = lock_view b \<or> advance (lock_view b) (lock_view b')"
proof -
  let ?n = "sm_buckets (bk_map b)"
  have now: "holding (lock_view b) j = rev (claims ?n (bk_pcs b ! j))" "wanting (lock_view b) j = todo_of (bk_pcs b ! j)"
    using j by (simp_all add: lock_view_def Let_def)
  note b' = b' view_update [OF j m, of pc]
  from move consider "claims ?n pc = claims ?n (bk_pcs b ! j)" "todo_of pc = todo_of (bk_pcs b ! j)"
    | c where "todo_of (bk_pcs b ! j) = c # todo_of pc" "claims ?n pc = claims ?n (bk_pcs b ! j) @ [c]"
        "free_of c (others_claims ?n (bk_pcs b) j)"
    | c where "todo_of (bk_pcs b ! j) = []" "todo_of pc = []" "claims ?n (bk_pcs b ! j) = c # claims ?n pc" "c \<notin> set (claims ?n pc)"
    unfolding lock_move_def by blast
  then show ?thesis
  proof cases
    case 1
    then show ?thesis using b' now by (metis fun_upd_triv lock_sys.surjective lock_sys.update_convs)
  next
    case (2 c)
    from grant [of "lock_view b" j c "todo_of pc"] free_grantable [OF 2(3) refl] 2 b' now show ?thesis by simp
  next
    case (3 c)
    from release [of "lock_view b" j c] 3 b' now show ?thesis by (simp add: remove1_append fun_upd_idem)
  qed
qed

lemma list_all_update: "list_all P xs \<Longrightarrow> P x \<Longrightarrow> list_all P (xs[i := x])"
  by (auto simp: list_all_iff dest: set_update_subset_insert [THEN subsetD])

subsection \<open>The money\<close>

text \<open>What a thread knows of the accounts.  \<open>T\<close> is the total.\<close>

fun money_pc :: "nat \<Rightarrow> 'v :: ab_group_add \<Rightarrow> 'v \<Rightarrow> (int \<rightharpoonup> 'v) \<Rightarrow> 'v bank_pc \<Rightarrow> bool" where
  "money_pc rng amount T f (DSub s t v) \<longleftrightarrow> f s = Some v"
| "money_pc rng amount T f (DRead2 s t v) \<longleftrightarrow> f s = Some (v - amount)"
| "money_pc rng amount T f (DAdd s t w) \<longleftrightarrow> f t = Some w"
| "money_pc rng amount T f (DBack s t v) \<longleftrightarrow> f s = Some (v - amount)"
| "money_pc rng amount T f (BRead i tot) \<longleftrightarrow> i \<le> rng \<and> tot = holdings i f"
| "money_pc rng amount T f (BFree tot held) \<longleftrightarrow> tot = T"
| "money_pc rng amount T f (BDone tot) \<longleftrightarrow> tot = T"
| "money_pc rng amount T f pc \<longleftrightarrow> True"

fun in_flight :: "'v :: zero \<Rightarrow> 'v bank_pc \<Rightarrow> 'v" where
  "in_flight amount (DRead2 s t v) = amount"
| "in_flight amount (DAdd s t v) = amount"
| "in_flight amount (DBack s t v) = amount"
| "in_flight amount pc = 0"

text \<open>A change of the map that the locks of its thread cover\<close>

definition covered :: "u32 \<Rightarrow> claim list \<Rightarrow> (int \<rightharpoonup> 'v) \<Rightarrow> (int \<rightharpoonup> 'v) \<Rightarrow> bool" where
  "covered n held f f' \<longleftrightarrow> f' = f \<or> (\<exists>k x. f' = f(k \<mapsto> x) \<and> (slot n k, Exclusive) \<in> set held)"

lemma covered_same: "covered n held f f"
  by (simp add: covered_def)

lemma covered_upd: "(slot n k, Exclusive) \<in> set held \<Longrightarrow> covered n held f (f(k \<mapsto> x))"
  by (auto simp: covered_def)

lemma holdings_Suc: "holdings (Suc i) f = holdings i f + the (f (int i))"
  by (simp add: holdings_def)

lemma money_step:
  assumes ok: "accounts_ok rng m" and pc: "money_pc rng amount T (sm_map m) pc" and n: "n = sm_buckets m"
    and lock: "lock_pc n pc"
    and all: "(\<exists>i tot. pc = BRead i tot) \<longrightarrow> holdings rng (sm_map m) = T"
    and step: "bank_pc_step n rng amount others m pc = Some (m', pc')"
  shows "accounts_ok rng m' \<and> sm_buckets m' = n \<and> money_pc rng amount T (sm_map m') pc' \<and>
    holdings rng (sm_map m') + in_flight amount pc' = holdings rng (sm_map m) + in_flight amount pc \<and>
    covered n (claims n pc) (sm_map m) (sm_map m')"
proof (cases pc)
  case (DLock s t todo held)
  then obtain c cs where "todo = c # cs" using lock by (cases todo) auto
  then show ?thesis using assms DLock by (auto simp: covered_same split: if_splits)
next
  case (BLock todo held)
  then obtain c cs where "todo = c # cs" using lock by (cases todo) auto
  then show ?thesis using assms BLock by (auto simp: covered_same holdings_def split: if_splits)
next
  case (DFree b held)
  then obtain c cs where "held = c # cs" using lock by (cases held) auto
  then show ?thesis using assms DFree by (auto simp: covered_same split: if_splits)
next
  case (BFree tot held)
  then obtain c cs where "held = c # cs" using lock by (cases held) auto
  then show ?thesis using assms BFree by (auto simp: covered_same split: if_splits)
next
  case (DRead s t)
  then show ?thesis using ok n step lookup_account [OF ok, of s] by (auto simp: covered_same split: option.splits)
next
  case (DRead2 s t v)
  then show ?thesis using ok n step pc lookup_account [OF ok, of t] by (auto simp: covered_same split: option.splits)
next
  case (DSub s t v)
  then have "sm_map m s = Some v" using pc by simp
  from update_account [OF ok this, of "v - amount"] show ?thesis
    using DSub n step deposit_plan_slots(1) [of n s t] by (auto intro!: covered_upd)
next
  case (DAdd s t v)
  then have "sm_map m t = Some v" using pc by simp
  from update_account [OF ok this, of "v + amount"] show ?thesis
    using DAdd n step deposit_plan_slots(2) [of n t s] by (auto intro!: covered_upd)
next
  case (DBack s t v)
  then have "sm_map m s = Some (v - amount)" using pc by simp
  from update_account [OF ok this, of v] show ?thesis
    using DBack n step deposit_plan_slots(1) [of n s t] by (auto intro!: covered_upd)
next
  case (BRead i tot)
  show ?thesis
  proof (cases "i < rng")
    case True
    obtain v where v: "sm_map m (int i) = Some v" using account_found [OF ok True] by blast
    then have "sm_lookup m (int i) = Some (v, True)" using lookup_account [OF ok, of "int i"] by simp
    then show ?thesis using BRead ok n step pc True v by (auto simp: covered_same holdings_Suc)
  next
    case False
    then have "i = rng" using pc BRead by simp
    then show ?thesis using BRead ok n step pc all by (auto simp: covered_same simp del: bank_plan.simps)
  qed
qed (use step in simp_all)

text \<open>What another thread changes under its locks is nothing this one knows.\<close>

lemma money_frame:
  assumes n: "n \<noteq> 0" "uint n \<le> int_max"
    and pc: "money_pc rng amount T f pc" and cov: "covered n held f f'"
    and apart: "\<And>c c'. c \<in> set held \<Longrightarrow> c' \<in> set (claims n pc) \<Longrightarrow> \<not> conflict c c'"
  shows "money_pc rng amount T f' pc"
proof (cases "f' = f")
  case False
  with cov obtain k x where k: "f' = f(k \<mapsto> x)" "(slot n k, Exclusive) \<in> set held" by (auto simp: covered_def)
  note out = apart [OF k(2)]
  show ?thesis
  proof (cases pc)
    case (DSub s t v)
    with out [of "(slot n s, Exclusive)"] deposit_plan_slots [of n] pc k show ?thesis by auto
  next
    case (DRead2 s t v)
    with out [of "(slot n s, Exclusive)"] deposit_plan_slots [of n] pc k show ?thesis by auto
  next
    case (DBack s t v)
    with out [of "(slot n s, Exclusive)"] deposit_plan_slots [of n] pc k show ?thesis by auto
  next
    case (DAdd s t v)
    with out [of "(slot n t, Exclusive)"] deposit_plan_slots [of n] pc k show ?thesis by auto
  next
    case (BRead i tot)
    with out [of "(slot n k, Shared)"] balance_plan_slot [OF n, of k] show ?thesis by simp
  qed (use pc in simp_all)
qed (use pc in simp)

text \<open>While a balance reads, no deposit has money under way.\<close>

lemma in_flight_excluded:
  assumes "n \<noteq> 0" "uint n \<le> int_max" "in_flight amount pc \<noteq> 0"
    and "\<And>c c'. c \<in> set (bank_plan n Balance_locks) \<Longrightarrow> c' \<in> set (claims n pc) \<Longrightarrow> \<not> conflict c c'"
  shows False
proof -
  obtain s where "(slot n s, Exclusive) \<in> set (claims n pc)"
    using assms(3) deposit_plan_slots [of n] by (cases pc) auto
  from assms(4) [OF balance_plan_slot [OF assms(1,2), of s] this] show False by simp
qed

subsection \<open>All threads\<close>

definition bank_inv :: "nat \<Rightarrow> 'v :: ab_group_add \<Rightarrow> 'v \<Rightarrow> 'v bank \<Rightarrow> bool" where
  "bank_inv rng amount T b \<longleftrightarrow>
     (let n = sm_buckets (bk_map b); m = bk_map b in
      n \<noteq> 0 \<and> uint n \<le> int_max \<and> accounts_ok rng m \<and> lock_reachable (key_plan n) (lock_view b)
      \<and> list_all (lock_pc n) (bk_pcs b) \<and> list_all (money_pc rng amount T (sm_map m)) (bk_pcs b)
      \<and> holdings rng (sm_map m) + sum_list (map (in_flight amount) (bk_pcs b)) = T)"

lemma bank_apart:
  assumes inv: "bank_inv rng amount T b" and "i < length (bk_pcs b)" "j < length (bk_pcs b)" "i \<noteq> j"
    and "c \<in> set (claims (sm_buckets (bk_map b)) (bk_pcs b ! i))" "c' \<in> set (claims (sm_buckets (bk_map b)) (bk_pcs b ! j))"
  shows "\<not> conflict c c'"
proof
  assume "conflict c c'"
  moreover have "lock_reachable (key_plan (sm_buckets (bk_map b))) (lock_view b)" using inv by (simp add: bank_inv_def Let_def)
  moreover have "c \<in> set (holding (lock_view b) i)" "c' \<in> set (holding (lock_view b) j)"
    using assms(2,3,5,6) by (simp_all add: lock_view_def Let_def)
  ultimately have "i = j" by (blast intro: bank_locks.exclusion)
  with assms(4) show False by simp
qed

lemma sum_list_map_update:
  fixes f :: "'a \<Rightarrow> 'v :: ab_group_add"
  shows "i < length xs \<Longrightarrow> sum_list (map f (xs[i := x])) = sum_list (map f xs) - f (xs ! i) + f x"
  by (induction xs arbitrary: i) (auto simp: algebra_simps split: nat.split)

lemma balance_moved: "h' + f' = h + f \<Longrightarrow> h + S = T \<Longrightarrow> h' + (S - f + f') = T" for f :: "'v :: ab_group_add"
proof -
  assume a: "h' + f' = h + f" "h + S = T"
  have "h' + (S - f + f') = (h' + f') + S - f" by (simp add: algebra_simps)
  with a show ?thesis by (simp add: algebra_simps)
qed

text \<open>A reader sees the total.\<close>

lemma reader_total:
  assumes inv: "bank_inv rng amount T b" and j: "j < length (bk_pcs b)" and r: "bk_pcs b ! j = BRead i tot"
  shows "holdings rng (sm_map (bk_map b)) = T"
proof -
  let ?n = "sm_buckets (bk_map b)"
  have n: "?n \<noteq> 0" "uint ?n \<le> int_max" using inv by (simp_all add: bank_inv_def Let_def)
  have "in_flight amount (bk_pcs b ! k) = 0" if k: "k < length (bk_pcs b)" for k
  proof (rule ccontr)
    assume f: "in_flight amount (bk_pcs b ! k) \<noteq> 0"
    then have "k \<noteq> j" using r by auto
    with bank_apart [OF inv j k] r have "\<And>c c'. c \<in> set (bank_plan ?n Balance_locks) \<Longrightarrow> c' \<in> set (claims ?n (bk_pcs b ! k)) \<Longrightarrow> \<not> conflict c c'"
      by (simp del: bank_plan.simps)
    from in_flight_excluded [OF n f this] show False by blast
  qed
  then have "map (in_flight amount) (bk_pcs b) = map (\<lambda>_. 0) (bk_pcs b)"
    by (intro map_cong refl) (auto simp: in_set_conv_nth)
  then have "sum_list (map (in_flight amount) (bk_pcs b)) = 0" by (simp only: sum_list_0)
  with inv show ?thesis by (simp add: bank_inv_def Let_def)
qed

lemma bank_inv_go:
  assumes inv: "bank_inv rng amount T b" and step: "bank_step rng amount (Go j) b = Some b'"
  shows "bank_inv rng amount T b'"
proof -
  let ?n = "sm_buckets (bk_map b)" and ?m = "bk_map b" and ?pc = "bk_pcs b ! j"
  have j: "j < length (bk_pcs b)" using step by (simp split: if_splits)
  from step obtain m' pc' where go: "bank_pc_step ?n rng amount (others_claims ?n (bk_pcs b) j) ?m ?pc = Some (m', pc')"
    and b': "b' = b\<lparr>bk_map := m', bk_pcs := (bk_pcs b)[j := pc']\<rparr>"
    by (auto simp: Let_def split: if_splits bind_splits)
  have i: "?n \<noteq> 0" "uint ?n \<le> int_max" "accounts_ok rng ?m" "lock_reachable (key_plan ?n) (lock_view b)"
    "list_all (lock_pc ?n) (bk_pcs b)" "list_all (money_pc rng amount T (sm_map ?m)) (bk_pcs b)"
    "holdings rng (sm_map ?m) + sum_list (map (in_flight amount) (bk_pcs b)) = T"
    using inv by (simp_all add: bank_inv_def Let_def)
  have pc: "lock_pc ?n ?pc" "money_pc rng amount T (sm_map ?m) ?pc" using i(5,6) j by (simp_all add: list_all_length)
  have total: "(\<exists>i tot. ?pc = BRead i tot) \<longrightarrow> holdings rng (sm_map ?m) = T" using reader_total [OF inv j] by blast
  note l = pc_step_locks [OF i(1,2) pc(1) go]
  note mo = money_step [OF i(3) pc(2) refl pc(1) total go]
  from mo have bu: "sm_buckets m' = ?n" by simp
  from view_move [OF j bu _ b'] l have "lock_view b' = lock_view b \<or> advance (lock_view b) (lock_view b')" by blast
  then have reach: "lock_reachable (key_plan ?n) (lock_view b')"
    using i(4) by (auto intro: lock_reachable.step lock_step.proceed)
  have "list_all (money_pc rng amount T (sm_map m')) ((bk_pcs b)[j := pc'])"
    unfolding list_all_length
  proof (intro allI impI)
    fix k assume k: "k < length ((bk_pcs b)[j := pc'])"
    show "money_pc rng amount T (sm_map m') ((bk_pcs b)[j := pc'] ! k)"
    proof (cases "k = j")
      case False
      have "money_pc rng amount T (sm_map ?m) (bk_pcs b ! k)" using i(6) k by (simp add: list_all_length)
      from money_frame [OF i(1,2) this, of "claims ?n ?pc" "sm_map m'"] mo bank_apart [OF inv j, of k] k False
      show ?thesis by simp
    qed (use mo j in simp)
  qed
  moreover have "holdings rng (sm_map m') + sum_list (map (in_flight amount) ((bk_pcs b)[j := pc'])) = T"
    using balance_moved [OF _ i(7)] mo j by (simp only: sum_list_map_update)
  ultimately show ?thesis
    unfolding bank_inv_def Let_def using b' bu i(1,2) mo reach list_all_update [OF i(5), of pc' j] l by simp
qed

text \<open>No step changes the number of buckets.\<close>

lemma go_buckets:
  assumes inv: "bank_inv rng amount T b" and step: "bank_step rng amount (Go j) b = Some b'"
  shows "sm_buckets (bk_map b') = sm_buckets (bk_map b)"
proof -
  let ?n = "sm_buckets (bk_map b)"
  have j: "j < length (bk_pcs b)" using step by (simp split: if_splits)
  from step obtain m' pc' where go: "bank_pc_step ?n rng amount (others_claims ?n (bk_pcs b) j) (bk_map b) (bk_pcs b ! j) = Some (m', pc')"
    and b': "b' = b\<lparr>bk_map := m', bk_pcs := (bk_pcs b)[j := pc']\<rparr>"
    by (auto simp: Let_def split: if_splits bind_splits)
  have "lock_pc ?n (bk_pcs b ! j)" "money_pc rng amount T (sm_map (bk_map b)) (bk_pcs b ! j)" "accounts_ok rng (bk_map b)"
    using inv j by (simp_all add: bank_inv_def Let_def list_all_length)
  moreover have "(\<exists>i tot. bk_pcs b ! j = BRead i tot) \<longrightarrow> holdings rng (sm_map (bk_map b)) = T" using reader_total [OF inv j] by blast
  ultimately show ?thesis using money_step [OF _ _ refl _ _ go] b' by simp
qed

lemma idle_no_claims: "idle_pc pc \<Longrightarrow> claims n pc = [] \<and> todo_of pc = [] \<and> in_flight amount pc = 0"
  by (cases pc) (simp_all add: idle_pc_def)

lemma bank_inv_begin:
  assumes inv: "bank_inv rng amount T b" and j: "j < length (bk_pcs b)" "idle_pc (bk_pcs b ! j)"
    and pc: "claims (sm_buckets (bk_map b)) pc = []" "todo_of pc = key_plan (sm_buckets (bk_map b)) r" "lock_pc (sm_buckets (bk_map b)) pc"
      "\<And>f. money_pc rng amount T f pc" "in_flight amount pc = 0"
  shows "bank_inv rng amount T (b\<lparr>bk_pcs := (bk_pcs b)[j := pc]\<rparr>)"
proof -
  let ?n = "sm_buckets (bk_map b)" and ?b = "b\<lparr>bk_pcs := (bk_pcs b)[j := pc]\<rparr>"
  have v: "lock_view ?b = (lock_view b)\<lparr>wanting := (wanting (lock_view b))(j := key_plan ?n r)\<rparr>"
    using view_update [OF j(1) refl, of pc] pc idle_no_claims [OF j(2), of ?n] j(1)
    by (simp add: fun_upd_idem lock_view_def Let_def)
  have "\<not> busy (lock_view b) j" using idle_no_claims [OF j(2)] j(1) by (simp add: busy_def lock_view_def Let_def)
  from lock_step.request [OF this, of "key_plan ?n" r] v have "lock_step (key_plan ?n) (lock_view b) (lock_view ?b)" by simp
  with inv have "lock_reachable (key_plan ?n) (lock_view ?b)"
    by (auto simp: bank_inv_def Let_def intro: lock_reachable.step)
  moreover have "list_all (lock_pc ?n) ((bk_pcs b)[j := pc])" "list_all (money_pc rng amount T (sm_map (bk_map b))) ((bk_pcs b)[j := pc])"
    using inv pc by (simp_all add: bank_inv_def Let_def list_all_update)
  ultimately show ?thesis using inv pc(5) idle_no_claims [OF j(2), of ?n amount] j(1)
    by (simp add: bank_inv_def Let_def sum_list_map_update)
qed

lemma bank_inv_step:
  assumes inv: "bank_inv rng amount T b" and step: "bank_step rng amount e b = Some b'"
  shows "bank_inv rng amount T b'"
proof -
  let ?n = "sm_buckets (bk_map b)"
  have n: "?n \<noteq> 0" "uint ?n \<le> int_max" using inv by (simp_all add: bank_inv_def Let_def)
  show ?thesis
  proof (cases e)
    case (Begin_deposit j s t)
    with step have j: "j < length (bk_pcs b)" "idle_pc (bk_pcs b ! j)"
      and b': "b' = b\<lparr>bk_pcs := (bk_pcs b)[j := DLock s t (deposit_plan ?n s t) []]\<rparr>" by (auto split: if_splits)
    show ?thesis unfolding b'
      by (rule bank_inv_begin [OF inv j, of _ "Some (s, t)"]) (simp_all add: key_plan_deposit [OF n] deposit_plan_length)
  next
    case (Begin_balance j)
    with step have j: "j < length (bk_pcs b)" "idle_pc (bk_pcs b ! j)"
      and b': "b' = b\<lparr>bk_pcs := (bk_pcs b)[j := BLock (bank_plan ?n Balance_locks) []]\<rparr>" by (auto split: if_splits)
    show ?thesis unfolding b'
      by (rule bank_inv_begin [OF inv j, of _ None]) (simp_all add: key_plan_balance [OF n] balance_plan_some [OF n(1)] del: bank_plan.simps)
  next
    case (Go j)
    with bank_inv_go [OF inv] step show ?thesis by blast
  qed
qed

lemma bank_inv_run: "bank_run rng amount es b = Some b' \<Longrightarrow> bank_inv rng amount T b \<Longrightarrow> bank_inv rng amount T b'"
  by (induction es arbitrary: b) (auto split: bind_splits dest: bank_inv_step)

lemma sum_list_zeros: "sum_list (replicate k (0 :: 'v :: ab_group_add)) = 0"
  by (induction k) simp_all

lemma bank_inv_new:
  assumes "accounts_ok rng m" "sm_buckets m \<noteq> 0" "uint (sm_buckets m) \<le> int_max"
  shows "bank_inv rng amount (holdings rng (sm_map m)) (bank_new m k)"
proof -
  have "lock_view (bank_new m k) = idle_sys" by (simp add: lock_view_def bank_new_def idle_sys_def Let_def fun_eq_iff)
  then show ?thesis using assms
    by (simp add: bank_inv_def bank_new_def Let_def list_all_iff lock_reachable.start sum_list_zeros)
qed

subsection \<open>Every thread can finish\<close>

lemma pc_step_total:
  assumes ok: "accounts_ok rng m" and pc: "lock_pc n pc" "todo_of pc = []" "\<not> idle_pc pc"
  shows "bank_pc_step n rng amount others m pc \<noteq> None"
proof -
  have "sm_ok m" using ok by (simp add: accounts_ok_def)
  then have look: "\<exists>v b. sm_lookup m k = Some (v, b)" and upd: "\<exists>m' b. sm_update m k x = Some (b, m')" for k x
    using sm_lookup_ok [of m k] sm_update_ok [of m k x] by (auto split: option.splits)
  show ?thesis
  proof (cases pc)
    case (DFree b held)
    with pc show ?thesis by (cases held) simp_all
  next
    case (BFree tot held)
    with pc show ?thesis by (cases held) simp_all
  qed (use pc look upd in \<open>simp_all add: idle_pc_def\<close>)
qed

fun pc_left :: "u32 \<Rightarrow> nat \<Rightarrow> 'v bank_pc \<Rightarrow> nat" where
  "pc_left n rng (DLock s t todo held) = length todo + 7"
| "pc_left n rng (DRead s t) = 7"
| "pc_left n rng (DSub s t v) = 6"
| "pc_left n rng (DRead2 s t v) = 5"
| "pc_left n rng (DAdd s t v) = 4"
| "pc_left n rng (DBack s t v) = 4"
| "pc_left n rng (DFree b held) = length held"
| "pc_left n rng (BLock todo held) = length todo + unat n + rng + 2"
| "pc_left n rng (BRead i tot) = unat n + (rng - i) + 2"
| "pc_left n rng (BFree tot held) = length held"
| "pc_left n rng pc = 0"

lemma pc_step_left:
  assumes pc: "lock_pc n pc" and step: "bank_pc_step n rng amount others m pc = Some (m', pc')"
  shows "pc_left n rng pc' < pc_left n rng pc"
proof (cases pc)
  case (DLock s t todo held)
  then show ?thesis using pc step by (cases todo) (auto split: if_splits)
next
  case (BLock todo held)
  then show ?thesis using pc step by (cases todo) (auto split: if_splits)
next
  case (DFree b held)
  then show ?thesis using pc step by (cases held) (auto split: if_splits)
next
  case (BFree tot held)
  then show ?thesis using pc step by (cases held) (auto split: if_splits)
next
  case (DRead s t)
  then show ?thesis using step deposit_plan_length(2) [of n s t] by (auto split: if_splits bind_splits)
next
  case (DAdd s t v)
  then show ?thesis using step deposit_plan_length(2) [of n s t] by (auto split: bind_splits)
next
  case (DBack s t v)
  then show ?thesis using step deposit_plan_length(2) [of n s t] by (auto split: bind_splits)
next
  case (BRead i tot)
  then show ?thesis using step balance_plan_length [of n] by (auto simp del: bank_plan.simps split: if_splits bind_splits)
qed (use step in \<open>auto split: if_splits bind_splits\<close>)

text \<open>A waiting thread is never refused by waiting threads only: the lock system has a move.\<close>

lemma bank_go:
  assumes inv: "bank_inv rng amount T b" and work: "\<not> list_all idle_pc (bk_pcs b)"
  shows "\<exists>j b'. bank_step rng amount (Go j) b = Some b'"
proof -
  let ?n = "sm_buckets (bk_map b)"
  have ok: "accounts_ok rng (bk_map b)" and reach: "lock_reachable (key_plan ?n) (lock_view b)" and
    lock: "j < length (bk_pcs b) \<Longrightarrow> lock_pc ?n (bk_pcs b ! j)" for j
    using inv by (simp_all add: bank_inv_def Let_def list_all_length)
  have enabled: "\<exists>j b'. bank_step rng amount (Go j) b = Some b'"
    if "j < length (bk_pcs b)" "bank_pc_step ?n rng amount (others_claims ?n (bk_pcs b) j) (bk_map b) (bk_pcs b ! j) \<noteq> None" for j
    using that by (intro exI [of _ j]) (auto simp: Let_def)
  show ?thesis
  proof (cases "\<exists>j < length (bk_pcs b). todo_of (bk_pcs b ! j) = [] \<and> \<not> idle_pc (bk_pcs b ! j)")
    case True
    then obtain j where "j < length (bk_pcs b)" "todo_of (bk_pcs b ! j) = []" "\<not> idle_pc (bk_pcs b ! j)" by blast
    with enabled [OF _ pc_step_total [OF ok lock]] show ?thesis by blast
  next
    case False
    obtain i where i: "i < length (bk_pcs b)" "\<not> idle_pc (bk_pcs b ! i)" using work by (auto simp: list_all_length)
    then have "busy (lock_view b) i" using False by (auto simp: busy_def lock_view_def Let_def)
    from bank_locks.no_deadlock [OF reach this] obtain s where "advance (lock_view b) s" ..
    then show ?thesis
    proof cases
      case (grant j c cs)
      have j: "j < length (bk_pcs b)" "todo_of (bk_pcs b ! j) = c # cs"
        using grant(2) by (auto simp: lock_view_def Let_def split: if_splits)
      have "free_of c (others_claims ?n (bk_pcs b) j)" using grantable_free [OF grant(3) refl] .
      with j enabled [OF j(1)] show ?thesis by (cases "bk_pcs b ! j") (auto split: if_splits)
    next
      case (release j c)
      then have "j < length (bk_pcs b)" "claims ?n (bk_pcs b ! j) \<noteq> []" "todo_of (bk_pcs b ! j) = []"
        by (auto simp: lock_view_def Let_def split: if_splits)
      with False idle_no_claims show ?thesis by blast
    qed
  qed
qed

lemma sum_list_decrease:
  "i < length xs \<Longrightarrow> f x < f (xs ! i) \<Longrightarrow> sum_list (map f (xs[i := x])) < (sum_list (map f xs) :: nat)"
  by (induction xs arbitrary: i) (auto split: nat.splits)

lemma bank_drains:
  assumes "bank_inv rng amount T b"
  shows "\<exists>js b'. bank_run rng amount (map Go js) b = Some b' \<and> list_all idle_pc (bk_pcs b')"
  using assms
proof (induction "sum_list (map (pc_left (sm_buckets (bk_map b)) rng) (bk_pcs b))" arbitrary: b rule: less_induct)
  case less
  show ?case
  proof (cases "list_all idle_pc (bk_pcs b)")
    case True
    then show ?thesis by (intro exI [of _ "[]"]) simp
  next
    case False
    let ?n = "sm_buckets (bk_map b)"
    from bank_go [OF less.prems False] obtain j b' where go: "bank_step rng amount (Go j) b = Some b'" by blast
    have inv: "bank_inv rng amount T b'" by (rule bank_inv_go [OF less.prems go])
    from go obtain m pc where pc: "j < length (bk_pcs b)"
      "bank_pc_step ?n rng amount (others_claims ?n (bk_pcs b) j) (bk_map b) (bk_pcs b ! j) = Some (m, pc)"
      "b' = b\<lparr>bk_map := m, bk_pcs := (bk_pcs b)[j := pc]\<rparr>" by (auto simp: Let_def split: if_splits bind_splits)
    have "lock_pc ?n (bk_pcs b ! j)" using less.prems pc(1) by (simp add: bank_inv_def Let_def list_all_length)
    note left = sum_list_decrease [where f = "pc_left ?n rng", OF pc(1) pc_step_left [OF this pc(2)]]
    have "sm_buckets (bk_map b') = ?n" using go_buckets [OF less.prems go] .
    with less.hyps [of b'] left inv pc(3) obtain js b'' where "bank_run rng amount (map Go js) b' = Some b''" "list_all idle_pc (bk_pcs b'')"
      by auto
    with go show ?thesis by (intro exI [of _ "j # js"] exI [of _ b'']) simp
  qed
qed

end
