(* ===== verification/Barrier.thy ===== *)
theory Barrier
  imports Prelude
begin

text \<open>
  The barrier that starts the threads of every program of the repository (barrier_t, barrier_init and barrier_cross of
  CuckooHash/utils.hpp; the other copies are the same).  \<open>barrier_cross\<close> holds the mutex from its
  entry to \<open>pthread_cond_wait\<close>, and again from the wake-up to its end, so it is two steps: entering and
  leaving.  The wait has no loop around it.  POSIX lets a wait return without a broadcast: that is a step of its
  own here.
\<close>

subsection \<open>The code\<close>

record barrier =
  count :: int
  crossing :: int

datatype cross_pc = Outside | Waiting | Woken

text \<open>A thread and its calls: how many it has entered and how many it has left\<close>

record crosser =
  cr_pc :: cross_pc
  entered :: nat
  left :: nat

record crossing_sys =
  cs_barrier :: barrier
  cs_threads :: "crosser list"

definition barrier_init :: "int \<Rightarrow> barrier" where
  "barrier_init n = \<lparr>count = n, crossing = 0\<rparr>"

text \<open>\<open>pthread_cond_broadcast\<close> wakes who waits.\<close>

definition wake :: "crosser \<Rightarrow> crosser" where
  "wake c = (if cr_pc c = Waiting then c\<lparr>cr_pc := Woken\<rparr> else c)"

definition leave :: "crosser \<Rightarrow> crosser" where
  "leave c = c\<lparr>cr_pc := Outside, left := left c + 1\<rparr>"

definition barrier_cross_enter :: "nat \<Rightarrow> crossing_sys \<Rightarrow> crossing_sys" where
  "barrier_cross_enter j s =
     (let b = (cs_barrier s)\<lparr>crossing := crossing (cs_barrier s) + 1\<rparr>;
          c = (cs_threads s ! j)\<lparr>entered := entered (cs_threads s ! j) + 1\<rparr> in
      if crossing b < count b
      then s\<lparr>cs_barrier := b, cs_threads := (cs_threads s)[j := c\<lparr>cr_pc := Waiting\<rparr>]\<rparr>
      else s\<lparr>cs_barrier := b\<lparr>crossing := 0\<rparr>, cs_threads := (map wake (cs_threads s))[j := leave c]\<rparr>)"

datatype cross_event = Enter nat | Leave nat | Spurious nat

fun cross_step :: "cross_event \<Rightarrow> crossing_sys \<Rightarrow> crossing_sys option" where
  "cross_step (Enter j) s =
     (if j < length (cs_threads s) \<and> cr_pc (cs_threads s ! j) = Outside then Some (barrier_cross_enter j s) else None)"
| "cross_step (Leave j) s =
     (if j < length (cs_threads s) \<and> cr_pc (cs_threads s ! j) = Woken
      then Some (s\<lparr>cs_threads := (cs_threads s)[j := leave (cs_threads s ! j)]\<rparr>) else None)"
| "cross_step (Spurious j) s =
     (if j < length (cs_threads s) \<and> cr_pc (cs_threads s ! j) = Waiting
      then Some (s\<lparr>cs_threads := (cs_threads s)[j := wake (cs_threads s ! j)]\<rparr>) else None)"

fun cross_run :: "cross_event list \<Rightarrow> crossing_sys \<Rightarrow> crossing_sys option" where
  "cross_run [] s = Some s"
| "cross_run (e # es) s = Option.bind (cross_step e s) (cross_run es)"

definition crossing_new :: "nat \<Rightarrow> crossing_sys" where
  "crossing_new n = \<lparr>cs_barrier = barrier_init (int n), cs_threads = replicate n \<lparr>cr_pc = Outside, entered = 0, left = 0\<rparr>\<rparr>"

definition spurious :: "cross_event \<Rightarrow> bool" where
  "spurious e \<longleftrightarrow> (case e of Spurious j \<Rightarrow> True | _ \<Rightarrow> False)"

subsection \<open>The invariant\<close>

text \<open>\<open>G\<close> is the number of completed crossings.\<close>

definition crosser_ok :: "nat \<Rightarrow> crosser \<Rightarrow> bool" where
  "crosser_ok G c \<longleftrightarrow>
     (case cr_pc c of Outside \<Rightarrow> entered c = G \<and> left c = G | Waiting \<Rightarrow> entered c = Suc G \<and> left c = G
      | Woken \<Rightarrow> entered c = G \<and> Suc (left c) = G)"

definition waiters :: "crosser list \<Rightarrow> nat" where
  "waiters cs = length (filter (\<lambda>c. cr_pc c = Waiting) cs)"

definition crossing_inv :: "nat \<Rightarrow> crossing_sys \<Rightarrow> bool" where
  "crossing_inv G s \<longleftrightarrow> list_all (crosser_ok G) (cs_threads s) \<and> count (cs_barrier s) = int (length (cs_threads s)) \<and>
     crossing (cs_barrier s) = int (waiters (cs_threads s))"

lemma waiters_update:
  "j < length cs \<Longrightarrow> waiters (cs[j := c]) + (if cr_pc (cs ! j) = Waiting then 1 else 0) = waiters cs + (if cr_pc c = Waiting then 1 else 0)"
proof (induction cs arbitrary: j)
  case (Cons d cs)
  then show ?case by (cases j) (fastforce simp: waiters_def)+
qed simp

lemma waiters_all:
  assumes "j < length cs" "cr_pc (cs ! j) \<noteq> Waiting" "Suc (waiters cs) \<ge> length cs" "i < length cs" "i \<noteq> j"
  shows "cr_pc (cs ! i) = Waiting"
proof (rule ccontr)
  assume w: "cr_pc (cs ! i) \<noteq> Waiting"
  have "{k. k < length cs \<and> cr_pc (cs ! k) = Waiting} \<subseteq> {..<length cs} - {i, j}" using assms(2) w by auto
  from card_mono [OF _ this] have "waiters cs \<le> card ({..<length cs} - {i, j})" by (simp add: waiters_def length_filter_conv_card)
  also have "\<dots> = length cs - 2" using assms(1,4,5) by (subst card_Diff_subset) auto
  finally show False using assms by linarith
qed

lemma cross_inv_step:
  assumes inv: "crossing_inv G s" and step: "cross_step e s = Some s'" and e: "\<not> spurious e"
  shows "\<exists>G'. crossing_inv G' s'"
proof (cases e)
  case (Enter j)
  let ?cs = "cs_threads s"
  from step Enter have j: "j < length ?cs" "cr_pc (?cs ! j) = Outside" and s': "s' = barrier_cross_enter j s" by (auto split: if_splits)
  have ok: "crosser_ok G (?cs ! i)" if "i < length ?cs" for i using inv that by (simp add: crossing_inv_def list_all_length)
  let ?c = "(?cs ! j)\<lparr>entered := entered (?cs ! j) + 1\<rparr>"
  show ?thesis
  proof (cases "crossing (cs_barrier s) + 1 < count (cs_barrier s)")
    case True
    have "crosser_ok G (?c\<lparr>cr_pc := Waiting\<rparr>)" using ok [OF j(1)] j(2) by (simp add: crosser_ok_def)
    with True inv j s' waiters_update [OF j(1), of "?c\<lparr>cr_pc := Waiting\<rparr>"] ok show ?thesis
      by (intro exI [of _ G]) (auto simp: barrier_cross_enter_def Let_def crossing_inv_def list_all_length nth_list_update)
  next
    case False
    then have "Suc (waiters ?cs) \<ge> length ?cs" using inv by (simp add: crossing_inv_def)
    then have others: "cr_pc (?cs ! i) = Waiting" if "i < length ?cs" "i \<noteq> j" for i
      using waiters_all [OF j(1) _ _ that] j(2) by simp
    have ok': "crosser_ok (Suc G) ((map wake ?cs)[j := leave ?c] ! i)" and "cr_pc ((map wake ?cs)[j := leave ?c] ! i) \<noteq> Waiting"
      if "i < length ?cs" for i
      using ok [OF that] others [OF that] ok [OF j(1)] j(2) that by (cases "i = j"; simp add: crosser_ok_def wake_def leave_def)+
    then have "waiters ((map wake ?cs)[j := leave ?c]) = 0"
      by (simp add: waiters_def filter_empty_conv) (metis in_set_conv_nth length_list_update length_map)
    with ok' False inv s' show ?thesis
      by (intro exI [of _ "Suc G"]) (simp add: barrier_cross_enter_def Let_def crossing_inv_def list_all_length)
  qed
next
  case (Leave j)
  with step have j: "j < length (cs_threads s)" "cr_pc (cs_threads s ! j) = Woken"
    and s': "s' = s\<lparr>cs_threads := (cs_threads s)[j := leave (cs_threads s ! j)]\<rparr>" by (auto split: if_splits)
  have ok: "crosser_ok G (cs_threads s ! i)" if "i < length (cs_threads s)" for i using inv that by (simp add: crossing_inv_def list_all_length)
  have "crosser_ok G (leave (cs_threads s ! j))" using ok [OF j(1)] j(2) by (simp add: crosser_ok_def leave_def)
  with inv s' j ok waiters_update [OF j(1), of "leave (cs_threads s ! j)"] show ?thesis
    by (intro exI [of _ G]) (auto simp: crossing_inv_def list_all_length nth_list_update leave_def)
qed (use e in \<open>simp add: spurious_def\<close>)

lemma cross_inv_run:
  "cross_run es s = Some s' \<Longrightarrow> list_all (\<lambda>e. \<not> spurious e) es \<Longrightarrow> crossing_inv G s \<Longrightarrow> \<exists>G'. crossing_inv G' s'"
proof (induction es arbitrary: s G)
  case (Cons e es)
  then obtain s1 where s1: "cross_step e s = Some s1" "cross_run es s1 = Some s'" by (auto split: bind_splits)
  from cross_inv_step [OF Cons.prems(3) s1(1)] Cons.prems(2) obtain G1 where "crossing_inv G1 s1" by auto
  with Cons.IH [OF s1(2)] Cons.prems(2) show ?case by simp
qed auto

lemma cross_inv_new: "crossing_inv 0 (crossing_new n)"
  by (simp add: crossing_inv_def crossing_new_def barrier_init_def waiters_def crosser_ok_def list_all_iff filter_empty_conv)

subsection \<open>Properties\<close>

text \<open>C39: As long as no wait returns by itself, the barrier is a barrier, crossing after crossing: no thread has left
  more calls than every other thread has entered.\<close>

theorem barrier_holds:
  assumes "cross_run es (crossing_new n) = Some s" "list_all (\<lambda>e. \<not> spurious e) es"
  shows "list_all (\<lambda>c. list_all (\<lambda>d. left c \<le> entered d) (cs_threads s)) (cs_threads s)"
proof -
  from cross_inv_run [OF assms cross_inv_new] obtain G where "list_all (crosser_ok G) (cs_threads s)" by (auto simp: crossing_inv_def)
  then have "crosser_ok G c" if "c \<in> set (cs_threads s)" for c using that by (simp add: list_all_iff)
  then have "left c \<le> G \<and> G \<le> entered c" if "c \<in> set (cs_threads s)" for c
    using that by (cases "cr_pc c") (force simp: crosser_ok_def)+
  then show ?thesis unfolding list_all_iff by (meson order_trans)
qed

text \<open>C40: The wait stands in an if, not in a loop: with two or more threads, the first one crosses alone if its wait
  returns without a broadcast, before any other thread has arrived.\<close>

theorem barrier_leaks:
  assumes "2 \<le> n"
  shows "\<exists>s. cross_run [Enter 0, Spurious 0, Leave 0] (crossing_new n) = Some s \<and>
    left (cs_threads s ! 0) = 1 \<and> list_all (\<lambda>c. entered c = 0) (drop 1 (cs_threads s))"
proof -
  obtain k where "n = Suc (Suc k)" using assms by (metis Suc_le_D numeral_2_eq_2 Suc_le_mono)
  then show ?thesis
    by (simp add: crossing_new_def barrier_init_def barrier_cross_enter_def wake_def leave_def Let_def list_all_iff)
qed

definition cross_twice :: "cross_event list" where
  "cross_twice = [Enter 1, Enter 0, Enter 2, Enter 2, Leave 1, Enter 1, Leave 0, Enter 0, Leave 1]"

definition crossed_twice :: crossing_sys where
  "crossed_twice = \<lparr>cs_barrier = \<lparr>count = 3, crossing = 0\<rparr>, cs_threads =
     [\<lparr>cr_pc = Outside, entered = 2, left = 2\<rparr>, \<lparr>cr_pc = Outside, entered = 2, left = 2\<rparr>, \<lparr>cr_pc = Woken, entered = 2, left = 1\<rparr>]\<rparr>"

lemma cross_twice_runs: "cross_run cross_twice (crossing_new 3) = Some crossed_twice"
  by (simp add: cross_twice_def crossed_twice_def crossing_new_def barrier_init_def barrier_cross_enter_def wake_def leave_def Let_def
      numeral_3_eq_3)

theorem barrier_holds_witness: "list_all (\<lambda>c. list_all (\<lambda>d. left c \<le> entered d) (cs_threads crossed_twice)) (cs_threads crossed_twice)"
  by (rule barrier_holds [OF cross_twice_runs]) (simp add: cross_twice_def spurious_def)

theorem barrier_leaks_witness:
  "\<exists>s. cross_run [Enter 0, Spurious 0, Leave 0] (crossing_new 4) = Some s \<and>
    left (cs_threads s ! 0) = 1 \<and> list_all (\<lambda>c. entered c = 0) (drop 1 (cs_threads s))"
  by (rule barrier_leaks) simp

end
