(* ===== verification/RBench.thy ===== *)
theory RBench
  imports Bench RCuckoo
begin

text \<open>
  The test of the RDMA store's table (Persistence/KeyValueStore/Parallelize.cpp and test.cpp) and the server's
  \<open>populate_store\<close>.  The loop is that of theory Bench with a second random number for the value of an
  element, and with the answers of type \<open>RESULT\<close>: an insertion counts when it is TRUE, so not when it overwrites
  (DUP), and an abort has a counter of its own.  A call of \<open>insert\<close> that does not return ends the run.
\<close>

subsection \<open>The calls on the table\<close>

definition r_table_insert :: "nat \<Rightarrow> rcuckoo rinsert_fun" where
  "r_table_insert fuel c v w =
     (case R_insert fuel c (Node_new (word_of_int v) (word_of_int w)) of Done x \<Rightarrow> Some x | _ \<Rightarrow> None)"

text \<open>\<open>result == RESULT::TRUE\<close> of a removal and the truth value of a lookup\<close>

fun r_set_step :: "rcuckoo set_step" where
  "r_set_step c (Remove k) = do { (r, d) \<leftarrow> R_remove c k; Some (r = R_TRUE, d) }"
| "r_set_step c (Contains k) = do { r \<leftarrow> R_contains c k; Some (r \<noteq> R_FALSE, c) }"
| "r_set_step c (Insert k) = None"

subsection \<open>The loop of a thread\<close>

definition R_local_insert :: "draw \<Rightarrow> 's rinsert_fun \<Rightarrow> thread_benchmark \<Rightarrow> 's txs \<Rightarrow> 's txs option" where
  "R_local_insert draw ins b t =
     do { (v, b) \<leftarrow> rand_val draw b;
          (v2, b) \<leftarrow> rand_val draw b;
          (r, s) \<leftarrow> ins (tx_store t) v v2;
          let b = (if r = R_TRUE then b\<lparr>nb_added := nb_added b + 1\<rparr>
                   else if r = R_ABORT_FAILURE then b\<lparr>nb_aborted := nb_aborted b + 1\<rparr> else b);
          Some (t\<lparr>tx_data := b\<lparr>nb_add := nb_add b + 1\<rparr>, tx_last := (if r = R_TRUE then v else tx_last t), tx_store := s\<rparr>) }"

definition R_local_write :: "draw \<Rightarrow> 's rinsert_fun \<Rightarrow> 's set_step \<Rightarrow> 's txs \<Rightarrow> 's txs option" where
  "R_local_write draw ins step t =
     do { (z, b) \<leftarrow> bench_rand draw (tx_data t) (b_range (tx_data t));
          if z smod 100 < 60 then R_local_insert draw ins b t else local_remove draw step b t }"

definition R_local_tx :: "draw \<Rightarrow> 's rinsert_fun \<Rightarrow> 's set_step \<Rightarrow> 's txs \<Rightarrow> 's txs option" where
  "R_local_tx draw ins step t =
     do { t \<leftarrow> (if tx_unext t then R_local_write draw ins step t else local_read draw step t); then_next draw t }"

definition R_execute_local_txs :: "draw \<Rightarrow> 's rinsert_fun \<Rightarrow> 's set_step \<Rightarrow> nat \<Rightarrow> thread_benchmark \<Rightarrow> 's \<Rightarrow> 's txs option" where
  "R_execute_local_txs draw ins step n b s = do { t \<leftarrow> start_txs draw b s; rounds (R_local_tx draw ins step) n t }"

text \<open>Several threads on one table, whole rounds at a time\<close>

fun R_local_threads :: "draw \<Rightarrow> 's rinsert_fun \<Rightarrow> 's set_step \<Rightarrow> nat list \<Rightarrow> 's txs list \<Rightarrow> 's \<Rightarrow> ('s txs list \<times> 's) option" where
  "R_local_threads draw ins step [] ts s = Some (ts, s)"
| "R_local_threads draw ins step (j # js) ts s =
     (if j < length ts then
        do { t \<leftarrow> R_local_tx draw ins step ((ts ! j)\<lparr>tx_store := s\<rparr>);
             R_local_threads draw ins step js (ts[j := t]) (tx_store t) }
      else None)"

text \<open>The client of the RDMA store, compiled with \<open>READ_TXS\<close>, only reads.\<close>

definition rdma_execute_reads :: "draw \<Rightarrow> 's rget_fun \<Rightarrow> nat \<Rightarrow> thread_benchmark \<Rightarrow> 's \<Rightarrow> 's txs option" where
  "rdma_execute_reads draw get n b s = do { t \<leftarrow> start_txs draw b s; rounds (rdma_read_tx draw get) n t }"

subsection \<open>Filling the table\<close>

text \<open>The test's: n insertions, whatever they answer\<close>

fun R_populate :: "('r \<Rightarrow> int \<times> 'r) \<Rightarrow> 's rinsert_fun \<Rightarrow> int \<Rightarrow> nat \<Rightarrow> int \<Rightarrow> 'r \<Rightarrow> 's \<Rightarrow> (int \<times> 'r \<times> 's) option" where
  "R_populate rnd ins r 0 prev g s = Some (prev, g, s)"
| "R_populate rnd ins r (Suc n) prev g s =
     (case rnd g of (z, g) \<Rightarrow> case rnd g of (z2, g) \<Rightarrow>
        if r - 1 = 0 then None
        else do { v \<leftarrow> as_int (z smod (r - 1) + 1);
                  v2 \<leftarrow> as_int (z2 smod (r - 1) + 1);
                  (x, s) \<leftarrow> ins s v v2;
                  R_populate rnd ins r n v g s })"

text \<open>The server's: \<open>INITIAL_SIZE\<close> insertions of random numbers below \<open>DEFAULT_EXPERIMENT_RANGE\<close>.  The order in which
  the two arguments of the constructor are evaluated is open; here it is from left to right.\<close>

fun populate_rounds :: "draw \<Rightarrow> 's rinsert_fun \<Rightarrow> nat \<Rightarrow> u32 \<Rightarrow> 's \<Rightarrow> (u32 \<times> 's) option" where
  "populate_rounds draw ins 0 seed s = Some (seed, s)"
| "populate_rounds draw ins (Suc n) seed s =
     do { (k, seed) \<leftarrow> rand_range_re draw seed 1000000;
          (v, seed) \<leftarrow> rand_range_re draw seed 1000000;
          (x, s) \<leftarrow> ins s k v;
          populate_rounds draw ins n seed s }"

definition populate_store :: "draw \<Rightarrow> 's rinsert_fun \<Rightarrow> u32 \<Rightarrow> 's \<Rightarrow> 's option" where
  "populate_store draw ins seed s = map_option snd (populate_rounds draw ins 100000 seed s)"

subsection \<open>The whole test\<close>

definition R_test_run :: "draw \<Rightarrow> ('r \<Rightarrow> int \<times> 'r) \<Rightarrow> 's rinsert_fun \<Rightarrow> 's set_step \<Rightarrow> ('s \<Rightarrow> int option) \<Rightarrow> nat list \<Rightarrow> config \<Rightarrow>
    (nat \<Rightarrow> u32) \<Rightarrow> 'r \<Rightarrow> 's \<Rightarrow> (totals \<times> int \<times> 's) option" where
  "R_test_run draw rnd ins step size_of js c seeds g s =
     do { (first, g, s) \<leftarrow> R_populate rnd ins (c_range c) (nat (c_initial c)) 0 g s;
          n \<leftarrow> size_of s;
          ts \<leftarrow> start_threads draw (spawn_data (nat (c_threads c))
                  (thread_benchmark_new first (c_range c) (c_update c) (c_alternate c) (c_effective c)) seeds) s;
          (ts, s) \<leftarrow> R_local_threads draw ins step js ts s;
          t \<leftarrow> test_totals n (nat (c_threads c)) (map tx_data ts);
          m \<leftarrow> size_of s;
          Some (t, m, s) }"

end
