(* ===== verification/RBenchCorrect.thy ===== *)
theory RBenchCorrect
  imports RBench BenchCorrect RCuckooCorrect
begin

text \<open>
  What the test of the RDMA store's table counts: \<open>size\<close> counts the keys of the map, and the counters of the
  threads add up to its change.
\<close>

subsection \<open>The size of the table\<close>

lemma R_size_rows_eq:
  assumes "r_shaped c" "k \<le> r_cap c"
  shows "R_size_rows (r_elements c) (map int [k'..<k]) n =
    Some (n + (\<Sum>i\<in>{k'..<k}. int (length (filter (\<lambda>j. R_isOccupied (rcell c (int i) j)) entries))))"
  using assms(2)
proof (induction "k - k'" arbitrary: k' n)
  case (Suc d)
  then have k: "k' < k" "[k'..<k] = k' # [Suc k'..<k]" "{k'..<k} = insert k' {Suc k'..<k}" by (auto simp: upt_conv_Cons)
  have "R_size_slots (r_elements c) (int k') entries n =
      Some (n + int (length (filter (\<lambda>j. R_isOccupied (rcell c (int k') j)) entries)))"
    using k(1) Suc.prems by (intro R_size_slots_eq [OF assms(1)]) (auto simp: entries_def)
  moreover have "d = k - Suc k'" using Suc.hyps(2) by simp
  ultimately show ?case using Suc.hyps(1) [of "Suc k'"] Suc.prems k by (simp add: add.assoc)
qed simp

lemma row_occupied:
  assumes "r_shaped c" "i < r_cap c"
  shows "length (filter (\<lambda>j. R_isOccupied (rcell c (int i) j)) entries) = length (filter R_isOccupied (take 8 (drop (8 * i) (r_elements c))))"
proof -
  have len: "8 * i + 8 \<le> length (r_elements c)" using assms by (simp add: r_shaped_def)
  have "take 8 (drop (8 * i) (r_elements c)) = map (\<lambda>j. rcell c (int i) j) entries"
  proof (rule nth_equalityI)
    fix j assume "j < length (take 8 (drop (8 * i) (r_elements c)))"
    then have j: "j < 8" by simp
    have "nat (int i * 8 + int j) = 8 * i + j" by simp
    then show "take 8 (drop (8 * i) (r_elements c)) ! j = map (\<lambda>j. rcell c (int i) j) entries ! j"
      using j len by (simp add: entries_def ENTRY_WIDTH_def rcell_def)
  qed (use len in \<open>simp add: entries_def ENTRY_WIDTH_def\<close>)
  then show ?thesis by (simp add: filter_map comp_def)
qed

lemma rows_rlist:
  assumes "r_shaped c" "k \<le> r_cap c"
  shows "(\<Sum>i\<in>{0..<k}. int (length (filter (\<lambda>j. R_isOccupied (rcell c (int i) j)) entries))) =
    int (length (filter R_isOccupied (take (8 * k) (r_elements c))))"
  using assms(2)
proof (induction k)
  case (Suc k)
  then have "take (8 * Suc k) (r_elements c) = take (8 * k) (r_elements c) @ take 8 (drop (8 * k) (r_elements c))"
    by (simp add: take_add [symmetric] add.commute)
  then have "int (length (filter R_isOccupied (take (8 * Suc k) (r_elements c)))) =
      int (length (filter R_isOccupied (take (8 * k) (r_elements c)))) + int (length (filter (\<lambda>j. R_isOccupied (rcell c (int k) j)) entries))"
    using row_occupied [OF assms(1), of k] Suc.prems by (simp only: filter_append length_append of_nat_add)
  with Suc show ?case by simp
qed simp

lemma rmap_card: "r_inv c \<Longrightarrow> card (dom (rmap c)) = length (rlist c)"
proof -
  assume "r_inv c"
  then have d: "distinct (map nkey (rlist c))" by (simp add: r_inv_def runique_def)
  have "dom (rmap c) = set (map nkey (rlist c))" by (force simp: rmap_def dom_map_of_conv_image_fst)
  with distinct_card [OF d] show ?thesis by simp
qed

lemma R_size_ok: "r_inv c \<Longrightarrow> R_size c = Some (int (card (dom (rmap c))))"
proof -
  assume c: "r_inv c"
  then have sh: "r_shaped c" by (simp add: r_inv_def)
  show ?thesis
    unfolding R_size_def r_cap_def [symmetric] R_size_rows_eq [OF sh le_refl] rows_rlist [OF sh le_refl] rmap_card [OF c] rlist_def by simp
qed

lemma rmap_finite: "finite (dom (rmap c))"
  by (simp add: rmap_def finite_dom_map_of)

subsection \<open>The calls as a set of keys\<close>

definition r_bench_ok :: "rcuckoo \<Rightarrow> bool" where
  "r_bench_ok c \<longleftrightarrow> r_inv c \<and> r_unlocked c"

definition r_keys :: "rcuckoo \<Rightarrow> u32 set" where
  "r_keys c = dom (rmap c)"

lemma r_keys_finite: "finite (r_keys c)"
  by (simp add: r_keys_def rmap_finite)

lemma r_set_step_ok:
  assumes "r_bench_ok c" "operand x \<noteq> EMPTY" "r_set_step c x = Some (b, d)"
  shows "r_bench_ok d \<and> (b, r_keys d) = spec_op x (r_keys c)"
proof (cases x)
  case (Remove k)
  with assms(3) obtain r where r: "R_remove c k = Some (r, d)" "b = (r = R_TRUE)" by auto
  then have "r_call 0 c (Delete k) = Some ((b, None), d)" by simp
  from r_call_ok [OF _ _ this] assms(1,2) Remove show ?thesis by (simp add: r_bench_ok_def r_keys_def)
next
  case (Contains k)
  with R_contains_ok [of c k] assms show ?thesis by (auto simp: r_bench_ok_def r_keys_def split: if_splits)
qed (use assms in simp)

interpretation rdma_bench: word_set r_set_step r_bench_ok r_keys "\<lambda>v. v \<noteq> EMPTY"
  by unfold_locales (simp_all add: r_set_step_ok usable_word r_keys_finite)

lemma r_table_insert_ok:
  assumes "r_bench_ok c" "(word_of_int v :: u32) \<noteq> EMPTY" "r_table_insert fuel c v w = Some (r, d)"
  shows "r_bench_ok d \<and> of_nat (card (r_keys d)) = (of_nat (card (r_keys c)) :: u64) + (if r = R_TRUE then 1 else 0)"
proof -
  let ?n = "Node_new (word_of_int v) (word_of_int w)"
  have k: "nkey ?n = word_of_int v" by (simp add: Node_new_def)
  have "R_insert fuel c ?n = Done (r, d)" using assms(3) by (simp add: r_table_insert_def split: outcome.splits)
  with insert_cases [of c ?n fuel] assms(1,2) k have d: "r_bench_ok d" "insert_answer (rmap c) ?n r (rmap d)"
    by (auto simp: r_bench_ok_def)
  let ?k = "word_of_int v :: u32"
  have "r = R_TRUE \<and> ?k \<notin> r_keys c \<and> r_keys d = insert ?k (r_keys c)
      \<or> r \<noteq> R_TRUE \<and> ?k \<in> r_keys c \<and> r_keys d = insert ?k (r_keys c) \<or> r \<noteq> R_TRUE \<and> r_keys d = r_keys c"
    using d(2) unfolding insert_answer_def r_keys_def k by (elim disjE conjE) simp_all
  then show ?thesis using d(1) r_keys_finite [of c] by (elim disjE conjE) (simp_all add: insert_absorb)
qed

subsection \<open>The loop\<close>

lemma R_local_insert_ok:
  assumes d: "draw_ok draw" and t: "rdma_bench.loop_ok t" and b: "data_ok b" "added_size b = added_size (tx_data t)"
    and w: "R_local_insert draw (r_table_insert fuel) b t = Some t'"
  shows "rdma_bench.loop_ok t' \<and> rdma_bench.gap t' = rdma_bench.gap t"
proof -
  from w obtain v b1 v2 b2 r s where v: "rand_val draw b = Some (v, b1)" "rand_val draw b1 = Some (v2, b2)"
    and s: "r_table_insert fuel (tx_store t) v v2 = Some (r, s)"
    and t': "t' = (let b = (if r = R_TRUE then b2\<lparr>nb_added := nb_added b2 + 1\<rparr>
        else if r = R_ABORT_FAILURE then b2\<lparr>nb_aborted := nb_aborted b2 + 1\<rparr> else b2) in
      t\<lparr>tx_data := b\<lparr>nb_add := nb_add b + 1\<rparr>, tx_last := (if r = R_TRUE then v else tx_last t), tx_store := s\<rparr>)"
    by (auto simp: R_local_insert_def Let_def)
  have 1: "usable v" "data_ok b1" "added_size b1 = added_size b" using rand_val_ok [OF d b(1) v(1)] by simp_all
  have 2: "data_ok b2" "added_size b2 = added_size b" using rand_val_ok [OF d 1(2) v(2)] 1(3) by simp_all
  have "r_bench_ok (tx_store t)" "usable (tx_last t)" using t by (simp_all add: rdma_bench.loop_ok_def txs_ok_def)
  with r_table_insert_ok [OF _ usable_word [OF 1(1)] s] 1(1) 2 b(2) t' show ?thesis
    by (cases r) (simp_all add: rdma_bench.loop_ok_def txs_ok_def rdma_bench.gap_def data_ok_def Let_def)
qed

lemma R_local_tx_ok:
  assumes d: "draw_ok draw" and t: "rdma_bench.loop_ok t"
    and w: "R_local_tx draw (r_table_insert fuel) r_set_step t = Some t'"
  shows "rdma_bench.loop_ok t' \<and> rdma_bench.gap t' = rdma_bench.gap t"
proof -
  from w obtain u where u: "(if tx_unext t then R_local_write draw (r_table_insert fuel) r_set_step t else local_read draw r_set_step t) = Some u"
    and n: "then_next draw u = Some t'" by (auto simp: R_local_tx_def)
  have "rdma_bench.loop_ok u \<and> rdma_bench.gap u = rdma_bench.gap t"
  proof (cases "tx_unext t")
    case True
    with u obtain z b where z: "bench_rand draw (tx_data t) (b_range (tx_data t)) = Some (z, b)"
      and r: "(if z smod 100 < 60 then R_local_insert draw (r_table_insert fuel) b t else local_remove draw r_set_step b t) = Some u"
      by (auto simp: R_local_write_def)
    have "data_ok (tx_data t)" using t by (simp add: rdma_bench.loop_ok_def txs_ok_def data_ok_def)
    with data_ok_same [OF bench_rand_same [OF z]] have "data_ok b" "added_size b = added_size (tx_data t)" by simp_all
    with r R_local_insert_ok [OF d t] rdma_bench.local_remove_ok [OF d t] show ?thesis by (auto split: if_splits)
  next
    case False
    with u rdma_bench.local_read_ok [OF d t] show ?thesis by simp
  qed
  moreover obtain x b where "next_update draw (tx_data u) = Some (x, b)" "t' = u\<lparr>tx_unext := x, tx_data := b\<rparr>"
    using n by (auto simp: then_next_def)
  ultimately show ?thesis using next_update_same
    by (force simp: same_counts_def rdma_bench.loop_ok_def txs_ok_def rdma_bench.gap_def added_size_def)
qed

lemma R_local_threads_ok:
  assumes d: "draw_ok draw"
    and "\<forall>t\<in>set ts. txs_ok t" "r_bench_ok s" "R_local_threads draw (r_table_insert fuel) r_set_step js ts s = Some (ts', s')"
  shows "r_bench_ok s' \<and> length ts' = length ts \<and>
    of_nat (card (r_keys s')) - (\<Sum>t\<leftarrow>ts'. added_size (tx_data t)) =
      of_nat (card (r_keys s)) - (\<Sum>t\<leftarrow>ts. added_size (tx_data t))"
  using assms(2-4)
proof (induction js arbitrary: ts s)
  case (Cons j js)
  let ?added = "\<lambda>ts :: rcuckoo txs list. \<Sum>t\<leftarrow>ts. added_size (tx_data t)"
  from Cons.prems(3) obtain t where j: "j < length ts" and t: "R_local_tx draw (r_table_insert fuel) r_set_step ((ts ! j)\<lparr>tx_store := s\<rparr>) = Some t"
    and r: "R_local_threads draw (r_table_insert fuel) r_set_step js (ts[j := t]) (tx_store t) = Some (ts', s')" by (auto split: if_splits)
  have "txs_ok (ts ! j)" using Cons.prems(1) j by simp
  then have "rdma_bench.loop_ok ((ts ! j)\<lparr>tx_store := s\<rparr>)" using Cons.prems(2) by (simp add: rdma_bench.loop_ok_def txs_ok_def)
  from R_local_tx_ok [OF d this t] have ok: "rdma_bench.loop_ok t"
    and g: "rdma_bench.gap t = of_nat (card (r_keys s)) - added_size (tx_data (ts ! j))" by (simp_all add: rdma_bench.gap_def)
  have "\<forall>t\<in>set (ts[j := t]). txs_ok t"
    using Cons.prems(1) ok set_update_subset_insert [of ts j t] by (auto simp: rdma_bench.loop_ok_def)
  from Cons.IH [OF this _ r] ok have IH: "r_bench_ok s' \<and> length ts' = length ts \<and>
      of_nat (card (r_keys s')) - ?added ts' = of_nat (card (r_keys (tx_store t))) - ?added (ts[j := t])"
    by (auto simp: rdma_bench.loop_ok_def)
  have "?added (ts[j := t]) = ?added ts + added_size (tx_data t) - added_size (tx_data (ts ! j))"
    using sum_list_replace [of j "map (\<lambda>t. added_size (tx_data t)) ts" "added_size (tx_data t)"] j by (simp add: map_update)
  then have "of_nat (card (r_keys (tx_store t))) - ?added (ts[j := t]) =
      rdma_bench.gap t + added_size (tx_data (ts ! j)) - ?added ts" by (simp add: rdma_bench.gap_def)
  also have "\<dots> = of_nat (card (r_keys s)) - ?added ts" unfolding g by simp
  finally show ?case using IH by simp
qed simp

subsection \<open>Filling the table\<close>

lemma R_populate_ok:
  assumes rnd: "\<forall>g. 0 \<le> fst (rnd g)" and r: "2 \<le> r" "r \<le> int_max"
    and "R_populate rnd (r_table_insert fuel) r n prev g s = Some (v, g', s')" "r_bench_ok s" "usable prev \<or> 0 < n"
  shows "r_bench_ok s' \<and> usable v"
  using assms(4-)
proof (induction n arbitrary: prev g s)
  case (Suc n)
  obtain z g1 z2 g2 where z: "rnd g = (z, g1)" "rnd g1 = (z2, g2)" by (cases "rnd g", cases "rnd (snd (rnd g))") simp
  have z0: "0 \<le> z" using rnd z by (metis fst_conv)
  have "z smod (r - 1) = z mod (r - 1)" using z0 r by (simp add: signed_modulo_int_def sgn_if)
  moreover have "0 \<le> z mod (r - 1)" "z mod (r - 1) < r - 1" using r by (auto intro: pos_mod_sign pos_mod_bound)
  ultimately have w: "1 \<le> z smod (r - 1) + 1" "z smod (r - 1) + 1 \<le> int_max" using r by linarith+
  then have int: "as_int (z smod (r - 1) + 1) = Some (z smod (r - 1) + 1)" and us: "usable (z smod (r - 1) + 1)"
    by (simp_all add: exec_simps usable_def)
  from Suc.prems(1) z int obtain v2 x s1 where s1: "r_table_insert fuel s (z smod (r - 1) + 1) v2 = Some (x, s1)"
    and rest: "R_populate rnd (r_table_insert fuel) r n (z smod (r - 1) + 1) g2 s1 = Some (v, g', s')"
    by (auto split: if_splits)
  from r_table_insert_ok [OF Suc.prems(2) usable_word [OF us] s1] have "r_bench_ok s1" by simp
  from Suc.IH [OF rest this] us show ?case by simp
qed simp

lemma populate_rounds_ok:
  assumes d: "draw_ok draw" and "populate_rounds draw (r_table_insert fuel) n seed s = Some (g, s')" "r_bench_ok s"
  shows "r_bench_ok s'"
  using assms(2-)
proof (induction n arbitrary: seed s)
  case (Suc n)
  from Suc.prems(1) obtain k g1 v g2 x s1 where k: "rand_range_re draw seed 1000000 = Some (k, g1)"
    and s1: "r_table_insert fuel s k v = Some (x, s1)" and rest: "populate_rounds draw (r_table_insert fuel) n g2 s1 = Some (g, s')"
    by auto
  have "1 \<le> k \<and> k \<le> 1000000" using rand_range_ok [OF d, of 1000000 seed] k by (auto simp: int_max_def)
  then have "usable k" by (simp add: usable_def int_max_def)
  with r_table_insert_ok [OF Suc.prems(2) usable_word s1] Suc.IH [OF rest] show ?case by simp
qed simp

text \<open>The server starts with a table that satisfies the invariant.\<close>

lemma populate_store_ok:
  "draw_ok draw \<Longrightarrow> populate_store draw (r_table_insert fuel) seed s = Some s' \<Longrightarrow> r_bench_ok s \<Longrightarrow> r_bench_ok s'"
  unfolding populate_store_def using populate_rounds_ok [of draw fuel 100000 seed s] by auto

subsection \<open>The client that reads\<close>

lemma rdma_reads_counted:
  assumes "rounds (rdma_read_tx draw get) n t = Some t'"
  shows "nb_contains (tx_data t') = nb_contains (tx_data t) + of_nat n \<and> nb_add (tx_data t') = nb_add (tx_data t) \<and>
    nb_remove (tx_data t') = nb_remove (tx_data t)"
  using assms
proof (induction n arbitrary: t)
  case (Suc n)
  from Suc.prems obtain u where u: "rdma_read_tx draw get t = Some u" "rounds (rdma_read_tx draw get) n u = Some t'" by auto
  from u(1) obtain v b where b: "bench_rand draw (tx_data t) (b_range (tx_data t)) = Some (v, b)" by (auto simp: rdma_read_tx_def)
  have "nb_contains (tx_data u) = nb_contains b + 1 \<and> nb_add (tx_data u) = nb_add b \<and> nb_remove (tx_data u) = nb_remove b"
    using u(1) b by (auto simp: rdma_read_tx_def Let_def)
  with Suc.IH [OF u(2)] bench_rand_same [OF b] show ?case by (auto simp: same_counts_def)
qed simp

text \<open>It counts each round as one lookup.\<close>

lemma rdma_execute_reads_counted:
  "rdma_execute_reads draw get n (thread_benchmark_new first r update alternate effective seed) s = Some t \<Longrightarrow>
   nb_contains (tx_data t) = of_nat n \<and> nb_add (tx_data t) = 0 \<and> nb_remove (tx_data t) = 0"
  using rdma_reads_counted [of draw get n] rand_update_same [of draw "thread_benchmark_new first r update alternate effective seed"]
  by (fastforce simp: rdma_execute_reads_def start_txs_def same_counts_def thread_benchmark_new_def)

subsection \<open>Properties\<close>


definition r_demo_run :: "(totals \<times> int \<times> rcuckoo) option" where
  "r_demo_run = R_test_run some_draw (\<lambda>g. (abs g, g + 7)) (r_table_insert 1) r_set_step R_size [0, 1, 0, 1]
     (default_config\<lparr>c_initial := 3, c_threads := 2, c_range := 100, c_update := 100\<rparr>) (\<lambda>i. of_nat i) 5 (R_new 4 99)"


end
