(* ===== verification/Startup.thy ===== *)
theory Startup
  imports Protocol
begin

text \<open>
  What runs before the stores serve requests: opening and closing the sockets of the distributed store
  (Connection.cpp, the constructor and destructor of App/Remote.cpp), the choice of the master
  (Persistence/Master.hpp), and the options of the bank (Banker/bankers-map/src/p1.cc, config_t.h).

  The operating system is a parameter: it answers each call and changes the state of the world.  A process that calls
  \<open>exit\<close> ends with \<open>Inl\<close> of its status; otherwise the result is \<open>Inr\<close> of what the function returns.
\<close>

subsection \<open>Sockets\<close>

datatype sys_call =
    Sys_socket
  | Sys_gethostbyname string
  | Sys_connect int int int
  | Sys_setsockopt int
  | Sys_bind int int
  | Sys_listen int int
  | Sys_close int

type_synonym 'w os = "sys_call \<Rightarrow> 'w \<Rightarrow> int \<times> 'w"

text \<open>A port of 16 bits\<close>

definition htons :: "int \<Rightarrow> int" where
  "htons p = p mod 65536"

text \<open>\<open>die\<close> prints its messages and exits with status 0.\<close>

definition die :: "'w \<Rightarrow> (int + 'a) \<times> 'w" where
  "die w = (Inl 0, w)"

text \<open>The result of \<open>gethostbyname\<close> is 0 for a null pointer, and an address otherwise.\<close>

definition connect_to_server :: "'w os \<Rightarrow> string \<Rightarrow> int \<Rightarrow> 'w \<Rightarrow> (int + int) \<times> 'w" where
  "connect_to_server os host p w =
     (case os Sys_socket w of (clientfd, w) \<Rightarrow>
        if clientfd < 0 then die w
        else case os (Sys_gethostbyname host) w of (hp, w) \<Rightarrow>
          if hp = 0 then die w
          else case os (Sys_connect clientfd hp (htons p)) w of (rc, w) \<Rightarrow>
            if rc < 0 then die w else (Inr clientfd, w))"

definition Connection_shutdown :: "'w os \<Rightarrow> int \<Rightarrow> 'w \<Rightarrow> (int + unit) \<times> 'w" where
  "Connection_shutdown os fd w = (case os (Sys_close fd) w of (rc, w) \<Rightarrow> if rc < 0 then die w else (Inr (), w))"

definition open_server_socket :: "'w os \<Rightarrow> int \<Rightarrow> 'w \<Rightarrow> (int + int) \<times> 'w" where
  "open_server_socket os p w =
     (case os Sys_socket w of (listenfd, w) \<Rightarrow>
        if listenfd < 0 then die w
        else case os (Sys_setsockopt listenfd) w of (rc, w) \<Rightarrow>
          if rc < 0 then die w
          else case os (Sys_bind listenfd (htons p)) w of (rc, w) \<Rightarrow>
            if rc < 0 then die w
            else case os (Sys_listen listenfd 1024) w of (rc, w) \<Rightarrow>
              if rc < 0 then die w else (Inr listenfd, w))"

subsection \<open>The connections of a client\<close>

fun connect_nodes :: "'w os \<Rightarrow> server_node list \<Rightarrow> int list \<Rightarrow> 'w \<Rightarrow> (int + int list) \<times> 'w" where
  "connect_nodes os [] connections w = (Inr connections, w)"
| "connect_nodes os (n # ns) connections w =
     (case connect_to_server os (server n) (port n) w of
        (Inl status, w) \<Rightarrow> (Inl status, w)
      | (Inr fd, w) \<Rightarrow> connect_nodes os ns (connections @ [fd]) w)"

definition Remote_new :: "'w os \<Rightarrow> server_node list \<Rightarrow> 'w \<Rightarrow> (int + int list) \<times> 'w" where
  "Remote_new os nodes w = connect_nodes os nodes [] w"

fun Remote_delete :: "'w os \<Rightarrow> int list \<Rightarrow> 'w \<Rightarrow> (int + unit) \<times> 'w" where
  "Remote_delete os [] w = (Inr (), w)"
| "Remote_delete os (fd # fds) w =
     (case os (Sys_close fd) w of (rc, w) \<Rightarrow> if rc < 0 then die w else Remote_delete os fds w)"

subsection \<open>The master\<close>

text \<open>An interface is its address family, if it has an address; the library's \<open>getnameinfo\<close> gives an error code or
  the numeric name of an interface.\<close>

type_synonym iface = "int option"

definition AF_INET :: int where "AF_INET = 2"

definition AF_INET6 :: int where "AF_INET6 = 10"

fun isMaster_loop :: "(nat \<Rightarrow> int + string) \<Rightarrow> string \<Rightarrow> nat \<Rightarrow> iface list \<Rightarrow> bool \<Rightarrow> int + bool" where
  "isMaster_loop getnameinfo target n [] same = Inr same"
| "isMaster_loop getnameinfo target n (None # ifs) same = isMaster_loop getnameinfo target (Suc n) ifs same"
| "isMaster_loop getnameinfo target n (Some family # ifs) same =
     (if family = AF_INET \<or> family = AF_INET6 then
        (case getnameinfo n of
           Inl s \<Rightarrow> Inl 1
         | Inr host \<Rightarrow> isMaster_loop getnameinfo target (Suc n) ifs (same \<or> host = target))
      else isMaster_loop getnameinfo target (Suc n) ifs same)"

definition isMaster :: "iface list option \<Rightarrow> (nat \<Rightarrow> int + string) \<Rightarrow> string \<Rightarrow> int + bool" where
  "isMaster getifaddrs getnameinfo targetIP =
     (case getifaddrs of None \<Rightarrow> Inl 1 | Some ifs \<Rightarrow> isMaster_loop getnameinfo targetIP 0 ifs False)"

subsection \<open>The options of the bank\<close>

record config_t =
  key_max :: int
  iters :: int
  name :: string
  threads :: int
  bank_buckets :: u32

definition config_t_new :: config_t where
  "config_t_new = \<lparr>key_max = 256, iters = 1024, name = ''no_name'', threads = 1,
     bank_buckets = word_of_int (if (256 :: int) < 512 then 256 else 512)\<rparr>"

fun parseargs :: "(string \<Rightarrow> int) \<Rightarrow> (char \<times> string) list \<Rightarrow> config_t \<Rightarrow> int + config_t" where
  "parseargs num [] cfg = Inr cfg"
| "parseargs num ((o1, arg) # os) cfg =
     (if o1 = CHR ''n'' then parseargs num os (cfg\<lparr>name := arg\<rparr>)
      else if o1 = CHR ''k'' then parseargs num os (cfg\<lparr>key_max := num arg\<rparr>)
      else if o1 = CHR ''i'' then parseargs num os (cfg\<lparr>iters := num arg\<rparr>)
      else if o1 = CHR ''b'' then parseargs num os (cfg\<lparr>bank_buckets := word_of_int (num arg)\<rparr>)
      else if o1 = CHR ''t'' then parseargs num os (cfg\<lparr>threads := num arg\<rparr>)
      else if o1 = CHR ''h'' then Inl 0
      else parseargs num os cfg)"

subsection \<open>The functions exit or succeed\<close>

lemma connect_fails: "fst (connect_to_server os h p w) = Inl s \<Longrightarrow> s = 0"
  by (auto simp: connect_to_server_def die_def split: prod.splits if_splits)

lemma open_fails: "fst (open_server_socket os p w) = Inl s \<Longrightarrow> s = 0"
  by (auto simp: open_server_socket_def die_def split: prod.splits if_splits)

lemma connect_nodes_fails: "fst (connect_nodes os ns fds w) = Inl s \<Longrightarrow> s = 0"
proof (induction os ns fds w rule: connect_nodes.induct)
  case (2 os n ns fds w)
  obtain r w' where r: "connect_to_server os (server n) (port n) w = (r, w')" by fastforce
  show ?case
  proof (cases r)
    case (Inl s')
    with 2(2) r connect_fails [of os "server n" "port n" w] show ?thesis by simp
  next
    case (Inr fd)
    with 2 r show ?thesis by simp
  qed
qed simp

text \<open>An operating system that logs its calls\<close>

definition logging :: "(sys_call list \<Rightarrow> sys_call \<Rightarrow> int) \<Rightarrow> sys_call list os" where
  "logging ans c w = (ans w c, w @ [c])"

definition connected_ports :: "sys_call list \<Rightarrow> int list" where
  "connected_ports w = concat (map (\<lambda>c. case c of Sys_connect fd hp p \<Rightarrow> [p] | _ \<Rightarrow> []) w)"

lemma connect_logged:
  assumes "connect_to_server (logging ans) h p w = (Inr fd, w')"
  shows "0 \<le> fd \<and> connected_ports w' = connected_ports w @ [htons p]"
  using assms by (auto simp: connect_to_server_def die_def logging_def connected_ports_def split: if_splits)

lemma connect_nodes_logged:
  assumes "connect_nodes (logging ans) ns fds w = (Inr fds', w')"
  shows "connected_ports w' = connected_ports w @ map (\<lambda>n. htons (port n)) ns \<and> length fds' = length fds + length ns"
  using assms
proof (induction ns arbitrary: fds w)
  case (Cons n ns)
  from Cons.prems obtain fd w1 where 1: "connect_to_server (logging ans) (server n) (port n) w = (Inr fd, w1)"
    "connect_nodes (logging ans) ns (fds @ [fd]) w1 = (Inr fds', w')" by (auto split: prod.splits sum.splits)
  from Cons.IH [OF 1(2)] connect_logged [OF 1(1)] show ?case by simp
qed simp

text \<open>A client that starts has one connection for each server, in their order; one that cannot connect exits
  with the status of success.\<close>

theorem remote_new_connects:
  "case Remote_new (logging ans) nodes [] of
     (Inl status, w) \<Rightarrow> status = 0
   | (Inr fds, w) \<Rightarrow> length fds = length nodes \<and> connected_ports w = map (\<lambda>n. htons (port n)) nodes"
  using connect_nodes_fails [of "logging ans" nodes "[]" "[]"] connect_nodes_logged [of ans nodes "[]" "[]"]
  by (auto simp: Remote_new_def connected_ports_def split: prod.splits sum.splits)

lemma isMaster_loop_iff:
  "isMaster_loop names target n ifs same = Inr b \<Longrightarrow>
   b \<longleftrightarrow> same \<or> (\<exists>i < length ifs. names (n + i) = Inr target \<and> (ifs ! i = Some AF_INET \<or> ifs ! i = Some AF_INET6))"
proof (induction names target n ifs same arbitrary: b rule: isMaster_loop.induct)
  case (2 names target n ifs same)
  then show ?case by (simp add: Ex_less_Suc2)
next
  case (3 names target n family ifs same)
  then show ?case by (auto simp: Ex_less_Suc2 split: if_splits sum.splits)
qed simp

text \<open>A server is the master if the first address of the environment is the one of an interface.\<close>

lemma isMaster_iff:
  "isMaster (Some ifs) names target = Inr b \<Longrightarrow>
   b \<longleftrightarrow> (\<exists>i < length ifs. names i = Inr target \<and> (ifs ! i = Some AF_INET \<or> ifs ! i = Some AF_INET6))"
  using isMaster_loop_iff [of names target 0 ifs False b] by (simp add: isMaster_def)

end
