(* ===== verification/Spec2Isabelle.thy ===== *)
theory Spec2Isabelle
  imports CuckooCorrect StoreCorrect TMCuckooCorrect KMeansCorrect RCuckooCorrect RRemoteCorrect BenchCorrect BankCorrect Barrier RBenchCorrect Startup
begin

text \<open>
  A verification library for a collection of concurrent programs in C++: a cuckoo hash table with bucket locks
  and its transactional variant (CuckooHash), a distributed key-value store over sockets
  (DistributedKeyValueStore), a replicated key-value store over RDMA (ReplicatedKeyValueStoreRDMA),
  K-Means clustering (K-Means), and a bank whose accounts several threads change
  (Banker/bankers-map).  This theory imports all others; the definitions keep the names of the code, with
  a prefix where two programs share one (TM_ for the transactional table, R_ for the table of the RDMA store,
  RDMA_ for its client, sm_ for the map of the bank).

  Conventions.  A function that may run into undefined behaviour, or wait for a lock of its own, returns
  an option, None being that fault; errors that the code reports are ordinary values.  Loops that end are recursive
  functions with a termination proof; the retry loops of insert, which may not end, run with fuel and tell
  Fault, No_fuel and Done apart (outcome in Prelude).  Fuel 1 is enough where insert_returns and the witnesses use it;
  rdma_insert_livelock shows that no fuel is enough on some tables.  Unsigned numbers are words (u32,
  u64); an int is an int with a range check where it is computed (as_int), or the word of its bits where the
  code hashes it.  Interleavings are step functions or inductive relations on explicit states: one step is one
  statement, one transaction, one lock operation, one remote operation, or one call, as said in each theory.  Calls of
  the environment are parameters: floating point operations (record fp), random numbers, the results of
  read and write, the operating system (type os), the delivery of bytes (delivers in Store), scaled
  random draws (draw).

  Contracts.  SetObject and MapObject state what set-like and map-like containers promise (locales set_object,
  total_set_object, map_object, total_map_object); LockOrder states that requests in ascending order exclude
  deadlock (ordered_requests); word_set in BenchCorrect is the contract that the load generators need.
  Interpretations, in the theories of the providers: the cuckoo table, the lazy list, the hash map, the
  transactional table, the table of the RDMA store, the accounts of the bank; the lock orders of the cuckoo table and
  of the bank; the cuckoo table and the RDMA table under load.

  Theories, by program:

  - Prelude: arrays with checked indices, int ranges, outcomes, shared simplification rules.

  - CuckooHash/Cuckoo.hpp: Spinlocks (lock_two, lock_three, unlock functions), CuckooTable (xorshf96, Table, the
    class Cuckoo, contains, remove, size), CuckooSearch (the breadth-first search and its path codes), CuckooInsert (one
    attempt, displacement, resize), CuckooLoop and CuckooProgress (the retry loop, when an attempt succeeds),
    LockOrder, CuckooCorrect.  Shown: insert refines insertion into a multiset and calls answer like a set as long as no call
    resizes; the search ends with a decodable path within int; lock requests never deadlock; resize keeps only the
    elements of the first half of the buckets, so that an insert that resizes loses elements.
  - CuckooHash/TMCuckoo.hpp (twice in the repository, identical): TMCuckoo, TMCuckooInv, TMCuckooCorrect, with threads that
    interleave transactions.  Shown: the shape and placement of the tables under every interleaving, the set contract for calls
    that run alone, and an interleaving that loses an element.
  - DistributedKeyValueStore: LazyList, LazyListInv, LazyListSeq, LazyListCorrect (ConcurrentList.cpp, statement by
    statement under every interleaving), HashMap (ConcurrentHashMap.cpp), Wire (Connection.cpp: buffers,
    stream_data, socket_get_line), Protocol (Message.cpp, Parser.hpp), Store and StoreCorrect (Server.cpp,
    App/Remote.cpp end to end), Startup (sockets, Master.hpp).  Shown: every answer of the list is that of the
    set at a moment of the call, heap shape and lock exclusion, messages are received as sent, the cluster answers like one set.
  - ReplicatedKeyValueStoreRDMA: RCuckoo, RCuckooInv, RCuckooOps, RCuckooInsert, RCuckooStuck, RCuckooCorrect
    (Persistence/KeyValueStore/Cuckoo.hpp), RRemote, RRemoteInv, RRemoteSteps, RRemoteCalls, RRemoteCorrect
    (App/Remote.cpp and the message handler of Persistence/Server.cpp).  Shown: the table is a map, insert may run for ever on
    some tables, lock words exclude clients, messages about a bucket have one order, yet replicas can diverge; get misses
    stored keys where client and server disagree on the second hash.
  - K-Means: KMeans, KMeansInv (kmeans475-serial.cpp), KMeansPar (kmeans475-paralell.cpp), KMeansShow (solution.cpp),
    KMeansCorrect.  Shown: run ends and its clusters partition the points, the parallel assignment does not depend on the
    schedule, the parallel recentering depends on how the points are split.
  - Load generators and their reports: Bench, BenchCorrect (CuckooHash/Parallelize.cpp and test.cpp, both
    App/Client.cpp, Benchmark.hpp), RBench, RBenchCorrect (Persistence/KeyValueStore/Parallelize.cpp and test.cpp,
    populate_store).  Shown: the expected size that the tests print is the size of the table in every run, the rate of
    updates stays below the requested one.
  - Barrier: barrier_init and barrier_cross (CuckooHash/utils.hpp and three copies).  Shown: it is a barrier as long as no
    wait returns spuriously, and one spurious wake-up breaks it.
  - Banker/bankers-map: BankMap (simplemap.h), Bank (tests.cc, locks.cc, threads.cc), BankInv, BankSteps,
    BankCorrect, and the options in Startup.  BankSteps shows that the threads' lock calls implement the lock system of
    LockOrder, and follows the money: what the accounts hold and what deposits have under way is the total.  Shown: every
    completed balance is the initial sum, all threads can finish, a thread alone keeps the sum.

  Bounds.  The path codes of the cuckoo search stay within int for WIDTH 6 and depth 7; those of the transactional table
  (WIDTH 50) do not.  Tables are assumed to have between 1 and 2 ^ 31 - 1 buckets; the table of the RDMA store 9 nodes a bucket
  within int.  The bank needs no more buckets than an int counts.  Amounts of the bank are of a group: additions
  are exact, where the program's floats round.

  Not modelled: the infinity library and the RDMA tutorial (third-party code in the repository), opening and
  closing of RDMA connections, accepting of socket connections and thread creation in the main functions, printing and
  clocks (beyond the numbers printed), the variant of simplemap.h that is never compiled, and the trial
  programs.  Weak memory effects of the unprotected accesses are not modelled: interleavings are sequentially consistent.
\<close>

end
